(* ===== verification/Prelude.thy ===== *)
theory Prelude
  imports Main "HOL-Library.Word" "HOL-Library.Monad_Syntax" "HOL-Library.Code_Target_Nat"
begin

unbundle bit_operations_syntax

text \<open>
  Shared vocabulary of the development: the machine integer types of the code, Rust's
  \<open>Result\<close> plumbing as a sum type, checked indexing and slicing (where the code would
  panic the model yields \<open>None\<close>), big-endian byte conversion, the binary search behind
  \<open>slice::partition_point\<close>, and the arithmetic of address prefixes.
\<close>

section \<open>Types of the code\<close>

type_synonym u8 = "8 word"
type_synonym u16 = "16 word"
type_synonym u32 = "32 word"
type_synonym u64 = "64 word"
type_synonym u128 = "128 word"
type_synonym bytes = "8 word list"

text \<open>A Rust \<open>str\<close> is its UTF-8 bytes; a HOL \<open>char\<close> is one byte.\<close>

definition as_bytes :: "string \<Rightarrow> bytes" where
  "as_bytes s = map of_char s"

definition str_of_bytes :: "bytes \<Rightarrow> string" where
  "str_of_bytes bs = map (\<lambda>b. char_of (unat b)) bs"

named_theorems byte_simps \<open>lengths and conversions of byte strings\<close>

lemma length_as_bytes [simp, byte_simps]: "length (as_bytes s) = length s"
  by (simp add: as_bytes_def)

lemma as_bytes_append [simp, byte_simps]: "as_bytes (s @ t) = as_bytes s @ as_bytes t"
  by (simp add: as_bytes_def)

lemma as_bytes_Nil [simp]: "as_bytes s = [] \<longleftrightarrow> s = []"
  by (simp add: as_bytes_def)

lemma unat_of_char_word [simp]: "unat (of_char c :: u8) = of_char c"
proof -
  have "of_char c < (256::nat)" by simp
  moreover have "(of_char c :: u8) = of_nat (of_char c)"
    by (simp only: of_nat_of_char)
  ultimately show ?thesis
    by (simp add: unsigned_of_nat take_bit_eq_mod del: of_nat_of_char)
qed

lemma str_of_as_bytes [simp, byte_simps]: "str_of_bytes (as_bytes s) = s"
  by (simp add: str_of_bytes_def as_bytes_def comp_def map_idI)

lemma as_bytes_of_str [simp, byte_simps]: "as_bytes (str_of_bytes bs) = bs"
proof -
  have "of_char (char_of (unat b)) = b" for b :: u8
  proof -
    have "unat b < 256" using unsigned_less [of b] by simp
    then have "(of_char (char_of (unat b)) :: u8) = of_nat (unat b)"
      by (metis of_nat_of_char of_char_of mod_less)
    then show ?thesis by simp
  qed
  then show ?thesis
    by (simp add: str_of_bytes_def as_bytes_def comp_def map_idI)
qed

lemma as_bytes_inject [simp]: "as_bytes s = as_bytes t \<longleftrightarrow> s = t"
  by (metis str_of_as_bytes)

section \<open>Results\<close>

text \<open>\<open>Result<T, E>\<close> is \<open>'e + 't\<close>: \<open>Inl\<close> is \<open>Err\<close>, \<open>Inr\<close> is \<open>Ok\<close>.\<close>

fun and_then :: "'e + 'a \<Rightarrow> ('a \<Rightarrow> 'e + 'b) \<Rightarrow> 'e + 'b" where
  "and_then (Inl e) f = Inl e"
| "and_then (Inr x) f = f x"

fun map_err :: "('e \<Rightarrow> 'f) \<Rightarrow> 'e + 'a \<Rightarrow> 'f + 'a" where
  "map_err f (Inl e) = Inl (f e)"
| "map_err f (Inr x) = Inr x"

fun ok_or :: "'e \<Rightarrow> 'a option \<Rightarrow> 'e + 'a" where
  "ok_or e None = Inl e"
| "ok_or e (Some x) = Inr x"

fun ok :: "'e + 'a \<Rightarrow> 'a option" where
  "ok (Inl e) = None"
| "ok (Inr x) = Some x"

text \<open>
  \<open>iter.map(f).collect::<Result<Vec<_>, _>>()\<close>, and equally a loop that pushes
  \<open>f(x)?\<close>: the first error ends it.
\<close>

fun try_map :: "('a \<Rightarrow> 'e + 'b) \<Rightarrow> 'a list \<Rightarrow> 'e + 'b list" where
  "try_map f [] = Inr []"
| "try_map f (x # xs) = and_then (f x) (\<lambda>y. and_then (try_map f xs) (\<lambda>ys. Inr (y # ys)))"

lemma and_then_Inr [simp]: "and_then r f = Inr y \<longleftrightarrow> (\<exists>x. r = Inr x \<and> f x = Inr y)"
  by (cases r) auto

lemma map_err_Inr [simp]: "map_err f r = Inr y \<longleftrightarrow> r = Inr y"
  by (cases r) auto

lemma ok_or_Inr [simp]: "ok_or e r = Inr y \<longleftrightarrow> r = Some y"
  by (cases r) auto

lemma ok_Some [simp]: "ok r = Some y \<longleftrightarrow> r = Inr y"
  by (cases r) auto

lemma try_map_append:
  "try_map f (xs @ ys) = and_then (try_map f xs) (\<lambda>us. and_then (try_map f ys) (\<lambda>vs. Inr (us @ vs)))"
proof (induction xs)
  case Nil
  then show ?case by (cases "try_map f ys") auto
next
  case (Cons x xs)
  then show ?case by (cases "f x"; cases "try_map f xs"; cases "try_map f ys") auto
qed

lemma try_map_Inr_iff: "try_map f xs = Inr ys \<longleftrightarrow> list_all2 (\<lambda>x y. f x = Inr y) xs ys"
  by (induction xs arbitrary: ys) (auto simp: list_all2_Cons1)

lemma try_map_total: "(\<And>x. x \<in> set xs \<Longrightarrow> f x = Inr (g x)) \<Longrightarrow> try_map f xs = Inr (map g xs)"
  by (induction xs) auto

lemma try_map_Inl_iff:
  "(\<exists>e. try_map f xs = Inl e) \<longleftrightarrow> (\<exists>x \<in> set xs. \<exists>e. f x = Inl e)"
proof (induction xs)
  case Nil
  then show ?case by simp
next
  case (Cons x xs)
  then show ?case by (cases "f x"; cases "try_map f xs") auto
qed

section \<open>Checked reads\<close>

text \<open>Indexing and slicing panic out of range; \<open>None\<close> is the panic.\<close>

definition idx :: "'a list \<Rightarrow> nat \<Rightarrow> 'a option" where
  "idx xs i = (if i < length xs then Some (xs ! i) else None)"

definition slice :: "'a list \<Rightarrow> nat \<Rightarrow> nat \<Rightarrow> 'a list option" where
  "slice xs i j = (if i \<le> j \<and> j \<le> length xs then Some (take (j - i) (drop i xs)) else None)"

lemma idx_Some [simp]: "i < length xs \<Longrightarrow> idx xs i = Some (xs ! i)"
  by (simp add: idx_def)

lemma slice_Some [simp]:
  "i \<le> j \<Longrightarrow> j \<le> length xs \<Longrightarrow> slice xs i j = Some (take (j - i) (drop i xs))"
  by (simp add: slice_def)

section \<open>Big-endian bytes\<close>

definition be_nat :: "bytes \<Rightarrow> nat" where
  "be_nat bs = foldl (\<lambda>acc b. acc * 256 + unat b) 0 bs"

text \<open>\<open>uN::from_be_bytes\<close> and \<open>uN::to_be_bytes\<close> (\<open>n\<close> bytes).\<close>

definition from_be_bytes :: "bytes \<Rightarrow> 'w::len word" where
  "from_be_bytes bs = foldl (\<lambda>acc b. acc * 256 + ucast b) 0 bs"

fun to_be_bytes :: "nat \<Rightarrow> 'w::len word \<Rightarrow> bytes" where
  "to_be_bytes 0 w = []"
| "to_be_bytes (Suc n) w = to_be_bytes n (drop_bit 8 w) @ [ucast w]"

lemma length_to_be_bytes [simp, byte_simps]: "length (to_be_bytes n w) = n"
  by (induction n arbitrary: w) auto

lemma be_nat_Nil [simp]: "be_nat [] = 0"
  by (simp add: be_nat_def)

lemma be_nat_snoc: "be_nat (bs @ [b]) = be_nat bs * 256 + unat b"
  by (simp add: be_nat_def)

lemma be_nat_append: "be_nat (xs @ ys) = be_nat xs * 256 ^ length ys + be_nat ys"
proof (induction ys rule: rev_induct)
  case Nil
  then show ?case by simp
next
  case (snoc y ys)
  have "be_nat (xs @ ys @ [y]) = be_nat (xs @ ys) * 256 + unat y"
    using be_nat_snoc [of "xs @ ys" y] by simp
  with snoc show ?case by (simp add: be_nat_snoc algebra_simps)
qed

lemma unat_u8_less [simp]: "unat (b :: u8) < 256"
  using unsigned_less [of b] by simp

lemma be_nat_less: "be_nat bs < 256 ^ length bs"
proof (induction bs rule: rev_induct)
  case Nil
  then show ?case by simp
next
  case (snoc b bs)
  have "be_nat bs * 256 + unat b < (be_nat bs + 1) * 256" by simp
  also have "\<dots> \<le> 256 ^ length bs * 256" using snoc by (intro mult_le_mono1) simp
  finally show ?case by (simp add: be_nat_snoc)
qed

lemma be_nat_inject:
  "length xs = length ys \<Longrightarrow> be_nat xs = be_nat ys \<longleftrightarrow> xs = ys"
proof (induction xs arbitrary: ys rule: rev_induct)
  case Nil
  then show ?case by simp
next
  case (snoc x xs)
  from snoc.prems obtain zs z where ys: "ys = zs @ [z]" and len: "length xs = length zs"
    by (cases ys rule: rev_cases) auto
  have "a * 256 + c = b * 256 + d \<longleftrightarrow> a = b \<and> c = d" if "c < 256" "d < 256" for a b c d :: nat
  proof
    assume eq: "a * 256 + c = b * 256 + d"
    have "(a * 256 + c) div 256 = a" "(b * 256 + d) div 256 = b" using that by simp_all
    with eq show "a = b \<and> c = d" by simp
  qed simp
  from this [OF unat_u8_less unat_u8_less]
  have "be_nat (xs @ [x]) = be_nat (zs @ [z]) \<longleftrightarrow> be_nat xs = be_nat zs \<and> unat x = unat z"
    by (simp only: be_nat_snoc)
  then show ?case
    by (simp only: ys snoc.IH [OF len] word_unat_eq_iff append1_eq_conv)
qed

lemma from_be_bytes_of_nat: "(from_be_bytes bs :: 'w::len word) = of_nat (be_nat bs)"
proof (induction bs rule: rev_induct)
  case Nil
  then show ?case by (simp add: from_be_bytes_def)
next
  case (snoc b bs)
  then have "(from_be_bytes (bs @ [b]) :: 'w word) = of_nat (be_nat bs) * 256 + ucast b"
    by (simp add: from_be_bytes_def)
  also have "ucast b = (of_nat (unat b) :: 'w word)"
    by (simp add: word_eq_iff_unsigned unsigned_ucast_eq)
  finally show ?case by (simp add: be_nat_snoc)
qed

lemma unat_from_be_bytes:
  assumes "8 * length bs \<le> LENGTH('w)"
  shows "unat (from_be_bytes bs :: 'w::len word) = be_nat bs"
proof -
  have "be_nat bs < 256 ^ length bs" by (rule be_nat_less)
  also have "(256::nat) ^ length bs = 2 ^ (8 * length bs)" by (simp add: power_mult)
  also have "\<dots> \<le> 2 ^ LENGTH('w)" using assms by simp
  finally show ?thesis
    by (simp add: from_be_bytes_of_nat unsigned_of_nat take_bit_eq_mod)
qed

lemma be_nat_to_be_bytes: "be_nat (to_be_bytes n w) = unat w mod 256 ^ n"
proof (induction n arbitrary: w)
  case 0
  then show ?case by simp
next
  case (Suc n)
  have "unat (ucast w :: u8) = unat w mod 256"
    by (simp add: unsigned_ucast_eq take_bit_eq_mod)
  moreover have "unat (drop_bit 8 w) = unat w div 256"
    by (simp only: unat_drop_bit_eq) (simp add: drop_bit_eq_div)
  ultimately show ?case
    by (simp add: be_nat_snoc Suc.IH mod_mult2_eq algebra_simps)
qed

lemma from_to_be_bytes:
  assumes "LENGTH('w) = 8 * n"
  shows "(from_be_bytes (to_be_bytes n w) :: 'w::len word) = w"
proof -
  have "unat w < 2 ^ (8 * n)" using unsigned_less [of w] assms by simp
  then have "unat w < 256 ^ n" by (simp add: power_mult)
  then show ?thesis
    by (simp add: from_be_bytes_of_nat be_nat_to_be_bytes)
qed

lemma to_from_be_bytes:
  assumes "length bs = n" and "8 * n \<le> LENGTH('w)"
  shows "to_be_bytes n (from_be_bytes bs :: 'w::len word) = bs"
proof -
  have "be_nat (to_be_bytes n (from_be_bytes bs :: 'w word)) = be_nat bs"
    using assms be_nat_less [of bs]
    by (simp add: be_nat_to_be_bytes unat_from_be_bytes)
  then show ?thesis using be_nat_inject assms by (metis length_to_be_bytes)
qed

section \<open>Evaluation of concrete inputs\<close>

text \<open>
  Code equations for the witnesses, which evaluate the model inside the kernel: powers of two
  by squaring, shifts and big-endian reads on the represented integer, sorting by insertion
  (which stops on a list that is not yet known).
\<close>

function pow2 :: "nat \<Rightarrow> int" where
  "pow2 n = (if n = 0 then 1 else (let p = pow2 (n div 2) in if even n then p * p else 2 * (p * p)))"
  by auto
termination by (relation "measure id") auto

declare pow2.simps [simp del]

lemma pow2_power: "pow2 n = 2 ^ n"
proof (induction n rule: pow2.induct)
  case (1 n)
  have "n = 2 * (n div 2) + n mod 2" by simp
  then have "(2::int) ^ n = 2 ^ (n div 2) * 2 ^ (n div 2) * 2 ^ (n mod 2)"
    by (metis power_add mult_2)
  then show ?case
    using 1 by (subst pow2.simps) (auto simp: Let_def even_iff_mod_2_eq_zero odd_iff_mod_2_eq_one)
qed

lemma take_bit_int_code [code]: "take_bit n (k :: int) = k mod pow2 n"
  by (simp add: pow2_power take_bit_eq_mod)

lemma push_bit_int_code [code]: "push_bit n (k :: int) = k * pow2 n"
  by (simp add: pow2_power push_bit_eq_mult)

lemma drop_bit_int_code [code]: "drop_bit n (k :: int) = k div pow2 n"
  by (simp add: pow2_power drop_bit_eq_div)

lemma push_bit_word_code [code]:
  "Word.the_int (push_bit n (w :: 'a::len word)) = take_bit LENGTH('a) (push_bit n (Word.the_int w))"
  by transfer (simp add: push_bit_take_bit)

lemma of_be_int: "foldl (\<lambda>acc b. acc * 256 + Word.the_int b) (int k) bs =
    int (foldl (\<lambda>acc b. acc * 256 + unat b) k (bs :: bytes))"
proof (induction bs arbitrary: k)
  case (Cons b bs)
  have "int k * 256 + Word.the_int b = int (k * 256 + unat b)"
    by (simp add: the_int.rep_eq)
  then show ?case using Cons.IH [of "k * 256 + unat b"] by (simp del: of_nat_add of_nat_mult)
qed simp

lemma from_be_bytes_code [code]:
  "Word.the_int (from_be_bytes bs :: 'a::len word) =
    take_bit LENGTH('a) (foldl (\<lambda>acc b. acc * 256 + Word.the_int b) 0 bs)"
  using of_be_int [of 0 bs]
  by (simp add: from_be_bytes_of_nat be_nat_def the_int.rep_eq unsigned_of_nat of_nat_take_bit)

lemma sort_key_code [code]: "sort_key f xs = foldr (insort_key f) xs []"
  by (simp add: sort_key_def)

end
