(* ===== verification/Range_Index.thy ===== *)
theory Range_Index
  imports Prelude
begin

text \<open>
  Ordered, disjoint address ranges and the binary search over them. Both sorted tables of
  the program, the allowlist of cidr.rs and the segment map of identity.rs, answer a lookup
  with \<open>partition_point\<close> and one bounds check; the locale \<open>sorted_ranges\<close> states what such a
  table promises, and its lemmas are proved once for both. The second part is the arithmetic
  of a prefix \<open>base/bits\<close>: the mask the code computes describes exactly the addresses that
  agree with the base on the first \<open>bits\<close> bits.
\<close>

section \<open>Binary search\<close>

text \<open>
  \<open>slice::partition_point\<close>: bisection between \<open>lo\<close> and \<open>hi\<close>.
\<close>

function bisect :: "('a \<Rightarrow> bool) \<Rightarrow> 'a list \<Rightarrow> nat \<Rightarrow> nat \<Rightarrow> nat" where
  "bisect p xs lo hi =
     (if lo < hi then
        (let mid = (lo + hi) div 2 in
         if p (xs ! mid) then bisect p xs (Suc mid) hi else bisect p xs lo mid)
      else lo)"
  by pat_completeness auto
termination
  by (relation "measure (\<lambda>(p, xs, lo, hi). hi - lo)") auto

declare bisect.simps [simp del]

definition partition_point :: "('a \<Rightarrow> bool) \<Rightarrow> 'a list \<Rightarrow> nat" where
  "partition_point p xs = bisect p xs 0 (length xs)"

definition partitioned :: "('a \<Rightarrow> bool) \<Rightarrow> 'a list \<Rightarrow> nat \<Rightarrow> bool" where
  "partitioned p xs k \<longleftrightarrow> k \<le> length xs \<and> (\<forall>i < length xs. p (xs ! i) \<longleftrightarrow> i < k)"

lemma bisect_partitioned:
  "partitioned p xs k \<Longrightarrow> lo \<le> k \<Longrightarrow> k \<le> hi \<Longrightarrow> hi \<le> length xs \<Longrightarrow> bisect p xs lo hi = k"
proof (induction p xs lo hi rule: bisect.induct)
  case (1 p xs lo hi)
  show ?case
  proof (cases "lo < hi")
    case True
    define mid where "mid = (lo + hi) div 2"
    have mid: "lo \<le> mid" "mid < hi" using True by (auto simp: mid_def)
    with "1.prems" have mid_p: "p (xs ! mid) \<longleftrightarrow> mid < k"
      by (auto simp: partitioned_def)
    show ?thesis
    proof (cases "mid < k")
      case True
      with "1.IH"(1) [OF \<open>lo < hi\<close> mid_def] "1.prems" mid mid_p
      have "bisect p xs (Suc mid) hi = k" by simp
      with True \<open>lo < hi\<close> mid_p show ?thesis
        by (simp add: bisect.simps [of p xs lo hi] Let_def mid_def [symmetric])
    next
      case False
      with "1.IH"(2) [OF \<open>lo < hi\<close> mid_def] "1.prems" mid mid_p
      have "bisect p xs lo mid = k" by simp
      with False \<open>lo < hi\<close> mid_p show ?thesis
        by (simp add: bisect.simps [of p xs lo hi] Let_def mid_def [symmetric])
    qed
  next
    case False
    with "1.prems" show ?thesis by (simp add: bisect.simps [of p xs lo hi])
  qed
qed

lemma partition_point_eq: "partitioned p xs k \<Longrightarrow> partition_point p xs = k"
  by (auto simp: partition_point_def partitioned_def intro!: bisect_partitioned)

lemma partitioned_takeWhile:
  assumes "\<And>i j. i \<le> j \<Longrightarrow> j < length xs \<Longrightarrow> p (xs ! j) \<Longrightarrow> p (xs ! i)"
  shows "partitioned p xs (length (takeWhile p xs))"
proof -
  let ?k = "length (takeWhile p xs)"
  have "p (xs ! i) \<longleftrightarrow> i < ?k" if i: "i < length xs" for i
  proof
    assume pi: "p (xs ! i)"
    show "i < ?k"
    proof (rule ccontr)
      assume "\<not> i < ?k"
      then have "?k \<le> i" by simp
      with i have "?k < length xs" by simp
      then have "\<not> p (xs ! ?k)" by (rule nth_length_takeWhile)
      with assms [OF \<open>?k \<le> i\<close> i pi] show False by simp
    qed
  next
    assume "i < ?k"
    then show "p (xs ! i)" by (metis nth_mem set_takeWhileD takeWhile_nth)
  qed
  then show ?thesis by (simp add: partitioned_def length_takeWhile_le)
qed

section \<open>Tables of ordered ranges\<close>

text \<open>
  The lookup both tables share: the last range that starts at or below \<open>a\<close>, if any.
\<close>

definition last_starting_by :: "('r \<Rightarrow> u128) \<Rightarrow> u128 \<Rightarrow> 'r list \<Rightarrow> 'r option" where
  "last_starting_by lo a xs =
     (let i = partition_point (\<lambda>r. lo r \<le> a) xs in if 0 < i then Some (xs ! (i - 1)) else None)"

locale sorted_ranges =
  fixes lo hi :: "'r \<Rightarrow> u128"
    and table :: "'c \<Rightarrow> 'r list"
    and invar :: "'c \<Rightarrow> bool"
  assumes lo_le_hi: "invar c \<Longrightarrow> r \<in> set (table c) \<Longrightarrow> lo r \<le> hi r"
    and ordered: "invar c \<Longrightarrow> sorted_wrt (\<lambda>r s. hi r < lo s) (table c)"
begin

lemma starts_increase:
  assumes "invar c" and "i < j" and "j < length (table c)"
  shows "hi (table c ! i) < lo (table c ! j)"
  using ordered [OF assms(1)] assms(2,3) by (simp add: sorted_wrt_iff_nth_less)

lemma lo_mono:
  assumes "invar c" and "i \<le> j" and "j < length (table c)"
  shows "lo (table c ! i) \<le> lo (table c ! j)"
proof (cases "i = j")
  case False
  then have "i < j" using assms(2) by simp
  then have "hi (table c ! i) < lo (table c ! j)"
    using assms by (blast intro: starts_increase)
  moreover have "lo (table c ! i) \<le> hi (table c ! i)"
    using assms \<open>i < j\<close> by (auto intro!: lo_le_hi nth_mem)
  ultimately show ?thesis by order
qed simp

lemma partition_at:
  assumes "invar c"
  shows "partitioned (\<lambda>r. lo r \<le> a) (table c)
    (partition_point (\<lambda>r. lo r \<le> a) (table c))"
proof -
  have "partitioned (\<lambda>r. lo r \<le> a) (table c) (length (takeWhile (\<lambda>r. lo r \<le> a) (table c)))"
    by (rule partitioned_takeWhile) (meson lo_mono [OF assms] order.trans)
  then show ?thesis using partition_point_eq by metis
qed

lemma last_starting_by_None:
  assumes "invar c"
  shows "last_starting_by lo a (table c) = None \<longleftrightarrow> (\<forall>r \<in> set (table c). a < lo r)"
proof -
  define k where "k = partition_point (\<lambda>r. lo r \<le> a) (table c)"
  have part: "k \<le> length (table c)" "\<And>i. i < length (table c) \<Longrightarrow> lo (table c ! i) \<le> a \<longleftrightarrow> i < k"
    using partition_at [OF assms, of a] by (auto simp: partitioned_def k_def)
  have "last_starting_by lo a (table c) = None \<longleftrightarrow> k = 0"
    by (simp add: last_starting_by_def Let_def k_def)
  also have "\<dots> \<longleftrightarrow> (\<forall>i < length (table c). a < lo (table c ! i))"
  proof
    assume "k = 0"
    with part(2) show "\<forall>i < length (table c). a < lo (table c ! i)" by (simp add: not_le)
  next
    assume all: "\<forall>i < length (table c). a < lo (table c ! i)"
    show "k = 0"
    proof (rule ccontr)
      assume "k \<noteq> 0"
      then have "0 < k" "0 < length (table c)" using part(1) by linarith+
      then have "lo (table c ! 0) \<le> a" "a < lo (table c ! 0)" using part(2) all by blast+
      then show False by simp
    qed
  qed
  also have "\<dots> \<longleftrightarrow> (\<forall>r \<in> set (table c). a < lo r)"
    by (metis in_set_conv_nth)
  finally show ?thesis .
qed

lemma last_starting_by_Some:
  assumes "invar c" and "last_starting_by lo a (table c) = Some r"
  shows "r \<in> set (table c)" and "lo r \<le> a"
    and "\<And>s. s \<in> set (table c) \<Longrightarrow> lo s \<le> a \<Longrightarrow> s = r \<or> hi s < lo r"
proof -
  define k where "k = partition_point (\<lambda>r. lo r \<le> a) (table c)"
  from assms(2) have k: "0 < k" and r: "r = table c ! (k - 1)"
    by (auto simp: last_starting_by_def Let_def k_def split: if_splits)
  from partition_at [OF assms(1), of a]
  have part: "k \<le> length (table c)" "\<And>i. i < length (table c) \<Longrightarrow> lo (table c ! i) \<le> a \<longleftrightarrow> i < k"
    by (auto simp: partitioned_def k_def)
  from k part(1) have in_range: "k - 1 < length (table c)" by simp
  from in_range show "r \<in> set (table c)" by (simp add: r)
  from part(2) [OF in_range] k show "lo r \<le> a" by (simp add: r)
  fix s assume "s \<in> set (table c)" and "lo s \<le> a"
  then obtain i where i: "i < length (table c)" "s = table c ! i" "i < k"
    using part(2) by (auto simp: in_set_conv_nth)
  show "s = r \<or> hi s < lo r"
  proof (cases "i = k - 1")
    case True
    with i r show ?thesis by simp
  next
    case False
    with i(3) have "i < k - 1" by simp
    with starts_increase [OF assms(1) this in_range] show ?thesis by (simp add: i(2) r)
  qed
qed

text \<open>
  The bounds check against that one range decides whether any range holds both \<open>a\<close> and
  the later address \<open>e\<close>.
\<close>

lemma probe_iff:
  assumes "invar c"
  shows "(case last_starting_by lo a (table c) of None \<Rightarrow> False | Some r \<Rightarrow> e \<le> hi r)
    \<longleftrightarrow> (\<exists>r \<in> set (table c). lo r \<le> a \<and> e \<le> hi r)"
proof (cases "last_starting_by lo a (table c)")
  case None
  with last_starting_by_None [OF assms, of a] show ?thesis by (auto simp: not_le [symmetric])
next
  case (Some r)
  note r = last_starting_by_Some [OF assms Some]
  have "e \<le> hi r" if s: "s \<in> set (table c)" "lo s \<le> a" "e \<le> hi s" for s
  proof -
    from r(3) [OF s(1,2)] show ?thesis
    proof
      assume "hi s < lo r"
      with s(3) lo_le_hi [OF assms r(1)] show ?thesis by order
    qed (use s in simp)
  qed
  with Some r(1,2) show ?thesis by auto
qed

lemma holder_unique:
  assumes "invar c" and "r \<in> set (table c)" and "s \<in> set (table c)"
    and "lo r \<le> a" and "a \<le> hi r" and "lo s \<le> a" and "a \<le> hi s"
  shows "r = s"
proof -
  from assms(2,3) obtain i j where ij: "i < length (table c)" "r = table c ! i"
    "j < length (table c)" "s = table c ! j"
    by (auto simp: in_set_conv_nth)
  show ?thesis
  proof (rule linorder_cases [of i j])
    assume "i < j"
    with starts_increase [OF assms(1) this ij(3)] assms(5,6) ij show ?thesis by auto
  next
    assume "j < i"
    with starts_increase [OF assms(1) this ij(1)] assms(4,7) ij show ?thesis by auto
  qed (use ij in simp)
qed

text \<open>The range found, when the check passes, is the one holding \<open>a\<close>.\<close>

lemma probe_Some:
  assumes "invar c" and "r \<in> set (table c)" and "lo r \<le> a" and "a \<le> hi r"
  shows "last_starting_by lo a (table c) = Some r"
proof (cases "last_starting_by lo a (table c)")
  case None
  with last_starting_by_None [OF assms(1), of a] assms(2,3) show ?thesis
    by (auto simp: not_le [symmetric])
next
  case (Some s)
  note s = last_starting_by_Some [OF assms(1) Some]
  from s(3) [OF assms(2,3)] have "r = s"
  proof
    assume "hi r < lo s"
    with assms(4) s(2) show ?thesis by order
  qed
  with Some show ?thesis by simp
qed

end

section \<open>Prefixes\<close>

text \<open>The mask of cidr.rs and identity.rs, the shift by 128 handled apart.\<close>

definition prefix_mask :: "nat \<Rightarrow> u128" where
  "prefix_mask bits = (if bits = 0 then 0 else push_bit (128 - bits) (- 1))"

lemma prefix_mask_eq: "bits \<le> 128 \<Longrightarrow> prefix_mask bits = NOT (mask (128 - bits))"
  by (simp add: prefix_mask_def push_bit_minus_one mask_eq_exp_minus_1)

lemma unat_prefix_base:
  "unat ((w :: u128) AND NOT (mask k)) = 2 ^ k * (unat w div 2 ^ k)"
proof -
  have "w AND NOT (mask k) = push_bit k (drop_bit k w)"
    by (rule bit_word_eqI) (auto simp: bit_simps)
  moreover have "unat w div 2 ^ k * 2 ^ k < 2 ^ 128"
    using unsigned_less [where 'a = nat, of w] by (simp add: le_less_trans [OF div_times_less_eq_dividend])
  ultimately show ?thesis
    by (simp only: unsigned_push_bit_eq unat_drop_bit_eq)
      (simp add: take_bit_eq_mod push_bit_eq_mult drop_bit_eq_div mult.commute)
qed

lemma unat_prefix_end:
  assumes "k \<le> 128"
  shows "unat (((w :: u128) AND NOT (mask k)) OR mask k) = 2 ^ k * (unat w div 2 ^ k) + (2 ^ k - 1)"
proof -
  let ?s = "w AND NOT (mask k)"
  have "?s OR mask k = ?s + mask k"
    by (rule disjunctive_add_eq_or [symmetric]) (auto simp: bit_eq_iff bit_simps)
  moreover have "unat (mask k :: u128) = 2 ^ k - 1"
  proof -
    have "unat (mask k :: u128) = mask k"
      using assms by (intro bit_eqI) (auto simp: bit_unsigned_iff bit_simps)
    then show ?thesis by (simp add: mask_eq_exp_minus_1)
  qed
  moreover have "2 ^ k * (unat w div 2 ^ k) + (2 ^ k - 1) < 2 ^ 128"
  proof -
    have "(2::nat) ^ 128 = 2 ^ k * 2 ^ (128 - k)"
      using assms by (simp add: power_add [symmetric])
    moreover have "unat w div 2 ^ k < 2 ^ (128 - k)"
      using unsigned_less [where 'a = nat, of w] assms
      by (simp add: less_mult_imp_div_less power_add [symmetric])
    then have "2 ^ k * (unat w div 2 ^ k + 1) \<le> 2 ^ k * 2 ^ (128 - k)"
      by (intro mult_le_mono2) simp
    moreover have "0 < (2::nat) ^ k" by simp
    ultimately show ?thesis by (simp add: algebra_simps)
  qed
  ultimately show ?thesis
    by (simp add: unat_word_ariths unat_prefix_base)
qed

lemma prefix_range:
  assumes "bits \<le> 128"
  shows "base AND prefix_mask bits \<le> a \<and> a \<le> (base AND prefix_mask bits) OR NOT (prefix_mask bits)
    \<longleftrightarrow> drop_bit (128 - bits) a = drop_bit (128 - bits) base"
proof -
  let ?k = "128 - bits"
  let ?q = "unat base div 2 ^ ?k"
  have "2 ^ ?k * ?q \<le> n \<and> n \<le> 2 ^ ?k * ?q + (2 ^ ?k - 1) \<longleftrightarrow> n div 2 ^ ?k = ?q" for n :: nat
  proof -
    have "0 < (2::nat) ^ ?k" by simp
    then have "n div 2 ^ ?k = ?q \<longleftrightarrow> 2 ^ ?k * ?q \<le> n \<and> n < 2 ^ ?k * ?q + 2 ^ ?k"
      by (metis div_nat_eqI div_mult_self1_is_m dividend_less_times_div mult.commute
          mult_Suc_right times_div_less_eq_dividend add.commute)
    then show ?thesis by (simp add: less_eq_Suc_le [symmetric] Suc_le_eq less_Suc_eq_le [symmetric])
  qed
  then show ?thesis
    by (simp only: prefix_mask_eq [OF assms] bit.double_compl word_le_nat_alt unat_prefix_base
        unat_prefix_end [OF diff_le_self] word_unat_eq_iff unat_drop_bit_eq drop_bit_eq_div [where 'a = nat])
qed

lemma prefix_base_le_end: "base AND prefix_mask bits \<le> (base AND prefix_mask bits) OR NOT (prefix_mask bits)"
  by (metis le_word_or2 or.commute)

end
