(* ===== verification/Std_Str.thy ===== *)
theory Std_Str
  imports Prelude
begin

text \<open>
  What the program uses of Rust's \<open>str\<close>: prefix stripping, splitting, trimming, ASCII
  folding, UTF-8 validation, and the integer \<open>FromStr\<close> and \<open>Display\<close> of the standard
  library. A \<open>str\<close> is the list of its UTF-8 bytes.
\<close>

section \<open>Prefixes, splitting, folding\<close>

text \<open>\<open>str::strip_prefix\<close> with a \<open>char\<close> and with a \<open>str\<close> pattern.\<close>

fun strip_char :: "char \<Rightarrow> string \<Rightarrow> string option" where
  "strip_char c [] = None"
| "strip_char c (x # xs) = (if x = c then Some xs else None)"

fun strip_prefix :: "string \<Rightarrow> string \<Rightarrow> string option" where
  "strip_prefix [] xs = Some xs"
| "strip_prefix (p # ps) [] = None"
| "strip_prefix (p # ps) (x # xs) = (if p = x then strip_prefix ps xs else None)"

lemma strip_char_Some [simp]: "strip_char c s = Some t \<longleftrightarrow> s = c # t"
  by (cases s) auto

lemma strip_char_None: "strip_char c s = None \<longleftrightarrow> (\<forall>t. s \<noteq> c # t)"
  by (cases s) auto

lemma strip_prefix_Some [simp]: "strip_prefix p s = Some t \<longleftrightarrow> s = p @ t"
  by (induction p s rule: strip_prefix.induct) auto

text \<open>\<open>str::split_once\<close> at an ASCII character: the first occurrence.\<close>

fun split_once :: "char \<Rightarrow> string \<Rightarrow> (string \<times> string) option" where
  "split_once c [] = None"
| "split_once c (x # xs) =
     (if x = c then Some ([], xs) else map_option (\<lambda>(a, b). (x # a, b)) (split_once c xs))"

lemma split_once_Some [simp]:
  "split_once c s = Some (a, b) \<longleftrightarrow> s = a @ c # b \<and> c \<notin> set a"
proof (induction s arbitrary: a)
  case Nil
  then show ?case by simp
next
  case (Cons x s)
  show ?case
    by (cases a) (auto simp: Cons.IH)
qed

lemma split_once_None [simp]: "split_once c s = None \<longleftrightarrow> c \<notin> set s"
  by (induction s) auto

lemma split_once_append [simp]: "c \<notin> set a \<Longrightarrow> split_once c (a @ c # b) = Some (a, b)"
  by simp

text \<open>\<open>str::split\<close> on a set of ASCII characters: always at least one piece.\<close>

fun split_any :: "char list \<Rightarrow> string \<Rightarrow> string list" where
  "split_any cs [] = [[]]"
| "split_any cs (x # xs) =
     (if x \<in> set cs then [] # split_any cs xs
      else (case split_any cs xs of [] \<Rightarrow> [[x]] | t # ts \<Rightarrow> (x # t) # ts))"

lemma split_any_not_Nil [simp]: "split_any cs s \<noteq> []"
  by (induction s) (auto split: list.splits)

lemma split_any_single: "set s \<inter> set cs = {} \<Longrightarrow> split_any cs s = [s]"
  by (induction s) auto

text \<open>\<open>to_ascii_lowercase\<close>, on a byte and on a \<open>str\<close>.\<close>

definition lower_byte :: "u8 \<Rightarrow> u8" where
  "lower_byte b = (if 65 \<le> b \<and> b \<le> 90 then b + 32 else b)"

definition to_ascii_lowercase :: "string \<Rightarrow> string" where
  "to_ascii_lowercase s = str_of_bytes (map lower_byte (as_bytes s))"

lemma lower_byte_idem [simp]: "lower_byte (lower_byte b) = lower_byte b"
proof (cases "65 \<le> b \<and> b \<le> 90")
  case True
  then have "unat (b + 32) = unat b + 32"
    by (simp add: unat_word_ariths word_le_nat_alt)
  with True show ?thesis by (simp add: lower_byte_def word_le_nat_alt)
next
  case False
  then show ?thesis by (simp add: lower_byte_def)
qed

lemma as_bytes_lowercase [simp]: "as_bytes (to_ascii_lowercase s) = map lower_byte (as_bytes s)"
  by (simp add: to_ascii_lowercase_def)

lemma length_lowercase [simp]: "length (to_ascii_lowercase s) = length s"
  by (simp add: to_ascii_lowercase_def str_of_bytes_def)

lemma lowercase_idem [simp]: "to_ascii_lowercase (to_ascii_lowercase s) = to_ascii_lowercase s"
  by (simp add: to_ascii_lowercase_def comp_def)

section \<open>Trimming\<close>

text \<open>
  The UTF-8 encodings of the characters of Unicode's \<open>White_Space\<close> property, which
  \<open>str::trim\<close> removes at both ends.
\<close>

definition white_space :: "bytes list" where
  "white_space =
     map (\<lambda>b. [b]) [0x09, 0x0A, 0x0B, 0x0C, 0x0D, 0x20]
     @ [[0xC2, 0x85], [0xC2, 0xA0], [0xE1, 0x9A, 0x80]]
     @ map (\<lambda>b. [0xE2, 0x80, b])
         [0x80, 0x81, 0x82, 0x83, 0x84, 0x85, 0x86, 0x87, 0x88, 0x89, 0x8A, 0xA8, 0xA9, 0xAF]
     @ [[0xE2, 0x81, 0x9F], [0xE3, 0x80, 0x80]]"

definition is_space_head :: "string \<Rightarrow> nat option" where
  "is_space_head s =
     map_option length (find (\<lambda>w. take (length w) (as_bytes s) = w) white_space)"

lemma white_space_nonempty: "w \<in> set white_space \<Longrightarrow> 0 < length w"
  by (auto simp: white_space_def)

lemma is_space_head_bounds:
  assumes "is_space_head s = Some n"
  shows "0 < n \<and> n \<le> length s"
proof -
  from assms obtain w where w: "w \<in> set white_space" "take (length w) (as_bytes s) = w" "n = length w"
    unfolding is_space_head_def find_Some_iff map_option_eq_Some by (metis nth_mem)
  from w(2) have "length w \<le> length s"
    by (metis length_as_bytes length_take min.cobounded1)
  with w white_space_nonempty show ?thesis by blast
qed

function trim_start :: "string \<Rightarrow> string" where
  "trim_start s = (case is_space_head s of None \<Rightarrow> s | Some n \<Rightarrow> trim_start (drop n s))"
  by pat_completeness auto
termination
  by (relation "measure length") (auto dest!: is_space_head_bounds)

declare trim_start.simps [simp del]

definition is_space_tail :: "string \<Rightarrow> nat option" where
  "is_space_tail s =
     map_option length
       (find (\<lambda>w. length w \<le> length s \<and> drop (length s - length w) (as_bytes s) = w) white_space)"

lemma is_space_tail_bounds:
  assumes "is_space_tail s = Some n"
  shows "0 < n \<and> n \<le> length s"
  using assms white_space_nonempty by (auto simp: is_space_tail_def find_Some_iff)

text \<open>The same characters as text, which evaluates without converting to bytes.\<close>

definition white_text :: "string list" where
  "white_text =
     [[CHR 0x09], [CHR 0x0A], [CHR 0x0B], [CHR 0x0C], [CHR 0x0D], [CHR 0x20],
      [CHR 0xC2, CHR 0x85], [CHR 0xC2, CHR 0xA0], [CHR 0xE1, CHR 0x9A, CHR 0x80]]
     @ map (\<lambda>c. [CHR 0xE2, CHR 0x80, c])
         [CHR 0x80, CHR 0x81, CHR 0x82, CHR 0x83, CHR 0x84, CHR 0x85, CHR 0x86, CHR 0x87,
          CHR 0x88, CHR 0x89, CHR 0x8A, CHR 0xA8, CHR 0xA9, CHR 0xAF]
     @ [[CHR 0xE2, CHR 0x81, CHR 0x9F], [CHR 0xE3, CHR 0x80, CHR 0x80]]"

lemma white_space_text: "white_space = map as_bytes white_text"
  by code_simp

lemma find_as_bytes:
  "map_option length (find P (map as_bytes ws)) = map_option length (find (\<lambda>w. P (as_bytes w)) ws)"
  by (induction ws) auto

lemma is_space_head_code [code]:
  "is_space_head s = map_option length (find (\<lambda>w. take (length w) s = w) white_text)"
proof -
  have "take (length w) (as_bytes s) = as_bytes w \<longleftrightarrow> take (length w) s = w" for w
    by (metis as_bytes_def as_bytes_inject take_map)
  then show ?thesis by (simp add: is_space_head_def white_space_text find_as_bytes)
qed

lemma is_space_tail_code [code]:
  "is_space_tail s =
    map_option length (find (\<lambda>w. length w \<le> length s \<and> drop (length s - length w) s = w) white_text)"
proof -
  have "drop n (as_bytes s) = as_bytes w \<longleftrightarrow> drop n s = w" for w n
    by (metis as_bytes_def as_bytes_inject drop_map)
  then show ?thesis by (simp add: is_space_tail_def white_space_text find_as_bytes)
qed

function trim_end :: "string \<Rightarrow> string" where
  "trim_end s = (case is_space_tail s of None \<Rightarrow> s | Some n \<Rightarrow> trim_end (take (length s - n) s))"
  by pat_completeness auto
termination
  by (relation "measure length") (auto dest!: is_space_tail_bounds)

declare trim_end.simps [simp del]

definition trim :: "string \<Rightarrow> string" where
  "trim s = trim_end (trim_start s)"

section \<open>UTF-8\<close>

text \<open>\<open>str::from_utf8\<close>: the well-formed byte sequences of the Unicode standard.\<close>

definition cont :: "u8 \<Rightarrow> bool" where
  "cont b \<longleftrightarrow> 0x80 \<le> b \<and> b \<le> 0xBF"

fun utf8_valid :: "bytes \<Rightarrow> bool" where
  "utf8_valid [] = True"
| "utf8_valid (a # r) =
     (if a \<le> 0x7F then utf8_valid r
      else (case r of [] \<Rightarrow> False | b # r1 \<Rightarrow>
        if 0xC2 \<le> a \<and> a \<le> 0xDF then cont b \<and> utf8_valid r1
        else (case r1 of [] \<Rightarrow> False | c # r2 \<Rightarrow>
          if a = 0xE0 then 0xA0 \<le> b \<and> b \<le> 0xBF \<and> cont c \<and> utf8_valid r2
          else if (0xE1 \<le> a \<and> a \<le> 0xEC) \<or> a = 0xEE \<or> a = 0xEF
            then cont b \<and> cont c \<and> utf8_valid r2
          else if a = 0xED then 0x80 \<le> b \<and> b \<le> 0x9F \<and> cont c \<and> utf8_valid r2
          else (case r2 of [] \<Rightarrow> False | d # r3 \<Rightarrow>
            if a = 0xF0 then 0x90 \<le> b \<and> b \<le> 0xBF \<and> cont c \<and> cont d \<and> utf8_valid r3
            else if 0xF1 \<le> a \<and> a \<le> 0xF3 then cont b \<and> cont c \<and> cont d \<and> utf8_valid r3
            else if a = 0xF4 then 0x80 \<le> b \<and> b \<le> 0x8F \<and> cont c \<and> cont d \<and> utf8_valid r3
            else False))))"

definition from_utf8 :: "bytes \<Rightarrow> string option" where
  "from_utf8 bs = (if utf8_valid bs then Some (str_of_bytes bs) else None)"

lemma utf8_valid_ascii: "\<forall>b \<in> set bs. b \<le> 0x7F \<Longrightarrow> utf8_valid bs"
  by (induction bs) auto

lemma from_utf8_ascii: "\<forall>b \<in> set (as_bytes s). b \<le> 0x7F \<Longrightarrow> from_utf8 (as_bytes s) = Some s"
  by (simp add: from_utf8_def utf8_valid_ascii)

section \<open>Numbers\<close>

text \<open>\<open>char::to_digit\<close>.\<close>

definition to_digit :: "nat \<Rightarrow> char \<Rightarrow> nat option" where
  "to_digit radix c =
     (let n = (of_char c :: nat);
          d = (if 48 \<le> n \<and> n \<le> 57 then n - 48
               else if 97 \<le> n \<and> n \<le> 122 then n - 87
               else if 65 \<le> n \<and> n \<le> 90 then n - 55
               else 36)
      in if d < radix then Some d else None)"

text \<open>
  \<open>FromStr\<close> of an unsigned type with largest value \<open>m\<close>: an optional \<open>+\<close>, at least one
  digit, nothing else, and no overflow on the way.
\<close>

fun parse_digits :: "nat \<Rightarrow> nat \<Rightarrow> string \<Rightarrow> nat option" where
  "parse_digits m acc [] = Some acc"
| "parse_digits m acc (c # cs) =
     (case to_digit 10 c of
        None \<Rightarrow> None
      | Some d \<Rightarrow> if acc * 10 + d \<le> m then parse_digits m (acc * 10 + d) cs else None)"

definition parse_uint :: "nat \<Rightarrow> string \<Rightarrow> nat option" where
  "parse_uint m s =
     (case s of
        [] \<Rightarrow> None
      | c # cs \<Rightarrow>
          if c = CHR ''+'' then (if cs = [] then None else parse_digits m 0 cs)
          else parse_digits m 0 s)"

text \<open>Printing in a radix up to 16, no leading zero: \<open>{}\<close> and \<open>{:x}\<close>.\<close>

definition digit_char :: "nat \<Rightarrow> char" where
  "digit_char d = char_of (if d < 10 then 48 + d else 87 + d)"

fun show_nat :: "nat \<Rightarrow> nat \<Rightarrow> string" where
  "show_nat radix n =
     (if radix < 2 \<or> n < radix then [digit_char n]
      else show_nat radix (n div radix) @ [digit_char (n mod radix)])"

declare show_nat.simps [simp del]

lemma of_digit_char:
  assumes "d < 16"
  shows "(of_char (digit_char d) :: nat) = (if d < 10 then 48 + d else 87 + d)"
proof -
  have "(if d < 10 then 48 + d else 87 + d) < 256" using assms by auto
  then show ?thesis unfolding digit_char_def by (simp only: of_char_of mod_less)
qed

lemma to_digit_char [simp]: "d < radix \<Longrightarrow> radix \<le> 16 \<Longrightarrow> to_digit radix (digit_char d) = Some d"
  by (auto simp: to_digit_def of_digit_char Let_def)

lemma show_nat_not_Nil [simp]: "show_nat r n \<noteq> []"
  by (subst show_nat.simps) simp

lemma length_show_nat_le:
  assumes "2 \<le> r" and "n < r ^ k" and "0 < k"
  shows "length (show_nat r n) \<le> k"
  using assms(2,3)
proof (induction k arbitrary: n)
  case (Suc k)
  show ?case
  proof (cases "n < r")
    case True
    then show ?thesis by (simp add: show_nat.simps [of r n])
  next
    case False
    with Suc.prems have "n div r < r ^ k" and "0 < k"
      using assms(1) by (auto simp: less_mult_imp_div_less mult.commute intro!: Nat.gr0I)
    with Suc.IH have "length (show_nat r (n div r)) \<le> k" by simp
    with False assms(1) show ?thesis by (simp add: show_nat.simps [of r n])
  qed
qed simp

text \<open>Only 0 prints with a leading zero.\<close>

lemma show_nat_hd: "2 \<le> r \<Longrightarrow> r \<le> 16 \<Longrightarrow> 0 < n \<Longrightarrow> to_digit r (hd (show_nat r n)) \<noteq> Some 0"
proof (induction r n rule: show_nat.induct)
  case (1 r n)
  show ?case
  proof (cases "n < r")
    case True
    with 1 show ?thesis by (simp add: show_nat.simps [of r n])
  next
    case False
    with 1 have "to_digit r (hd (show_nat r (n div r))) \<noteq> Some 0"
      by (auto simp: div_greater_zero_iff)
    with False 1 show ?thesis by (simp add: show_nat.simps [of r n])
  qed
qed

lemma show_nat_digits:
  "2 \<le> r \<Longrightarrow> r \<le> 16 \<Longrightarrow> c \<in> set (show_nat r n) \<Longrightarrow> \<exists>d < r. c = digit_char d"
proof (induction r n rule: show_nat.induct)
  case (1 r n)
  have r: "n mod r < r" using 1 by simp
  show ?case
  proof (cases "n < r")
    case True
    with "1.prems" show ?thesis by (auto simp: show_nat.simps [of r n])
  next
    case False
    with "1.prems" have "c \<in> set (show_nat r (n div r)) \<or> c = digit_char (n mod r)"
      by (auto simp: show_nat.simps [of r n])
    with False 1 r show ?thesis by force
  qed
qed

text \<open>Parsing a printed number gives it back.\<close>

lemma parse_digits_show:
  assumes "acc * 10 ^ length (show_nat 10 n) + n \<le> m"
  shows "parse_digits m acc (show_nat 10 n @ cs) =
    parse_digits m (acc * 10 ^ length (show_nat 10 n) + n) cs"
  using assms
proof (induction "10 :: nat" n arbitrary: cs rule: show_nat.induct)
  case (1 n)
  show ?case
  proof (cases "n < 10")
    case True
    with 1 show ?thesis by (simp add: show_nat.simps [of 10 n])
  next
    case False
    let ?l = "length (show_nat 10 (n div 10))"
    have n: "n = n div 10 * 10 + n mod 10" by simp
    have mod10: "n mod 10 < 10" "(10 :: nat) \<le> 16" by simp_all
    from False have len: "length (show_nat 10 n) = Suc ?l" by (simp add: show_nat.simps [of 10 n])
    have total: "(acc * 10 ^ ?l + n div 10) * 10 + n mod 10 = acc * 10 ^ Suc ?l + n"
      using n by (simp add: algebra_simps)
    have "acc * 10 ^ ?l + n div 10 \<le> (acc * 10 ^ ?l + n div 10) * 10 + n mod 10" by simp
    also have "\<dots> \<le> m" using "1.prems" by (simp only: total len)
    finally have "acc * 10 ^ ?l + n div 10 \<le> m" .
    then have "parse_digits m acc (show_nat 10 (n div 10) @ digit_char (n mod 10) # cs)
      = parse_digits m (acc * 10 ^ ?l + n div 10) (digit_char (n mod 10) # cs)"
      using False by (intro 1) auto
    also have "\<dots> = parse_digits m (acc * 10 ^ Suc ?l + n) cs"
      using "1.prems" by (simp only: parse_digits.simps to_digit_char [OF mod10] option.case total len if_True)
    finally show ?thesis using False by (simp add: show_nat.simps [of 10 n] len del: power_Suc)
  qed
qed

lemma digit_char_neq:
  assumes "d < 16" and "of_char c < (48::nat) \<or> (57 < (of_char c :: nat) \<and> of_char c < (97::nat)) \<or> 102 < (of_char c :: nat)"
  shows "digit_char d \<noteq> c"
  using assms of_digit_char [OF assms(1)] by (auto split: if_splits)

lemma not_in_show_nat:
  assumes "2 \<le> r" and "r \<le> 16"
    and "of_char c < (48::nat) \<or> (57 < (of_char c :: nat) \<and> of_char c < (97::nat)) \<or> 102 < (of_char c :: nat)"
  shows "c \<notin> set (show_nat r n)"
proof
  assume "c \<in> set (show_nat r n)"
  with show_nat_digits [OF assms(1,2)] obtain d where "d < r" "c = digit_char d" by blast
  then have "d < 16" "c = digit_char d" using assms(2) by simp_all
  with digit_char_neq [OF _ assms(3)] show False by blast
qed

lemma parse_uint_show: "n \<le> m \<Longrightarrow> parse_uint m (show_nat 10 n) = Some n"
proof -
  assume "n \<le> m"
  then have "parse_digits m 0 (show_nat 10 n) = Some n"
    using parse_digits_show [of 0 n m "[]"] by simp
  moreover obtain c cs where s: "show_nat 10 n = c # cs" by (cases "show_nat 10 n") auto
  moreover have "c \<noteq> CHR ''+''"
    using not_in_show_nat [of 10 "CHR ''+''" n] s by auto
  ultimately show ?thesis by (simp add: parse_uint_def)
qed

lemma parse_digits_le: "acc \<le> m \<Longrightarrow> parse_digits m acc s = Some n \<Longrightarrow> n \<le> m"
  by (induction m acc s rule: parse_digits.induct) (auto split: option.splits if_splits)

lemma parse_uint_le: "parse_uint m s = Some n \<Longrightarrow> n \<le> m"
  using parse_digits_le [of 0 m _ n]
  by (auto simp: parse_uint_def simp del: parse_digits.simps split: list.splits if_splits)

end
