(* ===== verification/Std_Net.thy ===== *)
theory Std_Net
  imports Std_Str
begin

text \<open>
  The text form of addresses in Rust's \<open>std::net\<close>: the recursive-descent parser behind
  \<open>Ipv4Addr::from_str\<close> and \<open>Ipv6Addr::from_str\<close> (RFC 4291 text, an embedded IPv4 tail
  included) and the RFC 5952 printer behind \<open>Display\<close>. A reader takes the rest of the input
  and returns the value with what is left; \<open>None\<close> is a failed reader, whose input is
  restored. An address is its octets, as in \<open>Ipv4Addr::octets\<close> and \<open>Ipv6Addr::octets\<close>.
  The main result is that parsing a printed address gives the address back.
\<close>

section \<open>Readers\<close>

definition read_given_char :: "char \<Rightarrow> string \<Rightarrow> string option" where
  "read_given_char c s = strip_char c s"

definition read_separator :: "char \<Rightarrow> nat \<Rightarrow> (string \<Rightarrow> 'a option) \<Rightarrow> string \<Rightarrow> 'a option" where
  "read_separator c i inner s =
     (if 0 < i then Option.bind (read_given_char c s) inner else inner s)"

text \<open>The digits of a number; more than \<open>mx\<close> of them fail.\<close>

fun read_digits :: "nat \<Rightarrow> nat \<Rightarrow> nat \<Rightarrow> nat \<Rightarrow> string \<Rightarrow> (nat \<times> nat \<times> string) option" where
  "read_digits radix mx acc cnt [] = Some (acc, cnt, [])"
| "read_digits radix mx acc cnt (c # cs) =
     (case to_digit radix c of
        None \<Rightarrow> Some (acc, cnt, c # cs)
      | Some d \<Rightarrow>
          if mx < Suc cnt then None
          else read_digits radix mx (acc * radix + d) (Suc cnt) cs)"

text \<open>\<open>bound\<close> is \<open>2 ^ w\<close> for the \<open>try_into\<close> a \<open>w\<close>-bit type.\<close>

definition read_number :: "nat \<Rightarrow> nat \<Rightarrow> bool \<Rightarrow> nat \<Rightarrow> string \<Rightarrow> (nat \<times> string) option" where
  "read_number radix mx allow_zero_prefix bound s =
     (case read_digits radix mx 0 0 s of
        None \<Rightarrow> None
      | Some (n, cnt, r) \<Rightarrow>
          if cnt = 0 then None
          else if \<not> allow_zero_prefix \<and> hd s = CHR ''0'' \<and> 1 < cnt then None
          else if n < bound then Some (n, r) else None)"

fun read_v4_groups :: "nat \<Rightarrow> nat \<Rightarrow> string \<Rightarrow> (bytes \<times> string) option" where
  "read_v4_groups 0 i s = Some ([], s)"
| "read_v4_groups (Suc k) i s =
     (case read_separator CHR ''.'' i (read_number 10 3 False 256) s of
        None \<Rightarrow> None
      | Some (n, r) \<Rightarrow>
          (case read_v4_groups k (Suc i) r of
             None \<Rightarrow> None
           | Some (os, r') \<Rightarrow> Some (of_nat n # os, r')))"

definition read_ipv4_addr :: "string \<Rightarrow> (bytes \<times> string) option" where
  "read_ipv4_addr = read_v4_groups 4 0"

text \<open>
  \<open>read_groups\<close>: \<open>k\<close> groups are still allowed, \<open>i\<close> are read. The flag reports an embedded
  IPv4 address, which needs room for two groups.
\<close>

definition v4_as_groups :: "bytes \<Rightarrow> u16 list" where
  "v4_as_groups os = [from_be_bytes [os ! 0, os ! 1], from_be_bytes [os ! 2, os ! 3]]"

fun read_groups :: "nat \<Rightarrow> nat \<Rightarrow> string \<Rightarrow> u16 list \<times> bool \<times> string" where
  "read_groups 0 i s = ([], False, s)"
| "read_groups (Suc k) i s =
     (case (if 0 < k then read_separator CHR '':'' i read_ipv4_addr s else None) of
        Some (os, r) \<Rightarrow> (v4_as_groups os, True, r)
      | None \<Rightarrow>
          (case read_separator CHR '':'' i (read_number 16 4 True 65536) s of
             None \<Rightarrow> ([], False, s)
           | Some (n, r) \<Rightarrow>
               (case read_groups k (Suc i) r of
                  (gs, v4, r') \<Rightarrow> (of_nat n # gs, v4, r'))))"

definition read_ipv6_addr :: "string \<Rightarrow> (u16 list \<times> string) option" where
  "read_ipv6_addr s =
     (case read_groups 8 0 s of
        (head, head_v4, r) \<Rightarrow>
          if length head = 8 then Some (head, r)
          else if head_v4 then None
          else do {
            r1 \<leftarrow> read_given_char CHR '':'' r;
            r2 \<leftarrow> read_given_char CHR '':'' r1;
            (case read_groups (8 - (length head + 1)) 0 r2 of
               (tail, _, r3) \<Rightarrow>
                 Some (head @ replicate (8 - length head - length tail) 0 @ tail, r3))
          })"

section \<open>Parsing\<close>

definition octets_of_segments :: "u16 list \<Rightarrow> bytes" where
  "octets_of_segments gs = concat (map (to_be_bytes 2) gs)"

definition parse_with :: "(string \<Rightarrow> ('a \<times> string) option) \<Rightarrow> string \<Rightarrow> 'a option" where
  "parse_with p s = (case p s of Some (a, []) \<Rightarrow> Some a | _ \<Rightarrow> None)"

definition parse_ipv4 :: "string \<Rightarrow> bytes option" where
  "parse_ipv4 s = (if 15 < length s then None else parse_with read_ipv4_addr s)"

definition parse_ipv6 :: "string \<Rightarrow> bytes option" where
  "parse_ipv6 s = map_option octets_of_segments (parse_with read_ipv6_addr s)"

section \<open>Printing\<close>

text \<open>Each element of the result is one \<open>write_str\<close> to the formatter.\<close>

definition write_ipv4 :: "bytes \<Rightarrow> string list" where
  "write_ipv4 os =
     [show_nat 10 (unat (os ! 0)), ''.'', show_nat 10 (unat (os ! 1)), ''.'',
      show_nat 10 (unat (os ! 2)), ''.'', show_nat 10 (unat (os ! 3))]"

fun segments :: "bytes \<Rightarrow> u16 list" where
  "segments (a # b # os) = from_be_bytes [a, b] # segments os"
| "segments _ = []"

text \<open>The longest run of zero segments, the first of equals: \<open>(start, len)\<close>.\<close>

fun zero_span :: "nat \<Rightarrow> u16 list \<Rightarrow> nat \<times> nat \<Rightarrow> nat \<times> nat \<Rightarrow> nat \<times> nat" where
  "zero_span i [] longest current = longest"
| "zero_span i (g # gs) longest current =
     (if g = 0 then
        (let current' = ((if snd current = 0 then i else fst current), Suc (snd current))
         in zero_span (Suc i) gs (if snd longest < snd current' then current' else longest) current')
      else zero_span (Suc i) gs longest (0, 0))"

definition write_hex :: "u16 \<Rightarrow> string" where
  "write_hex g = show_nat 16 (unat g)"

fun write_subslice :: "u16 list \<Rightarrow> string list" where
  "write_subslice [] = []"
| "write_subslice (g # gs) = write_hex g # concat (map (\<lambda>h. ['':'', write_hex h]) gs)"

definition write_ipv6 :: "bytes \<Rightarrow> string list" where
  "write_ipv6 os =
     (if take 12 os = replicate 10 0 @ [0xFF, 0xFF] then ''::ffff:'' # write_ipv4 (drop 12 os)
      else
        (let gs = segments os; (start, len) = zero_span 0 gs (0, 0) (0, 0) in
         if 1 < len
         then write_subslice (take start gs) @ [''::''] @ write_subslice (drop (start + len) gs)
         else write_subslice gs))"

definition show_ipv4 :: "bytes \<Rightarrow> string" where
  "show_ipv4 os = concat (write_ipv4 os)"

definition show_ipv6 :: "bytes \<Rightarrow> string" where
  "show_ipv6 os = concat (write_ipv6 os)"

section \<open>Segments and octets\<close>

lemma length_segments: "length os = 2 * n \<Longrightarrow> length (segments os) = n"
proof (induction n arbitrary: os)
  case (Suc n)
  then obtain a b r where "os = a # b # r"
    by (cases os; cases "tl os") auto
  with Suc show ?case by simp
qed simp

lemma two_bytes: "to_be_bytes 2 (from_be_bytes [a, b] :: u16) = [a, b]"
  by (rule to_from_be_bytes) simp_all

lemma octets_of_segments_Cons [simp]:
  "octets_of_segments (g # gs) = to_be_bytes 2 g @ octets_of_segments gs"
  by (simp add: octets_of_segments_def)

lemma octets_of_segments_append [simp]:
  "octets_of_segments (gs @ hs) = octets_of_segments gs @ octets_of_segments hs"
  by (simp add: octets_of_segments_def)

lemma octets_segments: "length os = 2 * n \<Longrightarrow> octets_of_segments (segments os) = os"
proof (induction n arbitrary: os)
  case 0
  then show ?case by (simp add: octets_of_segments_def)
next
  case (Suc n)
  then obtain a b r where "os = a # b # r"
    by (cases os; cases "tl os") auto
  with Suc show ?case by (simp add: two_bytes)
qed

lemma segments_octets [simp]: "segments (octets_of_segments gs) = gs"
proof (induction gs)
  case Nil
  then show ?case by (simp add: octets_of_segments_def)
next
  case (Cons g gs)
  obtain a b where ab: "to_be_bytes 2 g = [a, b]"
    by (simp add: numeral_2_eq_2)
  moreover have "from_be_bytes (to_be_bytes 2 g) = g" by (rule from_to_be_bytes) simp
  ultimately have "from_be_bytes [a, b] = g" by (simp only:)
  with ab Cons show ?case by (simp only: octets_of_segments_Cons append.simps segments.simps)
qed

lemma length_octets_of_segments [simp]: "length (octets_of_segments gs) = 2 * length gs"
  by (induction gs) (simp_all add: octets_of_segments_def)

section \<open>Reading what was printed\<close>

definition ends_number :: "nat \<Rightarrow> string \<Rightarrow> bool" where
  "ends_number radix r \<longleftrightarrow> r = [] \<or> to_digit radix (hd r) = None"

lemma read_digits_end: "ends_number radix r \<Longrightarrow> read_digits radix mx acc cnt r = Some (acc, cnt, r)"
  by (cases r) (auto simp: ends_number_def)

lemma read_digits_show:
  assumes "2 \<le> radix" and "radix \<le> 16" and "cnt + length (show_nat radix n) \<le> mx"
  shows "read_digits radix mx acc cnt (show_nat radix n @ r) =
    read_digits radix mx (acc * radix ^ length (show_nat radix n) + n) (cnt + length (show_nat radix n)) r"
  using assms
proof (induction radix n arbitrary: r rule: show_nat.induct)
  case (1 radix n)
  show ?case
  proof (cases "n < radix")
    case True
    with 1 show ?thesis by (simp add: show_nat.simps [of radix n])
  next
    case False
    let ?l = "length (show_nat radix (n div radix))"
    from False "1.prems" have len: "length (show_nat radix n) = Suc ?l"
      by (simp add: show_nat.simps [of radix n])
    have "n = n div radix * radix + n mod radix" by simp
    then have total: "(acc * radix ^ ?l + n div radix) * radix + n mod radix = acc * radix ^ Suc ?l + n"
      by (simp add: algebra_simps)
    have d: "to_digit radix (digit_char (n mod radix)) = Some (n mod radix)"
      using "1.prems" by simp
    have "read_digits radix mx acc cnt (show_nat radix (n div radix) @ digit_char (n mod radix) # r)
      = read_digits radix mx (acc * radix ^ ?l + n div radix) (cnt + ?l) (digit_char (n mod radix) # r)"
      using False "1.prems" len by (intro 1) auto
    also have "\<dots> = read_digits radix mx (acc * radix ^ Suc ?l + n) (Suc (cnt + ?l)) r"
      using "1.prems" by (simp only: read_digits.simps d option.case total len) simp
    finally show ?thesis
      using False "1.prems" by (simp add: show_nat.simps [of radix n] len del: power_Suc)
  qed
qed

lemma show_nat_hd_zero:
  assumes "2 \<le> r" and "r \<le> 16" and "hd (show_nat r n) = CHR ''0''"
  shows "length (show_nat r n) = 1"
proof (cases "n = 0")
  case True
  with assms(1) show ?thesis by (simp add: show_nat.simps [of r 0])
next
  case False
  with assms show_nat_hd [of r n] have "to_digit r CHR ''0'' \<noteq> Some 0" by simp
  with assms(1) show ?thesis by (simp add: to_digit_def)
qed

lemma read_number_show:
  assumes "2 \<le> radix" and "radix \<le> 16" and "length (show_nat radix n) \<le> mx"
    and "n < bound" and "ends_number radix r"
  shows "read_number radix mx z bound (show_nat radix n @ r) = Some (n, r)"
proof -
  have "read_digits radix mx 0 0 (show_nat radix n @ r) = Some (n, length (show_nat radix n), r)"
    using read_digits_show [of radix 0 n mx 0 r] read_digits_end [OF assms(5)] assms by simp
  moreover have "hd (show_nat radix n @ r) = hd (show_nat radix n)" by simp
  ultimately show ?thesis
    using show_nat_hd_zero [of radix n] assms by (auto simp: read_number_def)
qed

lemma ends_number_sep [simp]:
  "ends_number radix []"
  "radix \<le> 16 \<Longrightarrow> ends_number radix (CHR '':'' # s)"
  "radix \<le> 16 \<Longrightarrow> ends_number radix (CHR ''.'' # s)"
  by (auto simp: ends_number_def to_digit_def)

lemma read_number_octet:
  "ends_number 10 r \<Longrightarrow> read_number 10 3 False 256 (show_nat 10 (unat (b :: u8)) @ r) = Some (unat b, r)"
  by (rule read_number_show) (auto intro!: length_show_nat_le order.strict_trans2 [OF unat_u8_less])

lemma unat_u16_less: "unat (g :: u16) < 65536"
  using unsigned_less [where 'a = nat, of g] by simp

lemma read_number_hex:
  "ends_number 16 r \<Longrightarrow> read_number 16 4 True 65536 (write_hex g @ r) = Some (unat g, r)"
  unfolding write_hex_def
  by (rule read_number_show) (auto intro!: length_show_nat_le simp: unat_u16_less)

lemma read_number_no_digit:
  "ends_number radix s \<Longrightarrow> read_number radix mx z bound s = None"
  using read_digits_end [of radix s mx 0 0] by (simp add: read_number_def)

subsection \<open>Dotted quads\<close>

lemma length_4_cases: "length os = 4 \<Longrightarrow> os = [os ! 0, os ! 1, os ! 2, os ! 3]"
  by (auto simp: numeral_eq_Suc length_Suc_conv)

lemma read_ipv4_show:
  assumes "length os = 4" and "ends_number 10 r"
  shows "read_ipv4_addr (show_ipv4 os @ r) = Some (os, r)"
proof -
  have os: "[os ! 0, os ! Suc 0, os ! 2, os ! 3] = os"
    using length_4_cases [OF assms(1)] by simp
  have four: "read_v4_groups 4 = read_v4_groups (Suc (Suc (Suc (Suc 0))))"
    by (simp add: numeral_eq_Suc)
  show ?thesis
    using assms(2)
    by (simp add: read_ipv4_addr_def four show_ipv4_def write_ipv4_def
        read_separator_def read_given_char_def read_number_octet os)
qed

lemma parse_show_ipv4:
  assumes "length os = 4"
  shows "parse_ipv4 (show_ipv4 os) = Some os"
proof -
  have "length (show_nat 10 (unat (b :: u8))) \<le> 3" for b
    by (rule length_show_nat_le) (auto intro!: order.strict_trans2 [OF unat_u8_less])
  from this [of "os ! 0"] this [of "os ! 1"] this [of "os ! 2"] this [of "os ! 3"]
  have "length (show_ipv4 os) \<le> 15" by (simp add: show_ipv4_def write_ipv4_def)
  with read_ipv4_show [OF assms, of "[]"] show ?thesis
    by (simp add: parse_ipv4_def parse_with_def)
qed

text \<open>Without a dot there is no dotted quad to read.\<close>

lemma read_digits_suffix:
  "read_digits radix mx acc cnt s = Some (n, c, r) \<Longrightarrow> set r \<subseteq> set s"
  by (induction radix mx acc cnt s rule: read_digits.induct) (auto split: option.splits if_splits)

lemma read_number_suffix: "read_number radix mx z bound s = Some (n, r) \<Longrightarrow> set r \<subseteq> set s"
  by (auto simp: read_number_def split: option.splits if_splits dest!: read_digits_suffix)

lemma read_ipv4_no_dot: "CHR ''.'' \<notin> set s \<Longrightarrow> read_ipv4_addr s = None"
proof -
  assume no_dot: "CHR ''.'' \<notin> set s"
  have "strip_char CHR ''.'' r = None" if "read_number 10 3 False 256 s = Some (n, r)" for n r
    using read_number_suffix [OF that] no_dot by (cases r) auto
  then have "read_v4_groups (Suc (Suc k)) 0 s = None" for k
    by (auto simp: read_separator_def read_given_char_def split: option.splits)
  then show ?thesis by (simp add: read_ipv4_addr_def numeral_eq_Suc)
qed

lemma read_sep_ipv4_no_dot: "CHR ''.'' \<notin> set s \<Longrightarrow> read_separator c i read_ipv4_addr s = None"
  by (cases s) (auto simp: read_separator_def read_given_char_def read_ipv4_no_dot)

subsection \<open>Colon-separated groups\<close>

text \<open>The groups \<open>gs\<close> as printed when \<open>i\<close> groups precede them.\<close>

definition groups_text :: "nat \<Rightarrow> u16 list \<Rightarrow> string" where
  "groups_text i gs =
     (if i = 0 then concat (write_subslice gs) else concat (map (\<lambda>h. CHR '':'' # write_hex h) gs))"

lemma concat_write_subslice: "concat (write_subslice gs) = groups_text 0 gs"
  by (simp add: groups_text_def)

lemma groups_text_Cons:
  "groups_text i (g # gs) = (if i = 0 then [] else '':'') @ write_hex g @ groups_text (Suc i) gs"
proof -
  have "concat (concat (map (\<lambda>h. ['':'', write_hex h]) gs)) = concat (map (\<lambda>h. CHR '':'' # write_hex h) gs)"
    by (induction gs) auto
  then show ?thesis by (auto simp: groups_text_def)
qed

lemma groups_text_Nil [simp]: "groups_text i [] = []"
  by (simp add: groups_text_def)

lemma dot_not_hex: "CHR ''.'' \<notin> set (write_hex g)"
  by (simp add: write_hex_def not_in_show_nat)

lemma dot_not_groups: "CHR ''.'' \<notin> set (groups_text i gs)"
  by (induction gs arbitrary: i) (auto simp: groups_text_Cons dot_not_hex)

definition stops_groups :: "string \<Rightarrow> bool" where
  "stops_groups r \<longleftrightarrow> r = [] \<or> (\<exists>t. r = CHR '':'' # CHR '':'' # t)"

lemma ends_groups_text: "stops_groups r \<Longrightarrow> 0 < i \<Longrightarrow> ends_number 16 (groups_text i gs @ r)"
  by (cases gs) (auto simp: stops_groups_def groups_text_Cons)

lemma stops_read:
  "stops_groups r \<Longrightarrow> read_separator CHR '':'' i (read_number 16 4 True 65536) r = None"
  by (auto simp: stops_groups_def read_separator_def read_given_char_def read_number_no_digit
      bind_eq_None_conv)

lemma read_groups_show:
  assumes "length gs \<le> k" and "stops_groups r" and "CHR ''.'' \<notin> set r"
  shows "read_groups k i (groups_text i gs @ r) = (gs, False, r)"
  using assms(1)
proof (induction gs arbitrary: k i)
  case Nil
  show ?case
    by (cases k) (simp_all add: read_sep_ipv4_no_dot [OF assms(3)] stops_read [OF assms(2)])
next
  case (Cons g gs)
  then obtain k' where k: "k = Suc k'" "length gs \<le> k'" by (cases k) auto
  let ?s = "groups_text i (g # gs) @ r"
  have no_v4: "read_separator CHR '':'' i read_ipv4_addr ?s = None"
    by (rule read_sep_ipv4_no_dot) (simp add: dot_not_groups assms(3))
  have "read_number 16 4 True 65536 (write_hex g @ groups_text (Suc i) gs @ r)
    = Some (unat g, groups_text (Suc i) gs @ r)"
    by (rule read_number_hex) (simp add: ends_groups_text assms(2))
  then have "read_separator CHR '':'' i (read_number 16 4 True 65536) ?s
    = Some (unat g, groups_text (Suc i) gs @ r)"
    by (cases "i = 0") (simp_all add: read_separator_def read_given_char_def groups_text_Cons)
  then show ?case
    using Cons.IH [OF k(2), of "Suc i"] no_v4 k(2) by (auto simp: k(1))
qed

subsection \<open>The zero run\<close>

definition is_span :: "u16 list \<Rightarrow> nat \<times> nat \<Rightarrow> bool" where
  "is_span gs p \<longleftrightarrow> fst p + snd p \<le> length gs \<and> (\<forall>j < snd p. gs ! (fst p + j) = 0)"

lemma zero_span_is_span:
  assumes "gs = pre @ rest" and "is_span gs longest"
    and "snd current = 0 \<or> (is_span gs current \<and> fst current + snd current = length pre)"
  shows "is_span gs (zero_span (length pre) rest longest current)"
  using assms
proof (induction rest arbitrary: pre longest current)
  case (Cons g rest)
  have pre: "gs = (pre @ [g]) @ rest" using Cons.prems(1) by simp
  show ?case
  proof (cases "g = 0")
    case True
    define cur where "cur = ((if snd current = 0 then length pre else fst current), Suc (snd current))"
    have g: "gs ! length pre = 0" "length pre < length gs" using Cons.prems(1) True by simp_all
    have "is_span gs cur \<and> fst cur + snd cur = length (pre @ [g])"
      using Cons.prems(3) g by (auto simp: is_span_def cur_def less_Suc_eq)
    moreover from this have "is_span gs (if snd longest < snd cur then cur else longest)"
      using Cons.prems(2) by simp
    ultimately have "is_span gs (zero_span (length (pre @ [g])) rest
      (if snd longest < snd cur then cur else longest) cur)"
      by (intro Cons.IH [OF pre]) auto
    with True show ?thesis by (simp only: zero_span.simps Let_def if_True cur_def length_append_singleton simp_thms)
  next
    case False
    then show ?thesis using Cons.IH [OF pre Cons.prems(2), of "(0, 0)"] by simp
  qed
qed simp

lemma span_split:
  assumes "is_span gs (start, len)"
  shows "gs = take start gs @ replicate len 0 @ drop (start + len) gs"
proof -
  have "take len (drop start gs) = replicate len 0"
    using assms by (intro nth_equalityI) (auto simp: is_span_def)
  then show ?thesis
    by (metis append_take_drop_id drop_drop add.commute)
qed

subsection \<open>Round trip\<close>

lemma mapped_octets:
  assumes "length os = 16" and "take 12 os = replicate 10 0 @ [0xFF, 0xFF]"
  shows "octets_of_segments (replicate 5 0 @ 0xFFFF # v4_as_groups (drop 12 os)) = os"
proof -
  have "octets_of_segments (v4_as_groups (drop 12 os)) = drop 12 os"
    using length_4_cases [of "drop 12 os"] assms(1)
    by (simp add: v4_as_groups_def two_bytes octets_of_segments_def)
  moreover have "octets_of_segments (replicate 5 0 @ [0xFFFF]) = replicate 10 0 @ [0xFF, 0xFF]"
    by code_simp
  ultimately show ?thesis
    using assms(2) append_take_drop_id [of 12 os]
    by (metis append_Cons append_Nil append_assoc octets_of_segments_append)
qed

lemma read_groups_Suc:
  "read_groups 8 i s = read_groups (Suc 7) i s"
  "read_groups 7 i s = read_groups (Suc (Suc 5)) i s"
  by (simp_all only: numeral_eq_Suc pred_numeral_simps BitM.simps)

lemma read_ipv4_no_digit: "ends_number 10 s \<Longrightarrow> read_ipv4_addr s = None"
proof -
  assume "ends_number 10 s"
  then have "read_v4_groups (Suc k) 0 s = None" for k
    by (simp add: read_separator_def read_number_no_digit)
  then show ?thesis by (simp only: read_ipv4_addr_def numeral_eq_Suc)
qed

lemma read_ffff:
  "read_number 16 4 True 65536 (''ffff'' @ CHR '':'' # t) = Some (65535, CHR '':'' # t)"
proof -
  have "write_hex 0xFFFF = ''ffff''"
    by (simp add: write_hex_def show_nat.simps digit_char_def char_of_def bit_0)
  then show ?thesis
    using read_number_hex [where r = "CHR '':'' # t" and g = "0xFFFF"] by simp
qed

lemma read_ipv6_mapped:
  assumes "length os = 4"
  shows "read_ipv6_addr (''::ffff:'' @ show_ipv4 os) = Some (replicate 5 0 @ 0xFFFF # v4_as_groups os, [])"
proof -
  have "read_groups (Suc k) 0 (CHR '':'' # t) = ([], False, CHR '':'' # t)" for k t
    by (simp add: read_separator_def read_number_no_digit read_ipv4_no_digit)
  then have front: "read_groups 8 0 (CHR '':'' # t) = ([], False, CHR '':'' # t)" for t
    by (simp only: read_groups_Suc)
  have no_v4: "read_ipv4_addr (CHR ''f'' # t) = None" for t
    by (rule read_ipv4_no_digit) (simp add: ends_number_def to_digit_def)
  let ?t = "show_ipv4 os"
  have hex: "read_separator CHR '':'' 0 (read_number 16 4 True 65536) (''ffff'' @ CHR '':'' # ?t)
    = Some (65535, CHR '':'' # ?t)"
    by (simp only: read_separator_def less_irrefl if_False read_ffff)
  have v4_no: "read_separator CHR '':'' 0 read_ipv4_addr (''ffff'' @ CHR '':'' # ?t) = None"
    by (simp add: read_separator_def no_v4)
  have v4: "read_separator CHR '':'' (Suc 0) read_ipv4_addr (CHR '':'' # ?t) = Some (os, [])"
    using read_ipv4_show [OF assms, of "[]"] by (simp add: read_separator_def read_given_char_def)
  have "read_groups (Suc (Suc 5)) 0 (''ffff'' @ CHR '':'' # ?t) = (0xFFFF # v4_as_groups os, True, [])"
    by (simp only: read_groups.simps zero_less_Suc if_True v4_no hex option.case v4 prod.case) simp
  then have "read_groups 7 0 (''ffff'' @ CHR '':'' # ?t) = (0xFFFF # v4_as_groups os, True, [])"
    by (simp only: read_groups_Suc)
  then show ?thesis
    by (simp add: read_ipv6_addr_def front read_given_char_def v4_as_groups_def)
qed

lemma read_ipv6_groups:
  assumes "length gs = 8"
  shows "read_ipv6_addr (groups_text 0 gs) = Some (gs, [])"
  using read_groups_show [of gs 8 "[]" 0] assms
  by (simp add: read_ipv6_addr_def stops_groups_def)

lemma read_ipv6_compressed:
  assumes "length pre + length post \<le> 6"
  shows "read_ipv6_addr (groups_text 0 pre @ ''::'' @ groups_text 0 post)
    = Some (pre @ replicate (8 - length pre - length post) 0 @ post, [])"
proof -
  have "read_groups 8 0 (groups_text 0 pre @ ''::'' @ groups_text 0 post)
    = (pre, False, ''::'' @ groups_text 0 post)"
    using assms by (intro read_groups_show) (auto simp: stops_groups_def dot_not_groups)
  moreover have "read_groups (8 - (length pre + 1)) 0 (groups_text 0 post) = (post, False, [])"
    using assms read_groups_show [of post "8 - (length pre + 1)" "[]" 0] by (simp add: stops_groups_def)
  ultimately show ?thesis using assms by (simp add: read_ipv6_addr_def read_given_char_def)
qed

lemma show_ipv6_eq:
  "show_ipv6 os =
    (if take 12 os = replicate 10 0 @ [0xFF, 0xFF] then ''::ffff:'' @ show_ipv4 (drop 12 os)
     else (case zero_span 0 (segments os) (0, 0) (0, 0) of (start, len) \<Rightarrow>
       if 1 < len
       then groups_text 0 (take start (segments os)) @ ''::'' @
         groups_text 0 (drop (start + len) (segments os))
       else groups_text 0 (segments os)))"
  by (simp add: show_ipv6_def write_ipv6_def show_ipv4_def Let_def concat_write_subslice
      split: prod.split)

lemma show_ipv6_cases:
  assumes "length os = 16"
  shows "read_ipv6_addr (show_ipv6 os) = Some (segments os, [])"
proof (cases "take 12 os = replicate 10 0 @ [0xFF, 0xFF]")
  case True
  have "segments os = segments (octets_of_segments (replicate 5 0 @ 0xFFFF # v4_as_groups (drop 12 os)))"
    using mapped_octets [OF assms True] by simp
  also have "\<dots> = replicate 5 0 @ 0xFFFF # v4_as_groups (drop 12 os)"
    by (rule segments_octets)
  finally have "segments os = replicate 5 0 @ 0xFFFF # v4_as_groups (drop 12 os)" .
  with True read_ipv6_mapped [of "drop 12 os"] assms show ?thesis
    by (simp add: show_ipv6_eq)
next
  case False
  obtain start len where span: "zero_span 0 (segments os) (0, 0) (0, 0) = (start, len)"
    by fastforce
  have segs: "length (segments os) = 8" using assms by (simp add: length_segments)
  have "is_span (segments os) (start, len)"
    using zero_span_is_span [of "segments os" "[]" "segments os" "(0, 0)" "(0, 0)"] span
    by (simp add: is_span_def)
  note split = span_split [OF this] and bound = this [unfolded is_span_def]
  show ?thesis
  proof (cases "1 < len")
    case True
    let ?h = "take start (segments os)" and ?t = "drop (start + len) (segments os)"
    have "length ?h + length ?t \<le> 6" and n: "8 - length ?h - length ?t = len"
      using bound segs True by auto
    then have "read_ipv6_addr (groups_text 0 ?h @ ''::'' @ groups_text 0 ?t)
      = Some (?h @ replicate len 0 @ ?t, [])"
      using read_ipv6_compressed [of ?h ?t] by simp
    with split False span True show ?thesis
      by (simp add: show_ipv6_eq)
  next
    case len: False
    with False span segs show ?thesis
      by (simp add: show_ipv6_eq read_ipv6_groups)
  qed
qed

theorem parse_show_ipv6:
  assumes "length os = 16"
  shows "parse_ipv6 (show_ipv6 os) = Some os"
  using show_ipv6_cases [OF assms] octets_segments [of os 8] assms
  by (simp add: parse_ipv6_def parse_with_def)

section \<open>Characters and length of the printed form\<close>

definition addr_char :: "char \<Rightarrow> bool" where
  "addr_char c \<longleftrightarrow> (\<exists>d < 16. c = digit_char d) \<or> c = CHR '':'' \<or> c = CHR ''.''"

lemma addr_char_show_nat: "2 \<le> r \<Longrightarrow> r \<le> 16 \<Longrightarrow> c \<in> set (show_nat r n) \<Longrightarrow> addr_char c"
  unfolding addr_char_def using show_nat_digits by (meson less_le_trans)

lemma addr_char_ipv4: "c \<in> set (show_ipv4 os) \<Longrightarrow> addr_char c"
  by (auto simp: show_ipv4_def write_ipv4_def intro: addr_char_show_nat [of 10])
    (auto simp: addr_char_def)

lemma addr_char_groups: "c \<in> set (groups_text i gs) \<Longrightarrow> addr_char c"
proof (induction gs arbitrary: i)
  case (Cons g gs)
  then show ?case
    by (auto simp: groups_text_Cons write_hex_def addr_char_def [of "CHR '':''"]
        intro: addr_char_show_nat [of 16] split: if_splits)
qed simp

lemma addr_char_seps: "addr_char CHR '':''" "addr_char CHR ''.''" "addr_char CHR ''f''"
proof -
  have "CHR ''f'' = digit_char 15" by (simp add: digit_char_def char_of_def bit_0)
  then show "addr_char CHR ''f''" by (auto simp: addr_char_def intro!: exI [of _ 15])
qed (simp_all add: addr_char_def)

lemma addr_char_ipv6: "c \<in> set (show_ipv6 os) \<Longrightarrow> addr_char c"
  by (auto simp: show_ipv6_eq addr_char_seps intro: addr_char_ipv4 addr_char_groups
      split: if_splits prod.splits)

lemma addr_char_not:
  assumes "addr_char c"
    and "of_char x < (48::nat) \<or> (57 < (of_char x :: nat) \<and> of_char x < (97::nat)) \<or> 102 < (of_char x :: nat)"
    and "x \<noteq> CHR '':''" and "x \<noteq> CHR ''.''"
  shows "c \<noteq> x"
  using assms digit_char_neq by (auto simp: addr_char_def)

lemma show_ipv6_free:
  assumes "of_char x < (48::nat) \<or> (57 < (of_char x :: nat) \<and> of_char x < (97::nat)) \<or> 102 < (of_char x :: nat)"
    and "x \<noteq> CHR '':''" and "x \<noteq> CHR ''.''"
  shows "x \<notin> set (show_ipv6 os)"
  using addr_char_ipv6 addr_char_not [OF _ assms] by blast

lemma addr_char_ascii:
  assumes "addr_char c"
  shows "(of_char c :: u8) \<le> 0x7F"
proof -
  have "(of_char c :: nat) \<le> 127"
    using assms by (auto simp: addr_char_def of_digit_char)
  then show ?thesis by (simp add: word_le_nat_alt)
qed

lemma show_ipv6_ascii: "b \<in> set (as_bytes (show_ipv6 os)) \<Longrightarrow> b \<le> 0x7F"
  by (auto simp: as_bytes_def dest!: addr_char_ipv6 intro: addr_char_ascii)

lemma show_ipv4_ascii: "b \<in> set (as_bytes (show_ipv4 os)) \<Longrightarrow> b \<le> 0x7F"
  by (auto simp: as_bytes_def dest!: addr_char_ipv4 intro: addr_char_ascii)

lemma length_write_hex: "length (write_hex g) \<le> 4"
  unfolding write_hex_def by (rule length_show_nat_le) (auto simp: unat_u16_less)

lemma length_show_octet: "length (show_nat 10 (unat (b :: u8))) \<le> 3"
  by (rule length_show_nat_le) (auto intro!: order.strict_trans2 [OF unat_u8_less])

lemma length_show_ipv4: "length (show_ipv4 os) \<le> 15"
  using length_show_octet [of "os ! 0"] length_show_octet [of "os ! 1"]
    length_show_octet [of "os ! 2"] length_show_octet [of "os ! 3"]
  by (simp add: show_ipv4_def write_ipv4_def)

lemma length_groups_text: "length (groups_text i gs) + of_bool (i = 0 \<and> gs \<noteq> []) \<le> 5 * length gs"
proof (induction gs arbitrary: i)
  case (Cons g gs)
  then show ?case using Cons [of "Suc i"] length_write_hex [of g] by (auto simp: groups_text_Cons)
qed simp

lemma length_show_ipv6:
  assumes "length os = 16"
  shows "length (show_ipv6 os) \<le> 39"
proof (cases "take 12 os = replicate 10 0 @ [0xFF, 0xFF]")
  case True
  then show ?thesis
    using length_show_ipv4 [of "drop 12 os"] by (simp add: show_ipv6_eq)
next
  case False
  obtain start len where span: "zero_span 0 (segments os) (0, 0) (0, 0) = (start, len)"
    by fastforce
  have segs: "length (segments os) = 8" using assms by (simp add: length_segments)
  have bound: "start + len \<le> 8"
    using zero_span_is_span [of "segments os" "[]" "segments os" "(0, 0)" "(0, 0)"] span segs
    by (simp add: is_span_def)
  show ?thesis
  proof (cases "1 < len")
    case True
    have "length (groups_text 0 (take start (segments os))) \<le> 5 * start"
      and "length (groups_text 0 (drop (start + len) (segments os))) \<le> 5 * (8 - (start + len))"
      using length_groups_text [of 0 "take start (segments os)"]
        length_groups_text [of 0 "drop (start + len) (segments os)"] segs bound by simp_all
    with True False span bound show ?thesis
      by (simp add: show_ipv6_eq)
  next
    case len: False
    have "segments os \<noteq> []" using segs by auto
    with length_groups_text [of 0 "segments os"] segs
    have "length (groups_text 0 (segments os)) \<le> 39" by simp
    with False len span show ?thesis
      by (simp add: show_ipv6_eq)
  qed
qed

lemma length_parse_ipv6: "parse_ipv6 s = Some os \<Longrightarrow> length os = 16"
proof -
  assume "parse_ipv6 s = Some os"
  then obtain gs r where gs: "read_ipv6_addr s = Some (gs, r)" "os = octets_of_segments gs"
    by (auto simp: parse_ipv6_def parse_with_def split: option.splits list.splits prod.splits)
  have len: "length (fst (read_groups k i t)) \<le> k" for k i t
    by (induction k i t rule: read_groups.induct)
      (auto simp: v4_as_groups_def split: option.splits prod.splits)
  obtain front v4 rest where front: "read_groups 8 0 s = (front, v4, rest)"
    using prod_cases3 by blast
  with len [of 8 0 s] have n: "length front \<le> 8" by simp
  have "length (front @ replicate (8 - length front - length t) 0 @ t) = 8"
    if "read_groups (8 - (length front + 1)) 0 u = (t, b, v)" "length front \<noteq> 8" for t u b v
    using len [of "8 - (length front + 1)" 0 u] that n by simp
  with gs(1) front have "length gs = 8"
    by (auto simp: read_ipv6_addr_def simp del: length_append
        split: if_splits prod.splits Option.bind_splits)
  then show ?thesis by (simp add: gs(2))
qed

lemma length_parse_ipv4: "parse_ipv4 s = Some os \<Longrightarrow> length os = 4"
proof -
  assume parsed: "parse_ipv4 s = Some os"
  have len: "read_v4_groups k i t = Some (os, r) \<Longrightarrow> length os = k" for k i t os r
    by (induction k i t arbitrary: os r rule: read_v4_groups.induct)
      (auto split: option.splits)
  from parsed obtain r where "read_ipv4_addr s = Some (os, r)"
    by (auto simp: parse_ipv4_def parse_with_def split: if_splits option.splits list.splits prod.splits)
  then show ?thesis by (auto simp: read_ipv4_addr_def dest: len)
qed

section \<open>Printing as a contract\<close>

text \<open>
  What the users of an address text rely on: whatever is printed is read back, so a text
  stands for one address, and only for it.
\<close>

locale text_codec =
  fixes print :: "bytes \<Rightarrow> string" and read :: "string \<Rightarrow> bytes option"
    and value_ok :: "bytes \<Rightarrow> bool"
  assumes read_print: "value_ok x \<Longrightarrow> read (print x) = Some x"
begin

lemma print_inject: "value_ok x \<Longrightarrow> value_ok y \<Longrightarrow> print x = print y \<longleftrightarrow> x = y"
  by (metis option.inject read_print)

lemma read_print_iff: "value_ok x \<Longrightarrow> read (print x) = Some y \<longleftrightarrow> x = y"
  by (auto simp: read_print)

end

interpretation v4_text: text_codec show_ipv4 parse_ipv4 "\<lambda>os. length os = 4"
  by unfold_locales (rule parse_show_ipv4)

interpretation v6_text: text_codec show_ipv6 parse_ipv6 "\<lambda>os. length os = 16"
  by unfold_locales (rule parse_show_ipv6)

end
