(* ===== verification/Cidr.thy ===== *)
theory Cidr
  imports Range_Index Std_Net "HOL-Library.Multiset"
begin

text \<open>
  cidr.rs: the IPv6 allowlist as merged, disjoint ranges with a binary search. First the
  code's types and operations, then the invariant of a built set, what \<open>build_from\<close>
  accepts, and the membership theorem: a set holds exactly the addresses that agree with
  some entry on its prefix. The locale \<open>address_set\<close> is the contract the rule expansion of
  config.rs relies on; it is interpreted on this module at the end.
\<close>

section \<open>The code\<close>

record cidr_range =
  range_start :: u128
  range_end :: u128

record cidr_set =
  ranges :: "cidr_range list"
  span :: "u128 \<times> u128"

definition empty_set :: cidr_set where
  "empty_set = \<lparr>ranges = [], span = (0, 0)\<rparr>"

definition contains :: "cidr_set \<Rightarrow> u128 \<Rightarrow> bool" where
  "contains s addr =
     (if addr < fst (span s) \<or> snd (span s) < addr then False
      else (case last_starting_by range_start addr (ranges s) of
              None \<Rightarrow> False
            | Some r \<Rightarrow> addr \<le> range_end r))"

definition contains_range :: "cidr_set \<Rightarrow> u128 \<Rightarrow> u128 \<Rightarrow> bool" where
  "contains_range s lo hi =
     (if lo < fst (span s) \<or> snd (span s) < hi then False
      else (case last_starting_by range_start lo (ranges s) of
              None \<Rightarrow> False
            | Some r \<Rightarrow> hi \<le> range_end r))"

definition range_pairs :: "cidr_set \<Rightarrow> (u128 \<times> u128) list" where
  "range_pairs s = map (\<lambda>r. (range_start r, range_end r)) (ranges s)"

definition set_len :: "cidr_set \<Rightarrow> nat" where
  "set_len s = length (ranges s)"

definition is_empty :: "cidr_set \<Rightarrow> bool" where
  "is_empty s \<longleftrightarrow> ranges s = []"

definition parse_cidr :: "string \<Rightarrow> string + cidr_range" where
  "parse_cidr text =
     and_then (ok_or ''missing prefix length'' (split_once CHR ''/'' text)) (\<lambda>(ip_text, bits_text).
     and_then (ok_or ''bad IPv6 address'' (parse_ipv6 ip_text)) (\<lambda>ip.
     and_then (ok_or ''bad prefix length'' (parse_uint 4294967295 bits_text)) (\<lambda>bits.
       if 128 < bits then Inl ''prefix length above 128''
       else
         (let base = from_be_bytes ip;
              mask = (if bits = 0 then 0 else push_bit (128 - bits) (- 1))
          in Inr \<lparr>range_start = base AND mask, range_end = (base AND mask) OR NOT mask\<rparr>))))"

definition separators :: "char list" where
  "separators = [CHR '','', CHR '' '', CHR 0x09, CHR 0x0D, CHR 0x0A]"

definition tokens :: "string list \<Rightarrow> string list" where
  "tokens ls = concat (map (\<lambda>list. filter (\<lambda>tok. tok \<noteq> []) (split_any separators list)) ls)"

text \<open>One round of the merging loop over \<open>ranges.last_mut()\<close>.\<close>

definition push_range :: "cidr_range list \<Rightarrow> cidr_range \<Rightarrow> cidr_range list" where
  "push_range rs r =
     (if rs \<noteq> [] \<and> range_start r \<le> range_end (last rs) then
        (if range_end (last rs) < range_end r
         then butlast rs @ [(last rs)\<lparr>range_end := range_end r\<rparr>]
         else rs)
      else rs @ [r])"

definition span_of :: "cidr_range list \<Rightarrow> u128 \<times> u128" where
  "span_of rs = (if rs = [] then (- 1, 0) else (range_start (hd rs), range_end (last rs)))"

definition build_from :: "string list \<Rightarrow> string + cidr_set" where
  "build_from ls =
     and_then (try_map parse_cidr (tokens ls)) (\<lambda>raw.
       let rs = foldl push_range [] (sort_key range_start raw)
       in Inr \<lparr>ranges = rs, span = span_of rs\<rparr>)"

definition build :: "string \<Rightarrow> string + cidr_set" where
  "build list = build_from [list]"

section \<open>Ranges of a set\<close>

definition in_range :: "cidr_range \<Rightarrow> u128 \<Rightarrow> bool" where
  "in_range r a \<longleftrightarrow> range_start r \<le> a \<and> a \<le> range_end r"

definition disjoint_ranges :: "cidr_range list \<Rightarrow> bool" where
  "disjoint_ranges rs \<longleftrightarrow>
     (\<forall>r \<in> set rs. range_start r \<le> range_end r) \<and>
     sorted_wrt (\<lambda>r s. range_end r < range_start s) rs"

definition set_invar :: "cidr_set \<Rightarrow> bool" where
  "set_invar s \<longleftrightarrow> disjoint_ranges (ranges s) \<and> (ranges s = [] \<or> span s = span_of (ranges s))"

lemma disjoint_snoc:
  "disjoint_ranges (rs @ [r]) \<longleftrightarrow>
     disjoint_ranges rs \<and> range_start r \<le> range_end r \<and> (\<forall>s \<in> set rs. range_end s < range_start r)"
  by (auto simp: disjoint_ranges_def sorted_wrt_append)

lemma disjoint_last:
  assumes "disjoint_ranges rs" and "s \<in> set rs"
  shows "range_end s \<le> range_end (last rs)"
proof (cases rs rule: rev_cases)
  case (snoc ps p)
  then show ?thesis using assms by (auto simp: disjoint_snoc)
qed (use assms in simp)

lemma disjoint_hd:
  assumes "disjoint_ranges rs" and "s \<in> set rs"
  shows "range_start (hd rs) \<le> range_start s"
proof (cases rs)
  case (Cons p ps)
  have "range_start p \<le> range_start s" if "s \<in> set ps"
  proof -
    from that assms(1) Cons have "range_start p \<le> range_end p" "range_end p < range_start s"
      by (auto simp: disjoint_ranges_def)
    then show ?thesis by order
  qed
  then show ?thesis using Cons assms(2) by auto
qed (use assms in simp)

text \<open>The two binary searches find a range exactly when there is one.\<close>

interpretation allow: sorted_ranges range_start range_end ranges set_invar
  by unfold_locales (auto simp: set_invar_def disjoint_ranges_def)

lemma span_bounds:
  assumes "set_invar s" and "r \<in> set (ranges s)"
  shows "fst (span s) \<le> range_start r" and "range_end r \<le> snd (span s)"
  using assms disjoint_hd [of "ranges s" r] disjoint_last [of "ranges s" r]
  by (auto simp: set_invar_def span_of_def)

lemma contains_iff:
  assumes "set_invar s"
  shows "contains s a \<longleftrightarrow> (\<exists>r \<in> set (ranges s). in_range r a)"
proof -
  have "contains s a \<longleftrightarrow> \<not> (a < fst (span s) \<or> snd (span s) < a)
    \<and> (\<exists>r \<in> set (ranges s). range_start r \<le> a \<and> a \<le> range_end r)"
    by (simp add: contains_def allow.probe_iff [OF assms])
  then show ?thesis
    using span_bounds [OF assms] by (auto simp: in_range_def not_less dest: order.trans)
qed

lemma contains_range_iff:
  assumes "set_invar s"
  shows "contains_range s lo hi \<longleftrightarrow> (\<exists>r \<in> set (ranges s). range_start r \<le> lo \<and> hi \<le> range_end r)"
proof -
  have "contains_range s lo hi \<longleftrightarrow> \<not> (lo < fst (span s) \<or> snd (span s) < hi)
    \<and> (\<exists>r \<in> set (ranges s). range_start r \<le> lo \<and> hi \<le> range_end r)"
    by (simp add: contains_range_def allow.probe_iff [OF assms])
  then show ?thesis
    using span_bounds [OF assms] by (auto simp: not_less dest: order.trans)
qed

section \<open>Merging\<close>

lemma push_range_disjoint:
  assumes "disjoint_ranges rs" and "range_start r \<le> range_end r"
    and "rs \<noteq> [] \<Longrightarrow> range_start (last rs) \<le> range_start r"
  shows "disjoint_ranges (push_range rs r)"
    and "push_range rs r \<noteq> []" and "range_start (last (push_range rs r)) \<le> range_start r"
    and "(\<exists>s \<in> set (push_range rs r). in_range s a) \<longleftrightarrow> (\<exists>s \<in> set rs. in_range s a) \<or> in_range r a"
proof -
  show "push_range rs r \<noteq> []" by (simp add: push_range_def)
  show "disjoint_ranges (push_range rs r)"
  proof (cases "rs \<noteq> [] \<and> range_start r \<le> range_end (last rs)")
    case True
    then show ?thesis using assms(1)
      by (cases rs rule: rev_cases) (auto simp: push_range_def disjoint_snoc)
  next
    case False
    have "range_end s < range_start r" if "s \<in> set rs" for s
      using False disjoint_last [OF assms(1) that] that by (cases rs) auto
    moreover from False have "push_range rs r = rs @ [r]" by (auto simp: push_range_def)
    ultimately show ?thesis using assms(1,2) by (simp add: disjoint_snoc)
  qed
  show "range_start (last (push_range rs r)) \<le> range_start r"
    using assms(3) by (auto simp: push_range_def)
  show "(\<exists>s \<in> set (push_range rs r). in_range s a) \<longleftrightarrow> (\<exists>s \<in> set rs. in_range s a) \<or> in_range r a"
    using assms(2,3)
    by (cases rs rule: rev_cases) (auto simp: push_range_def in_range_def)
qed

lemma foldl_push_range:
  assumes "disjoint_ranges acc" and "\<forall>r \<in> set rs. range_start r \<le> range_end r"
    and "sorted (map range_start rs)"
    and "acc = [] \<or> (\<forall>r \<in> set rs. range_start (last acc) \<le> range_start r)"
  shows "disjoint_ranges (foldl push_range acc rs)"
    and "(\<exists>s \<in> set (foldl push_range acc rs). in_range s a) \<longleftrightarrow>
      (\<exists>s \<in> set acc. in_range s a) \<or> (\<exists>s \<in> set rs. in_range s a)"
proof -
  have "disjoint_ranges (foldl push_range acc rs) \<and>
    ((\<exists>s \<in> set (foldl push_range acc rs). in_range s a) \<longleftrightarrow>
      (\<exists>s \<in> set acc. in_range s a) \<or> (\<exists>s \<in> set rs. in_range s a))"
    using assms
  proof (induction rs arbitrary: acc)
    case (Cons r rs)
    have le: "range_start r \<le> range_end r"
      and last: "acc \<noteq> [] \<Longrightarrow> range_start (last acc) \<le> range_start r"
      using Cons.prems by auto
    note step = push_range_disjoint [OF Cons.prems(1) le last]
    have "\<forall>s \<in> set rs. range_start (last (push_range acc r)) \<le> range_start s"
      using step(3) Cons.prems(3) by (auto dest: order.trans)
    then show ?case using Cons.IH [OF step(1)] Cons.prems step(4) by auto
  qed simp
  then show "disjoint_ranges (foldl push_range acc rs)"
    and "(\<exists>s \<in> set (foldl push_range acc rs). in_range s a) \<longleftrightarrow>
      (\<exists>s \<in> set acc. in_range s a) \<or> (\<exists>s \<in> set rs. in_range s a)"
    by blast+
qed

section \<open>What an entry means\<close>

text \<open>The specification of one token: its base octets and prefix length.\<close>

definition cidr_text :: "string \<Rightarrow> bytes \<Rightarrow> nat \<Rightarrow> bool" where
  "cidr_text tok ip bits \<longleftrightarrow>
     (\<exists>ip_text bits_text. tok = ip_text @ CHR ''/'' # bits_text \<and> CHR ''/'' \<notin> set ip_text \<and>
        parse_ipv6 ip_text = Some ip \<and> parse_uint 4294967295 bits_text = Some bits \<and> bits \<le> 128)"

definition same_prefix :: "nat \<Rightarrow> u128 \<Rightarrow> u128 \<Rightarrow> bool" where
  "same_prefix bits a b \<longleftrightarrow> drop_bit (128 - bits) a = drop_bit (128 - bits) b"

definition denotes :: "string \<Rightarrow> u128 \<Rightarrow> bool" where
  "denotes tok a \<longleftrightarrow> (\<exists>ip bits. cidr_text tok ip bits \<and> same_prefix bits a (from_be_bytes ip))"

definition valid_cidr :: "string \<Rightarrow> bool" where
  "valid_cidr tok \<longleftrightarrow> (\<exists>ip bits. cidr_text tok ip bits)"

definition range_of_prefix :: "bytes \<Rightarrow> nat \<Rightarrow> cidr_range" where
  "range_of_prefix ip bits =
     \<lparr>range_start = from_be_bytes ip AND prefix_mask bits,
      range_end = (from_be_bytes ip AND prefix_mask bits) OR NOT (prefix_mask bits)\<rparr>"

lemma parse_cidr_Inr:
  "parse_cidr tok = Inr r \<longleftrightarrow> (\<exists>ip bits. cidr_text tok ip bits \<and> r = range_of_prefix ip bits)"
  unfolding parse_cidr_def Let_def prefix_mask_def [symmetric] range_of_prefix_def [symmetric]
  by (auto simp: cidr_text_def not_less split: if_splits)

lemma cidr_text_unique:
  "cidr_text tok ip bits \<Longrightarrow> cidr_text tok ip' bits' \<Longrightarrow> ip' = ip \<and> bits' = bits"
  unfolding cidr_text_def by (metis option.inject prod.inject split_once_append)

lemma range_of_prefix_le: "range_start (range_of_prefix ip bits) \<le> range_end (range_of_prefix ip bits)"
  by (simp add: range_of_prefix_def prefix_base_le_end)

lemma in_range_of_prefix:
  "bits \<le> 128 \<Longrightarrow> in_range (range_of_prefix ip bits) a \<longleftrightarrow> same_prefix bits a (from_be_bytes ip)"
  by (simp add: in_range_def range_of_prefix_def same_prefix_def prefix_range)

lemma in_parsed_range: "parse_cidr tok = Inr r \<Longrightarrow> in_range r a \<longleftrightarrow> denotes tok a"
  unfolding parse_cidr_Inr denotes_def
  by (metis cidr_text_def cidr_text_unique in_range_of_prefix)

lemma valid_cidr_parse: "valid_cidr tok \<longleftrightarrow> (\<exists>r. parse_cidr tok = Inr r)"
  by (auto simp: valid_cidr_def parse_cidr_Inr)

section \<open>Building\<close>

lemma build_from_cases:
  assumes "build_from ls = Inr s"
  obtains raw where "list_all2 (\<lambda>t r. parse_cidr t = Inr r) (tokens ls) raw"
    and "ranges s = foldl push_range [] (sort_key range_start raw)"
    and "span s = span_of (ranges s)"
  using assms by (auto simp: build_from_def try_map_Inr_iff Let_def)

lemma raw_ordered:
  assumes "list_all2 (\<lambda>t r. parse_cidr t = Inr r) toks raw" and "r \<in> set raw"
  shows "range_start r \<le> range_end r"
  using assms by (auto simp: list_all2_conv_all_nth in_set_conv_nth parse_cidr_Inr range_of_prefix_le)

lemma build_from_invar: "build_from ls = Inr s \<Longrightarrow> set_invar s"
proof (erule build_from_cases)
  fix raw
  assume raw: "list_all2 (\<lambda>t r. parse_cidr t = Inr r) (tokens ls) raw"
    and s: "ranges s = foldl push_range [] (sort_key range_start raw)" "span s = span_of (ranges s)"
  have "disjoint_ranges (foldl push_range [] (sort_key range_start raw))"
    using raw_ordered [OF raw] by (intro foldl_push_range) (auto simp: disjoint_ranges_def)
  with s show ?thesis by (simp add: set_invar_def)
qed

lemma build_from_member:
  assumes "build_from ls = Inr s"
  shows "contains s a \<longleftrightarrow> (\<exists>tok \<in> set (tokens ls). denotes tok a)"
  using assms
proof (rule build_from_cases)
  fix raw
  assume raw: "list_all2 (\<lambda>t r. parse_cidr t = Inr r) (tokens ls) raw"
    and s: "ranges s = foldl push_range [] (sort_key range_start raw)" "span s = span_of (ranges s)"
  have "contains s a \<longleftrightarrow> (\<exists>r \<in> set (sort_key range_start raw). in_range r a)"
    unfolding contains_iff [OF build_from_invar [OF assms]] s(1)
    using raw_ordered [OF raw] by (subst foldl_push_range) (auto simp: disjoint_ranges_def)
  also have "\<dots> \<longleftrightarrow> (\<exists>tok \<in> set (tokens ls). denotes tok a)"
    using raw by (auto simp: list_all2_conv_all_nth in_set_conv_nth in_parsed_range)
      (metis in_parsed_range nth_mem)+
  finally show ?thesis .
qed

text \<open>Concrete lists are evaluated in two steps, the entries first.\<close>

lemma build_from_parsed:
  assumes "try_map parse_cidr (tokens ls) = Inr raw"
    and "foldl push_range [] (sort_key range_start raw) = rs" and "span_of rs = sp"
  shows "build_from ls = Inr \<lparr>ranges = rs, span = sp\<rparr>"
  using assms by (simp add: build_from_def)

lemma build_from_total: "(\<exists>s. build_from ls = Inr s) \<longleftrightarrow> (\<forall>tok \<in> set (tokens ls). valid_cidr tok)"
proof -
  have "(\<exists>s. build_from ls = Inr s) \<longleftrightarrow> (\<exists>raw. try_map parse_cidr (tokens ls) = Inr raw)"
    by (auto simp: build_from_def Let_def)
  also have "\<dots> \<longleftrightarrow> \<not> (\<exists>e. try_map parse_cidr (tokens ls) = Inl e)"
    by (cases "try_map parse_cidr (tokens ls)") auto
  also have "\<dots> \<longleftrightarrow> (\<forall>tok \<in> set (tokens ls). valid_cidr tok)"
    unfolding try_map_Inl_iff valid_cidr_parse by (metis Inl_Inr_False sum.exhaust)
  finally show ?thesis .
qed

section \<open>The order among equal starts\<close>

text \<open>
  \<open>sort_unstable_by_key\<close> may leave ranges with the same start in any order. The merged
  result does not depend on it.
\<close>

lemma push_range_swap:
  assumes "range_start q = range_start r"
    and "range_start q \<le> range_end q" and "range_start r \<le> range_end r"
  shows "push_range (push_range acc q) r = push_range (push_range acc r) q"
proof (cases "acc \<noteq> [] \<and> range_start r \<le> range_end (last acc)")
  case True
  then show ?thesis using assms
    by (cases acc rule: rev_cases) (auto simp: push_range_def)
next
  case False
  then have "push_range acc q = acc @ [q]" and "push_range acc r = acc @ [r]"
    using assms(1) by (auto simp: push_range_def)
  moreover have "q\<lparr>range_end := range_end r\<rparr> = r"
    using assms(1) by (cases q; cases r) simp
  moreover have "r\<lparr>range_end := range_end q\<rparr> = q"
    using assms(1) by (cases q; cases r) simp
  moreover have "q = r" if "range_end q = range_end r"
    using assms(1) that by (cases q; cases r) simp
  ultimately show ?thesis using assms by (auto simp: push_range_def)
qed

lemma foldl_push_front:
  assumes "\<forall>p \<in> set ps. range_start p = range_start r \<and> range_start p \<le> range_end p"
    and "range_start r \<le> range_end r"
  shows "foldl push_range acc (ps @ r # qs) = foldl push_range acc (r # ps @ qs)"
  using assms
proof (induction ps arbitrary: acc)
  case (Cons p ps)
  have "foldl push_range (push_range acc p) (ps @ r # qs) = foldl push_range (push_range acc p) (r # ps @ qs)"
    using Cons.prems by (intro Cons.IH) auto
  moreover have "push_range (push_range acc p) r = push_range (push_range acc r) p"
    using Cons.prems by (intro push_range_swap) auto
  ultimately show ?case by simp
qed simp

lemma merge_any_order:
  assumes "mset xs = mset ys" and "sorted (map range_start xs)" and "sorted (map range_start ys)"
    and "\<forall>r \<in> set xs. range_start r \<le> range_end r"
  shows "foldl push_range acc xs = foldl push_range acc ys"
  using assms
proof (induction ys arbitrary: acc xs)
  case (Cons y ys)
  have "y \<in> set xs" using Cons.prems(1) by (metis list.set_intros(1) mset_eq_setD)
  then obtain ps qs where xs: "xs = ps @ y # qs" by (meson split_list)
  have eq: "set xs = set (y # ys)" using Cons.prems(1) by (rule mset_eq_setD)
  have "range_start p = range_start y" if "p \<in> set ps" for p
  proof (rule antisym)
    show "range_start p \<le> range_start y"
      using Cons.prems(2) that by (simp add: xs sorted_append)
    have "p \<in> set (y # ys)" using that xs eq by auto
    then show "range_start y \<le> range_start p"
      using Cons.prems(3) by auto
  qed
  then have "foldl push_range acc xs = foldl push_range acc (y # ps @ qs)"
    unfolding xs using Cons.prems(4) xs by (intro foldl_push_front) (metis Un_iff set_append, auto)
  also have "\<dots> = foldl push_range (push_range acc y) (ps @ qs)" by simp
  also have "\<dots> = foldl push_range (push_range acc y) ys"
    using Cons.prems by (intro Cons.IH) (auto simp: xs sorted_append)
  finally show ?case by simp
qed simp

section \<open>The contract of an address set\<close>

text \<open>
  What a client that builds a set from entries may rely on: well-formed entries build, and
  membership is the union of what the entries mean.
\<close>

locale address_set =
  fixes build_set :: "string list \<Rightarrow> 'e + 'set"
    and member :: "'set \<Rightarrow> u128 \<Rightarrow> bool"
    and entry :: "string \<Rightarrow> bool"
    and meaning :: "string \<Rightarrow> u128 \<Rightarrow> bool"
  assumes accepts: "(\<And>t. t \<in> set ts \<Longrightarrow> entry t) \<Longrightarrow> \<exists>s. build_set ts = Inr s"
    and member_iff: "build_set ts = Inr s \<Longrightarrow> (\<And>t. t \<in> set ts \<Longrightarrow> entry t)
      \<Longrightarrow> member s a \<longleftrightarrow> (\<exists>t \<in> set ts. meaning t a)"
begin

lemma denies_when_empty: "build_set [] = Inr s \<Longrightarrow> \<not> member s a"
  using member_iff [of "[]"] by simp

lemma grows:
  assumes "build_set ts = Inr s" and "build_set us = Inr u"
    and "\<And>t. t \<in> set us \<Longrightarrow> entry t" and "set ts \<subseteq> set us" and "member s a"
  shows "member u a"
  using assms member_iff [of ts s a] member_iff [of us u a] by blast

lemma determined:
  assumes "build_set ts = Inr s" and "build_set us = Inr u"
    and "\<And>t. t \<in> set us \<Longrightarrow> entry t" and "set ts = set us"
  shows "member s a \<longleftrightarrow> member u a"
  using assms grows [of ts s us u a] grows [of us u ts s a] by auto

text \<open>Building from encoded members: always possible, and the union of the encodings.\<close>

lemma build_encoded:
  assumes "\<And>m t. m \<in> set ms \<Longrightarrow> t \<in> set (enc m) \<Longrightarrow> entry t"
  shows "\<exists>s. build_set (concat (map enc ms)) = Inr s \<and>
    (\<forall>a. member s a \<longleftrightarrow> (\<exists>m \<in> set ms. \<exists>t \<in> set (enc m). meaning t a))"
proof -
  have entries: "\<And>t. t \<in> set (concat (map enc ms)) \<Longrightarrow> entry t" using assms by auto
  from accepts [OF entries] obtain s where s: "build_set (concat (map enc ms)) = Inr s" by blast
  moreover have "member s a \<longleftrightarrow> (\<exists>m \<in> set ms. \<exists>t \<in> set (enc m). meaning t a)" for a
    using member_iff [OF s entries] by auto
  ultimately show ?thesis by blast
qed

end

definition single_cidr :: "string \<Rightarrow> bool" where
  "single_cidr t \<longleftrightarrow> tokens [t] = [t] \<and> valid_cidr t"

lemma tokens_singles: "(\<And>t. t \<in> set ts \<Longrightarrow> single_cidr t) \<Longrightarrow> tokens ts = ts"
proof (induction ts)
  case (Cons t ts)
  then have "tokens [t] = [t]" "tokens ts = ts" by (auto simp: single_cidr_def)
  then show ?case by (simp add: tokens_def)
qed (simp add: tokens_def)

interpretation cidrs: address_set build_from contains single_cidr denotes
proof unfold_locales
  fix ts :: "string list"
  assume "\<And>t. t \<in> set ts \<Longrightarrow> single_cidr t"
  then show "\<exists>s. build_from ts = Inr s"
    using tokens_singles [of ts] by (auto simp: build_from_total single_cidr_def)
next
  fix ts s a
  assume "build_from ts = Inr s" and "\<And>t. t \<in> set ts \<Longrightarrow> single_cidr t"
  then show "contains s a \<longleftrightarrow> (\<exists>t \<in> set ts. denotes t a)"
    using build_from_member [of ts s a] tokens_singles [of ts] by simp
qed

text \<open>A printed address with a printed width is one entry.\<close>

definition print_cidr :: "bytes \<Rightarrow> nat \<Rightarrow> string" where
  "print_cidr ip bits = show_ipv6 ip @ ''/'' @ show_nat 10 bits"

lemma sep_not_printed: "x \<in> set separators \<Longrightarrow> x \<notin> set (print_cidr ip bits)"
  by (auto simp: print_cidr_def separators_def show_ipv6_free not_in_show_nat)

lemma cidr_text_print:
  assumes "length ip = 16" and "bits \<le> 128"
  shows "cidr_text (print_cidr ip bits) ip bits"
  unfolding cidr_text_def print_cidr_def
  using assms parse_show_ipv6 [OF assms(1)]
  by (intro exI [of _ "show_ipv6 ip"] exI [of _ "show_nat 10 bits"])
    (simp add: parse_uint_show show_ipv6_free)

lemma single_cidr_print:
  assumes "length ip = 16" and "bits \<le> 128"
  shows "single_cidr (print_cidr ip bits)"
proof -
  have "split_any separators (print_cidr ip bits) = [print_cidr ip bits]"
    using sep_not_printed by (intro split_any_single) blast
  then have "tokens [print_cidr ip bits] = [print_cidr ip bits]"
    by (simp add: tokens_def print_cidr_def)
  then show ?thesis
    using cidr_text_print [OF assms] by (auto simp: single_cidr_def valid_cidr_def)
qed

lemma denotes_print:
  assumes "length ip = 16" and "bits \<le> 128"
  shows "denotes (print_cidr ip bits) a \<longleftrightarrow> same_prefix bits a (from_be_bytes ip)"
  unfolding denotes_def using cidr_text_print [OF assms] cidr_text_unique by blast

section \<open>Properties\<close>

text \<open>
  C32. A built allowlist holds an address exactly when one of its comma- or
  whitespace-separated entries \<open>ip/bits\<close> does, that is, when the address agrees with the
  entry's address on the first \<open>bits\<close> bits: sorting, merging, the span short-circuit and the
  binary search lose nothing and add nothing.
\<close>

theorem allowlist_membership:
  assumes "build_from ls = Inr s"
  shows "contains s a \<longleftrightarrow>
    (\<exists>tok \<in> set (tokens ls). \<exists>ip bits. cidr_text tok ip bits \<and>
      drop_bit (128 - bits) a = drop_bit (128 - bits) (from_be_bytes ip))"
  using build_from_member [OF assms] by (simp add: denotes_def same_prefix_def)

theorem allowlist_membership_witness:
  "\<exists>tok \<in> set (tokens [''fd00:dead:beef:1::/64, fd00::/32'']). \<exists>ip bits. cidr_text tok ip bits \<and>
    drop_bit (128 - bits) (0xfd00deadbeef00010000000000000001 :: u128) =
    drop_bit (128 - bits) (from_be_bytes ip)"
proof -
  let ?p = "\<lparr>range_start = 0xfd00deadbeef00010000000000000000,
    range_end = 0xfd00deadbeef0001ffffffffffffffff\<rparr> :: cidr_range"
  let ?q = "\<lparr>range_start = 0xfd000000000000000000000000000000,
    range_end = 0xfd000000ffffffffffffffffffffffff\<rparr> :: cidr_range"
  let ?span = "(0xfd000000000000000000000000000000, 0xfd00deadbeef0001ffffffffffffffff) :: u128 \<times> u128"
  let ?s = "\<lparr>ranges = [?q, ?p], span = ?span\<rparr>"
  have built: "build_from [''fd00:dead:beef:1::/64, fd00::/32''] = Inr ?s"
  proof (rule build_from_parsed)
    show "try_map parse_cidr (tokens [''fd00:dead:beef:1::/64, fd00::/32'']) = Inr [?p, ?q]"
      by code_simp
    show "foldl push_range [] (sort_key range_start [?p, ?q]) = [?q, ?p]" by code_simp
    show "span_of [?q, ?p] = ?span" by code_simp
  qed
  have "contains ?s 0xfd00deadbeef00010000000000000001" by code_simp
  then show ?thesis using allowlist_membership [OF built] by blast
qed

text \<open>
  C33. Building succeeds exactly when every entry is an IPv6 address with a width of at most
  128: one malformed entry fails the whole list instead of shrinking it.
\<close>

theorem allowlist_all_or_nothing:
  "(\<exists>s. build_from ls = Inr s) = (\<forall>tok \<in> set (tokens ls). \<exists>ip bits. cidr_text tok ip bits)"
  by (simp add: build_from_total valid_cidr_def)

theorem allowlist_all_or_nothing_witness:
  "\<not> (\<forall>tok \<in> set (tokens [''fd00::/16, fd00::1'']). \<exists>ip bits. cidr_text tok ip bits)"
proof -
  have "build_from [''fd00::/16, fd00::1''] = Inl ''missing prefix length''" by code_simp
  then show ?thesis using allowlist_all_or_nothing [of "[''fd00::/16, fd00::1'']"] by simp
qed

text \<open>The merged list does not depend on the order the unstable sort gives equal starts.\<close>

lemma merge_independent_of_sort:
  assumes "try_map parse_cidr toks = Inr raw"
    and "mset xs = mset raw" and "sorted (map range_start xs)"
  shows "foldl push_range [] xs = foldl push_range [] (sort_key range_start raw)"
proof (rule merge_any_order)
  have "list_all2 (\<lambda>t r. parse_cidr t = Inr r) toks raw"
    using assms(1) by (simp add: try_map_Inr_iff)
  then show "\<forall>r \<in> set xs. range_start r \<le> range_end r"
    using raw_ordered mset_eq_setD [OF assms(2)] by blast
qed (use assms in simp_all)

text \<open>
  C39. \<open>contains_range\<close> answers whether one merged range covers both ends. Since adjacent
  ranges are not merged, that is weaker than covering the interval: there is an allowlist
  that holds every address and yet does not contain the range of all addresses.
\<close>

theorem contains_range_one_range:
  assumes "build_from ls = Inr s"
  shows "contains_range s lo hi \<longleftrightarrow> (\<exists>r \<in> set (ranges s). range_start r \<le> lo \<and> hi \<le> range_end r)"
  by (rule contains_range_iff [OF build_from_invar [OF assms]])

theorem contains_range_one_range_witness:
  "\<exists>s. build_from [''::/1'', ''8000::/1''] = Inr s \<and> (\<forall>a. contains s a) \<and> \<not> contains_range s 0 0xffffffffffffffffffffffffffffffff"
proof -
  let ?lo = "\<lparr>range_start = 0, range_end = 0x7fffffffffffffffffffffffffffffff\<rparr> :: cidr_range"
  let ?hi = "\<lparr>range_start = 0x80000000000000000000000000000000,
    range_end = 0xffffffffffffffffffffffffffffffff\<rparr> :: cidr_range"
  let ?s = "\<lparr>ranges = [?lo, ?hi], span = (0, 0xffffffffffffffffffffffffffffffff)\<rparr>"
  have built: "build_from [''::/1'', ''8000::/1''] = Inr ?s"
  proof (rule build_from_parsed)
    show "try_map parse_cidr (tokens [''::/1'', ''8000::/1'']) = Inr [?lo, ?hi]" by code_simp
    show "foldl push_range [] (sort_key range_start [?lo, ?hi]) = [?lo, ?hi]" by code_simp
    show "span_of [?lo, ?hi] = (0, 0xffffffffffffffffffffffffffffffff)" by code_simp
  qed
  have "contains ?s a" for a
  proof -
    have "in_range ?lo a \<or> in_range ?hi a"
      using unsigned_less [of a, where ?'a = nat] by (simp add: in_range_def word_le_nat_alt) linarith
    then show ?thesis by (simp add: contains_iff [OF build_from_invar [OF built]])
  qed
  moreover have "\<not> contains_range ?s 0 0xffffffffffffffffffffffffffffffff"
    by (simp add: contains_range_one_range [OF built])
  ultimately show ?thesis using built by blast
qed

end
