(* ===== verification/Scheme.thy ===== *)
theory Scheme
  imports Cidr "HOL-Library.AList" "HOL-Library.Product_Lexorder"
begin

text \<open>
  identity.rs, the scheme: the onboarded sites and the two flat indices \<open>Scheme::new\<close> builds
  of them, the label index and the segment map. The specification is the set of sites that
  claim a label or an address, judged by \<open>owner\<close>: nobody, one site, or contested. The sweep
  is verified against it by an invariant over the thresholds below which all events have been
  handled; the segment map is the second table of \<open>sorted_ranges\<close>.
\<close>

section \<open>The code\<close>

definition KIND_SITE :: u16 where "KIND_SITE = 0x0b1a"
definition SITE_CONTESTED :: u16 where "SITE_CONTESTED = 0"
definition KIND_VPCE :: u16 where "KIND_VPCE = 1"
definition KIND_ADDR :: u16 where "KIND_ADDR = 4"

type_synonym prefix48 = bytes
type_synonym segment = "u128 \<times> u128 \<times> u16"
type_synonym event = "u128 \<times> bool \<times> u16"

record site =
  site_id :: u16
  site_vpce :: "bytes list"
  site_cidrs :: cidr_set

record scheme =
  sch_prefix :: prefix48
  sch_sites :: "site list"
  vpce_index :: "bytes \<rightharpoonup> u16"
  segs :: "segment list"

text \<open>The label index: the entry of one label, for one site.\<close>

definition index_label :: "u16 \<Rightarrow> (bytes \<rightharpoonup> u16) \<Rightarrow> bytes \<Rightarrow> (bytes \<rightharpoonup> u16)" where
  "index_label sid ix v =
     (case ix v of
        None \<Rightarrow> ix(v \<mapsto> sid)
      | Some e \<Rightarrow> if e \<noteq> sid \<and> e \<noteq> SITE_CONTESTED then ix(v \<mapsto> SITE_CONTESTED) else ix)"

definition index_labels :: "site list \<Rightarrow> (bytes \<rightharpoonup> u16)" where
  "index_labels sites = foldl (\<lambda>ix s. foldl (index_label (site_id s)) ix (site_vpce s)) Map.empty sites"

text \<open>A range opens at its start and closes after its end.\<close>

definition range_events :: "segment \<Rightarrow> event list" where
  "range_events = (\<lambda>(lo, hi, sid). (lo, True, sid) # (if hi < - 1 then [(hi + 1, False, sid)] else []))"

definition site_ranges :: "site list \<Rightarrow> segment list" where
  "site_ranges sites =
     concat (map (\<lambda>s. map (\<lambda>(lo, hi). (lo, hi, site_id s)) (range_pairs (site_cidrs s))) sites)"

definition events :: "site list \<Rightarrow> event list" where
  "events sites = sort (concat (map range_events (site_ranges sites)))"

text \<open>
  The active sites with their number of open ranges (a \<open>BTreeMap\<close>; the counts stay below the
  number of ranges).
\<close>

type_synonym active = "(u16 \<times> nat) list"

definition apply_event :: "active \<Rightarrow> event \<Rightarrow> active" where
  "apply_event a ev = (case ev of (pos, open, sid) \<Rightarrow>
     if open then AList.update sid ((case map_of a sid of None \<Rightarrow> 0 | Some c \<Rightarrow> c) + 1) a
     else (case map_of a sid of
        None \<Rightarrow> a
      | Some c \<Rightarrow> if c - 1 = 0 then AList.delete sid a else AList.update sid (c - 1) a))"

definition winner :: "active \<Rightarrow> u16 option" where
  "winner a = (if length a = 0 then None
     else if length a = 1 then Some (fst (hd a))
     else Some SITE_CONTESTED)"

text \<open>The outer loop over the remaining events, one position at a time.\<close>

function sweep :: "event list \<Rightarrow> segment list \<Rightarrow> active \<Rightarrow> u128 \<Rightarrow> u16 option
    \<Rightarrow> segment list \<times> u128 \<times> u16 option" where
  "sweep [] out act cur_start cur_id = (out, cur_start, cur_id)"
| "sweep (e # es) out act cur_start cur_id =
     (let pos = fst e;
          out = (case cur_id of
                   Some sid \<Rightarrow> if cur_start < pos then out @ [(cur_start, pos - 1, sid)] else out
                 | None \<Rightarrow> out);
          act = foldl apply_event act (takeWhile (\<lambda>e. fst e = pos) (e # es))
      in sweep (dropWhile (\<lambda>e. fst e = pos) (e # es)) out act pos (winner act))"
  by pat_completeness auto
termination
  by (relation "measure (\<lambda>(es, _). length es)") (auto simp: less_Suc_eq_le length_dropWhile_le)

definition push_segment :: "segment list \<Rightarrow> segment \<Rightarrow> segment list" where
  "push_segment merged seg = (case seg of (lo, hi, sid) \<Rightarrow>
     if merged \<noteq> [] \<and> snd (snd (last merged)) = sid \<and> fst (snd (last merged)) + 1 = lo
     then butlast merged @ [(fst (last merged), hi, sid)]
     else merged @ [seg])"

definition sweep_segments :: "site list \<Rightarrow> segment list" where
  "sweep_segments sites =
     (case sweep (events sites) [] [] 0 None of (out, cur_start, cur_id) \<Rightarrow>
        (case cur_id of Some sid \<Rightarrow> out @ [(cur_start, - 1, sid)] | None \<Rightarrow> out))"

definition scheme_new :: "prefix48 \<Rightarrow> site list \<Rightarrow> scheme" where
  "scheme_new prefix sites0 = (let sites = sort_key site_id sites0 in
     \<lparr>sch_prefix = prefix, sch_sites = sites, vpce_index = index_labels sites,
      segs = foldl push_segment [] (sweep_segments sites)\<rparr>)"

definition addr_site :: "scheme \<Rightarrow> u128 \<Rightarrow> u16 option" where
  "addr_site sch addr = (case last_starting_by fst addr (segs sch) of
     None \<Rightarrow> None
   | Some s \<Rightarrow> if addr \<le> fst (snd s) then Some (snd (snd s)) else None)"

definition range_site :: "scheme \<Rightarrow> u128 \<Rightarrow> u128 \<Rightarrow> u16 option" where
  "range_site sch lo hi = (case last_starting_by fst lo (segs sch) of
     None \<Rightarrow> None
   | Some s \<Rightarrow> if hi \<le> fst (snd s) then Some (snd (snd s)) else None)"

definition label_site :: "scheme \<Rightarrow> bytes \<Rightarrow> u16 option" where
  "label_site sch label = vpce_index sch label"

section \<open>Claims\<close>

text \<open>Who owns what a set of sites claims: nobody, the only claimant, or the quarantine site.\<close>

definition owner :: "u16 set \<Rightarrow> u16 option" where
  "owner C = (if C = {} then None else if is_singleton C then Some (the_elem C) else Some SITE_CONTESTED)"

definition label_claims :: "site list \<Rightarrow> bytes \<Rightarrow> u16 set" where
  "label_claims sites v = {site_id s | s. s \<in> set sites \<and> v \<in> set (site_vpce s)}"

definition addr_claims :: "site list \<Rightarrow> u128 \<Rightarrow> u16 set" where
  "addr_claims sites a = {site_id s | s. s \<in> set sites \<and> contains (site_cidrs s) a}"

definition sites_ok :: "site list \<Rightarrow> bool" where
  "sites_ok sites \<longleftrightarrow> list_all (\<lambda>s. set_invar (site_cidrs s)) sites"

lemma owner_simps [simp]: "owner {} = None" "owner {i} = Some i"
  by (simp_all add: owner_def)

lemma owner_None [simp]: "owner C = None \<longleftrightarrow> C = {}"
  by (simp add: owner_def)

lemma owner_insert: "owner (insert i C) = (if C \<subseteq> {i} then Some i else Some SITE_CONTESTED)"
  by (auto simp: owner_def is_singleton_def the_elem_def)

section \<open>The label index\<close>

lemma index_label_owner:
  "ix v = owner C \<Longrightarrow> index_label sid ix v v = owner (insert sid C)"
  by (auto simp: index_label_def owner_insert SITE_CONTESTED_def split: option.splits)
    (auto simp: owner_def is_singleton_def the_elem_def SITE_CONTESTED_def split: if_splits)

lemma index_label_other: "w \<noteq> v \<Longrightarrow> index_label sid ix v w = ix w"
  by (simp add: index_label_def split: option.split)

lemma index_labels_site:
  "ix v = owner C \<Longrightarrow> foldl (index_label sid) ix vs v = owner (if v \<in> set vs then insert sid C else C)"
proof (induction vs arbitrary: ix C)
  case (Cons w vs)
  show ?case
  proof (cases "w = v")
    case True
    then show ?thesis 
      using Cons.IH [of "index_label sid ix v" "insert sid C"] index_label_owner [of ix v C sid] Cons.prems
      by (simp add: insert_commute)
  next
    case False
    then show ?thesis using Cons.IH [of "index_label sid ix w" C] Cons.prems by (simp add: index_label_other)
  qed
qed simp

lemma index_labels_owner: "index_labels sites v = owner (label_claims sites v)"
proof -
  have "foldl (\<lambda>ix s. foldl (index_label (site_id s)) ix (site_vpce s)) ix sites v =
      owner (label_claims sites v \<union> C)" if "ix v = owner C" for ix C
    using that
  proof (induction sites arbitrary: ix C)
    case (Cons s sites)
    have "label_claims (s # sites) v \<union> C =
        label_claims sites v \<union> (if v \<in> set (site_vpce s) then insert (site_id s) C else C)"
      by (auto simp: label_claims_def)
    then show ?case
      using Cons.IH index_labels_site [of ix v C "site_id s" "site_vpce s"] Cons.prems by simp
  qed (simp add: label_claims_def)
  from this [of Map.empty "{}"] show ?thesis by (simp add: index_labels_def)
qed

section \<open>Events\<close>

definition cnt :: "active \<Rightarrow> u16 \<Rightarrow> nat" where
  "cnt a i = (case map_of a i of None \<Rightarrow> 0 | Some c \<Rightarrow> c)"

definition active_ok :: "active \<Rightarrow> bool" where
  "active_ok a \<longleftrightarrow> distinct (map fst a) \<and> (\<forall>i. map_of a i \<noteq> Some 0)"

lemma apply_event_ok: "active_ok a \<Longrightarrow> active_ok (apply_event a ev)"
proof -
  assume a: "active_ok a"
  then have "map_of (apply_event a ev) i \<noteq> Some 0" for i
    by (cases ev) (auto simp: active_ok_def apply_event_def update_conv' delete_conv'
        simp del: map_of_eq_Some_iff split: option.splits if_splits)
  moreover have "distinct (map fst (apply_event a ev))"
    using a by (auto simp: active_ok_def apply_event_def distinct_update distinct_delete
        split: option.split prod.split)
  ultimately show "active_ok (apply_event a ev)" by (simp only: active_ok_def simp_thms)
qed

lemma cnt_apply: "active_ok a \<Longrightarrow> cnt (apply_event a (pos, open, k)) i =
    (if i \<noteq> k then cnt a i else if open then cnt a i + 1 else cnt a i - 1)"
  by (auto simp: cnt_def active_ok_def apply_event_def update_conv' delete_conv' split: option.split)

lemma winner_owner:
  assumes "active_ok a"
  shows "winner a = owner {i. 0 < cnt a i}"
proof -
  have eq: "{i. 0 < cnt a i} = fst ` set a"
    using assms by (auto simp: cnt_def active_ok_def dom_map_of_conv_image_fst [symmetric] dom_def
        split: option.splits) (metis neq0_conv)
  moreover have "card (fst ` set a) = length a"
    using assms distinct_card [of "map fst a"] by (simp add: active_ok_def)
  ultimately show ?thesis
    by (auto simp: winner_def owner_def is_singleton_altdef length_Suc_conv)
qed

definition n_open :: "u16 \<Rightarrow> event list \<Rightarrow> nat" where
  "n_open i es = length (filter (\<lambda>(pos, open, k). open \<and> k = i) es)"

definition n_close :: "u16 \<Rightarrow> event list \<Rightarrow> nat" where
  "n_close i es = length (filter (\<lambda>(pos, open, k). \<not> open \<and> k = i) es)"

lemma n_simps [simp]:
  "n_open i [] = 0" "n_close i [] = 0"
  "n_open i ((pos, open, k) # es) = of_bool (open \<and> k = i) + n_open i es"
  "n_close i ((pos, open, k) # es) = of_bool (\<not> open \<and> k = i) + n_close i es"
  by (simp_all add: n_open_def n_close_def)

text \<open>A batch in order closes before it opens.\<close>

lemma batch_count:
  assumes "active_ok a" and "sorted es" and "\<forall>e \<in> set es. fst e = pos"
  shows "active_ok (foldl apply_event a es)"
    and "cnt (foldl apply_event a es) i = cnt a i - n_close i es + n_open i es"
proof -
  have "active_ok (foldl apply_event a es) \<and>
    cnt (foldl apply_event a es) i = cnt a i - n_close i es + n_open i es"
    using assms
  proof (induction es arbitrary: a)
    case (Cons e es)
    obtain opn k where e: "e = (pos, opn, k)" using Cons.prems(3) by (cases e) auto
    have "n_close i es = 0" if opn
    proof -
      have "\<not> (pos, True, k) \<le> (pos, False, j)" for j by (simp add: less_eq_prod_def)
      then show ?thesis using Cons.prems that by (force simp: e n_close_def filter_empty_conv)
    qed
    then show ?case
      using Cons apply_event_ok [of a e] by (auto simp: e cnt_apply)
  qed simp
  then show "active_ok (foldl apply_event a es)"
    and "cnt (foldl apply_event a es) i = cnt a i - n_close i es + n_open i es" by simp_all
qed

lemma sorted_batch:
  assumes "sorted es" and "\<forall>e \<in> set es. pos \<le> fst e"
  shows "takeWhile (\<lambda>e. fst e = pos) es = filter (\<lambda>e. fst e = pos) es"
    and "dropWhile (\<lambda>e. fst e = pos) es = filter (\<lambda>e. pos < fst e) es"
  using assms
proof (induction es)
  case (Cons e es)
  {
    case 1
    show ?case
    proof (cases "fst e = pos")
      case False
      then have "\<forall>d \<in> set es. fst d \<noteq> pos" using 1 by (auto simp: less_eq_prod_def)
      then show ?thesis using False by simp
    qed (use 1 Cons.IH(1) in auto)
  next
    case 2
    show ?case
    proof (cases "fst e = pos")
      case False
      then have "\<forall>d \<in> set (e # es). pos < fst d" using 2 by (auto simp: less_eq_prod_def)
      then show ?thesis using False by simp
    qed (use 2 Cons.IH(2) in auto)
  }
qed simp_all

section \<open>Ranges open at a threshold\<close>

text \<open>
  How many ranges of a site have started strictly below the threshold \<open>q\<close>, and how many of
  those have closed below it. Thresholds are natural numbers, so the one past the last
  address exists.
\<close>

definition opened :: "segment list \<Rightarrow> nat \<Rightarrow> u16 \<Rightarrow> nat" where
  "opened R q i = length (filter (\<lambda>(lo, hi, k). k = i \<and> unat lo < q) R)"

definition closed :: "segment list \<Rightarrow> nat \<Rightarrow> u16 \<Rightarrow> nat" where
  "closed R q i = length (filter (\<lambda>(lo, hi, k). k = i \<and> unat hi + 1 < q) R)"

definition live :: "segment list \<Rightarrow> nat \<Rightarrow> u16 \<Rightarrow> nat" where
  "live R q i = opened R q i - closed R q i"

definition well_ranged :: "segment list \<Rightarrow> bool" where
  "well_ranged R \<longleftrightarrow> (\<forall>(lo, hi, k) \<in> set R. lo \<le> hi)"

abbreviation all_events :: "segment list \<Rightarrow> event list" where
  "all_events R \<equiv> concat (map range_events R)"

lemma length_filter_mono:
  "(\<And>x. x \<in> set xs \<Longrightarrow> P x \<Longrightarrow> Q x) \<Longrightarrow> length (filter P xs) \<le> length (filter Q xs)"
  by (induction xs) (auto simp: le_SucI)

lemma succ_unat: "hi < - 1 \<Longrightarrow> unat (hi + 1) = unat (hi :: u128) + 1"
  using unsigned_less [of hi, where 'a = nat]
  by (simp add: unat_word_ariths word_less_nat_alt unsigned_minus_1_eq_mask mask_eq_exp_minus_1)

lemma max_unat: "\<not> hi < - 1 \<longleftrightarrow> unat (hi :: u128) = 2 ^ 128 - 1"
  using unsigned_less [of hi, where 'a = nat]
  by (auto simp: word_less_nat_alt unsigned_minus_1_eq_mask mask_eq_exp_minus_1)

lemma events_below:
  "n_open i (filter (\<lambda>e. unat (fst e) < q) (all_events R)) = opened R q i"
  "q \<le> 2 ^ 128 \<Longrightarrow> n_close i (filter (\<lambda>e. unat (fst e) < q) (all_events R)) = closed R q i"
proof (induction R)
  case (Cons r R)
  obtain lo hi k where r: "r = (lo, hi, k)" by (cases r)
  {
    case 1
    show ?case using Cons.IH(1) by (auto simp: r range_events_def opened_def n_open_def)
  next
    case 2
    show ?case using Cons.IH(2) [OF 2] 2 max_unat [of hi] succ_unat [of hi]
      by (cases "hi < - 1") (auto simp: r range_events_def closed_def n_close_def)
  }
qed (simp_all add: opened_def closed_def n_open_def n_close_def)

lemma n_mset:
  "mset es = mset fs \<Longrightarrow> n_open i es = n_open i fs"
  "mset es = mset fs \<Longrightarrow> n_close i es = n_close i fs"
  unfolding n_open_def n_close_def by (metis mset_filter size_mset)+

lemma n_split:
  "n_open i (filter (\<lambda>e. unat (fst e) < unat p + 1) es) =
    n_open i (filter (\<lambda>e. unat (fst e) < unat p) es) + n_open i (filter (\<lambda>e. fst e = p) es)"
  "n_close i (filter (\<lambda>e. unat (fst e) < unat p + 1) es) =
    n_close i (filter (\<lambda>e. unat (fst e) < unat p) es) + n_close i (filter (\<lambda>e. fst e = p) es)"
  by (induction es) (auto simp: less_Suc_eq word_unat_eq_iff)

lemma batch_live:
  fixes p :: u128
  assumes "well_ranged R"
  shows "live R (unat p + 1) i =
    live R (unat p) i - n_close i (filter (\<lambda>e. fst e = p) (all_events R))
      + n_open i (filter (\<lambda>e. fst e = p) (all_events R))"
proof -
  have "unat p < 2 ^ 128" using unsigned_less [of p, where 'a = nat] by simp
  then have "opened R (unat p + 1) i = opened R (unat p) i + n_open i (filter (\<lambda>e. fst e = p) (all_events R))"
    and "closed R (unat p + 1) i = closed R (unat p) i + n_close i (filter (\<lambda>e. fst e = p) (all_events R))"
    using events_below [where i = i and q = "unat p" and R = R] n_split [of i p "all_events R"]
      events_below [where i = i and q = "unat p + 1" and R = R]
    by simp_all
  moreover have "closed R (unat p + 1) i \<le> opened R (unat p) i"
    unfolding closed_def opened_def
    by (rule length_filter_mono) (use assms in \<open>auto simp: well_ranged_def word_le_nat_alt\<close>)
  ultimately show ?thesis by (simp add: live_def)
qed

lemma live_const:
  assumes "\<And>e. e \<in> set (all_events R) \<Longrightarrow> q \<le> unat (fst e) \<Longrightarrow> q' \<le> unat (fst e)"
    and "q \<le> q'" and "q' \<le> 2 ^ 128"
  shows "live R q' i = live R q i"
proof -
  have lo: "unat lo < q' \<longleftrightarrow> unat lo < q" if "(lo, hi, k) \<in> set R" for lo hi k
  proof -
    have "(lo, True, k) \<in> set (all_events R)" using that by (force simp: range_events_def)
    then show ?thesis using assms(1) [of "(lo, True, k)"] assms(2) by fastforce
  qed
  have hi: "unat hi + 1 < q' \<longleftrightarrow> unat hi + 1 < q" if "(lo, hi, k) \<in> set R" for lo hi k
  proof (cases "hi < - 1")
    case True
    then have "(hi + 1, False, k) \<in> set (all_events R)" using that by (force simp: range_events_def)
    then show ?thesis using assms(1) [of "(hi + 1, False, k)"] assms(2) succ_unat [OF True] by fastforce
  next
    case False
    then show ?thesis using assms(2,3) max_unat [of hi] by simp
  qed
  have "opened R q' i = opened R q i"
    unfolding opened_def by (rule arg_cong [where f = length], rule filter_cong) (use lo in auto)
  moreover have "closed R q' i = closed R q i"
    unfolding closed_def by (rule arg_cong [where f = length], rule filter_cong) (use hi in auto)
  ultimately show ?thesis by (simp add: live_def)
qed

text \<open>Just past an address, the live sites are those with a range that holds it.\<close>

lemma live_claims:
  assumes "well_ranged R"
  shows "0 < live R (unat a + 1) i \<longleftrightarrow> (\<exists>lo hi. (lo, hi, i) \<in> set R \<and> lo \<le> a \<and> a \<le> hi)"
proof -
  have diff: "length (filter P xs) - length (filter Q xs) = length (filter (\<lambda>x. P x \<and> \<not> Q x) xs)"
    if "\<And>x. x \<in> set xs \<Longrightarrow> Q x \<Longrightarrow> P x" for P Q and xs :: "segment list"
    using that
  proof (induction xs)
    case (Cons x xs)
    have "length (filter Q xs) \<le> length (filter P xs)" using Cons.prems by (intro length_filter_mono) auto
    then show ?case using Cons by auto
  qed simp
  have "live R (unat a + 1) i = length (filter (\<lambda>x.
      (case x of (lo, hi, k) \<Rightarrow> k = i \<and> unat lo < unat a + 1) \<and>
      \<not> (case x of (lo, hi, k) \<Rightarrow> k = i \<and> unat hi + 1 < unat a + 1)) R)"
    unfolding live_def opened_def closed_def
    by (rule diff) (use assms in \<open>auto simp: well_ranged_def word_le_nat_alt\<close>)
  also have "\<dots> = length (filter (\<lambda>(lo, hi, k). k = i \<and> lo \<le> a \<and> a \<le> hi) R)"
    by (intro arg_cong [where f = length] filter_cong) (auto simp: word_le_nat_alt)
  finally have "live R (unat a + 1) i = length (filter (\<lambda>(lo, hi, k). k = i \<and> lo \<le> a \<and> a \<le> hi) R)" .
  then show ?thesis by (auto simp: filter_empty_conv)
qed

section \<open>The sweep\<close>

text \<open>The segment map as a table of ranges.\<close>

definition in_order :: "segment list \<Rightarrow> bool" where
  "in_order ss \<longleftrightarrow> (\<forall>s \<in> set ss. fst s \<le> fst (snd s)) \<and> sorted_wrt (\<lambda>s t. fst (snd s) < fst t) ss"

definition holds :: "segment list \<Rightarrow> u128 \<Rightarrow> u16 \<Rightarrow> bool" where
  "holds ss a i \<longleftrightarrow> (\<exists>lo hi. (lo, hi, i) \<in> set ss \<and> lo \<le> a \<and> a \<le> hi)"

lemma holds_snoc: "holds (ss @ [(lo, hi, k)]) a i \<longleftrightarrow> holds ss a i \<or> (i = k \<and> lo \<le> a \<and> a \<le> hi)"
  by (auto simp: holds_def)

lemma in_order_snoc:
  "in_order (ss @ [(lo, hi, k)]) \<longleftrightarrow> in_order ss \<and> lo \<le> hi \<and> (\<forall>s \<in> set ss. fst (snd s) < lo)"
  by (auto simp: in_order_def sorted_wrt_append)

text \<open>Who owns an address by the ranges that hold it.\<close>

definition owner_at :: "segment list \<Rightarrow> nat \<Rightarrow> u16 option" where
  "owner_at R q = owner {i. 0 < live R q i}"

text \<open>
  The invariant: \<open>es\<close> are the events at or above the threshold, the active sites are the live
  ones, and the segments emitted give the owner of every address below \<open>cur_start\<close>.
\<close>

definition sweep_inv :: "segment list \<Rightarrow> nat \<Rightarrow> event list \<Rightarrow> segment list \<Rightarrow> active \<Rightarrow> u128 \<Rightarrow> u16 option \<Rightarrow> bool" where
  "sweep_inv R q es out act cs cid \<longleftrightarrow>
     es = filter (\<lambda>e. q \<le> unat (fst e)) (sort (all_events R)) \<and>
     active_ok act \<and> (\<forall>i. cnt act i = live R q i) \<and> cid = owner_at R q \<and>
     (q = 0 \<and> cs = 0 \<or> q = unat cs + 1) \<and>
     in_order out \<and> (\<forall>s \<in> set out. fst (snd s) < cs) \<and>
     (\<forall>a < cs. \<forall>i. holds out a i \<longleftrightarrow> owner_at R (unat a + 1) = Some i)"

lemma sweep_inv_start: "sweep_inv R 0 (sort (all_events R)) [] [] 0 None"
  by (auto simp: sweep_inv_def active_ok_def cnt_def live_def opened_def owner_at_def in_order_def)

lemma sweep_emit:
  assumes "in_order out" and "\<forall>s \<in> set out. fst (snd s) < cs" and "cs \<le> p"
    and below: "\<forall>a < cs. \<forall>i. holds out a i \<longleftrightarrow> owner_at R (unat a + 1) = Some i"
    and const: "\<And>a. cs \<le> a \<Longrightarrow> a < p \<Longrightarrow> owner_at R (unat a + 1) = cid"
    and out': "out' = (case cid of Some sid \<Rightarrow> if cs < p then out @ [(cs, p - 1, sid)] else out | None \<Rightarrow> out)"
  shows "in_order out'" and "\<forall>s \<in> set out'. fst (snd s) < p"
    and "\<forall>a < p. \<forall>i. holds out' a i \<longleftrightarrow> owner_at R (unat a + 1) = Some i"
proof -
  have pred: "a \<le> p - 1 \<longleftrightarrow> a < p" if "cs < p" for a
  proof -
    have "unat (p - 1) = unat p - 1" using that by (intro unat_minus_one) auto
    then show ?thesis using that by (auto simp: word_le_nat_alt word_less_nat_alt)
  qed
  have not_above: "\<not> holds out a i" if "cs \<le> a" for a i
    using assms(2) that by (force simp: holds_def)
  show "in_order out'"
    using assms(1,2) pred [of cs] by (auto simp: out' in_order_snoc split: option.split)
  show "\<forall>s \<in> set out'. fst (snd s) < p"
    using assms(2,3) pred [of "p - 1"] by (auto simp: out' split: option.split dest: order.strict_trans2)
  show "\<forall>a < p. \<forall>i. holds out' a i \<longleftrightarrow> owner_at R (unat a + 1) = Some i"
  proof (intro allI impI)
    fix a i assume "a < p"
    show "holds out' a i \<longleftrightarrow> owner_at R (unat a + 1) = Some i"
    proof (cases "a < cs")
      case True
      then have "a < p" "\<not> cs \<le> a" using assms(3) by auto
      then show ?thesis using below True by (auto simp: out' holds_snoc split: option.split)
    next
      case False
      then have "cs \<le> a" "cs < p" using \<open>a < p\<close> by auto
      then show ?thesis using const [of a] not_above [of a] \<open>a < p\<close> pred [of a]
        by (auto simp: out' holds_snoc split: option.split)
    qed
  qed
qed

text \<open>At a threshold the next event is the first one, and the live counts stay until it.\<close>

lemma first_above:
  assumes "e # es = filter (\<lambda>e. q \<le> unat (fst e)) (sort (all_events R))"
  shows "\<forall>d \<in> set (e # es). fst e \<le> fst d" and "sorted (e # es)" and "q \<le> unat (fst e)"
    and "q \<le> q' \<Longrightarrow> q' \<le> unat (fst e) \<Longrightarrow> live R q' i = live R q i"
proof -
  show sorted: "sorted (e # es)" unfolding assms by (intro sorted_filter [where f = "\<lambda>x. x", simplified]) simp
  then show first: "\<forall>d \<in> set (e # es). fst e \<le> fst d" by (auto simp: less_eq_prod_def)
  show "q \<le> unat (fst e)" using assms [symmetric] by (auto simp: filter_eq_Cons_iff)
  assume q': "q \<le> q'" "q' \<le> unat (fst e)"
  show "live R q' i = live R q i"
  proof (rule live_const [OF _ q'(1)])
    fix d assume "d \<in> set (all_events R)" "q \<le> unat (fst d)"
    then have "d \<in> set (e # es)" by (simp add: assms)
    then have "unat (fst e) \<le> unat (fst d)" using first unfolding word_le_nat_alt by (rule bspec [rotated])
    then show "q' \<le> unat (fst d)" using q'(2) by simp
  next
    show "q' \<le> 2 ^ 128" using q'(2) unsigned_less [of "fst e", where 'a = nat] by simp
  qed
qed

lemma batch_events:
  assumes es: "e # es = filter (\<lambda>e. q \<le> unat (fst e)) (sort (all_events R))"
  shows "mset (takeWhile (\<lambda>d. fst d = fst e) (e # es)) = mset (filter (\<lambda>d. fst d = fst e) (all_events R))"
    and "dropWhile (\<lambda>d. fst d = fst e) (e # es) = filter (\<lambda>d. unat (fst e) + 1 \<le> unat (fst d)) (sort (all_events R))"
proof -
  note sorted = first_above(2) [OF es] and first = first_above(1) [OF es] and qp = first_above(3) [OF es]
  have "takeWhile (\<lambda>d. fst d = fst e) (e # es) = filter (\<lambda>d. fst d = fst e) (e # es)"
    using sorted first by (rule sorted_batch)
  also have "\<dots> = filter (\<lambda>d. fst d = fst e) (sort (all_events R))" using qp by (auto simp: es intro: filter_cong)
  finally show "mset (takeWhile (\<lambda>d. fst d = fst e) (e # es)) = mset (filter (\<lambda>d. fst d = fst e) (all_events R))" by simp
  have "dropWhile (\<lambda>d. fst d = fst e) (e # es) = filter (\<lambda>d. fst e < fst d) (e # es)"
    using sorted first by (rule sorted_batch)
  also have "\<dots> = filter (\<lambda>d. unat (fst e) + 1 \<le> unat (fst d)) (sort (all_events R))"
    using qp unfolding es by (auto simp: word_less_nat_alt intro!: filter_cong)
  finally show "dropWhile (\<lambda>d. fst d = fst e) (e # es) = filter (\<lambda>d. unat (fst e) + 1 \<le> unat (fst d)) (sort (all_events R))" .
qed

lemma sweep_inv_step:
  assumes R: "well_ranged R" and inv: "sweep_inv R q (e # es) out act cs cid"
  defines "p \<equiv> fst e"
  shows "sweep_inv R (unat p + 1) (dropWhile (\<lambda>e. fst e = p) (e # es))
    (case cid of Some sid \<Rightarrow> if cs < p then out @ [(cs, p - 1, sid)] else out | None \<Rightarrow> out)
    (foldl apply_event act (takeWhile (\<lambda>e. fst e = p) (e # es))) p
    (winner (foldl apply_event act (takeWhile (\<lambda>e. fst e = p) (e # es))))"
proof -
  let ?B = "takeWhile (\<lambda>e. fst e = p) (e # es)"
  have es: "e # es = filter (\<lambda>e. q \<le> unat (fst e)) (sort (all_events R))"
    and act: "active_ok act" "\<And>i. cnt act i = live R q i" and cid: "cid = owner_at R q"
    and q: "q = 0 \<and> cs = 0 \<or> q = unat cs + 1"
    and out: "in_order out" "\<forall>s \<in> set out. fst (snd s) < cs"
      "\<forall>a < cs. \<forall>i. holds out a i \<longleftrightarrow> owner_at R (unat a + 1) = Some i"
    using inv by (auto simp: sweep_inv_def)
  note qp = first_above(3) [OF es, folded p_def] and const = first_above(4) [OF es, folded p_def]
  have csp: "cs \<le> p" using q qp by (auto simp: word_le_nat_alt)
  note counts = n_mset [OF batch_events(1) [OF es, folded p_def]]
  have "sorted ?B" "\<forall>d \<in> set ?B. fst d = p"
    using first_above(2) [OF es] by (auto simp: sorted_wrt_takeWhile dest: set_takeWhileD)
  note batch = batch_count [OF act(1) this]
  have live': "cnt (foldl apply_event act ?B) i = live R (unat p + 1) i" for i
    using batch(2) [of i] act(2) [of i] const [of "unat p" i] qp batch_live [OF R, of p i]
    by (simp add: counts del: takeWhile.simps)
  have "owner_at R (unat a + 1) = cid" if "cs \<le> a" "a < p" for a
    using that q const [of "unat a + 1"]
    by (auto simp: cid owner_at_def word_le_nat_alt word_less_nat_alt)
  note emit = sweep_emit [OF out(1,2) csp out(3) this refl]
  show ?thesis
    unfolding sweep_inv_def
    using emit batch(1) live' batch_events(2) [OF es, folded p_def] winner_owner [OF batch(1)] by (simp add: owner_at_def)
qed

lemma sweep_end:
  assumes "well_ranged R" and "sweep_inv R q es out act cs cid"
  shows "\<exists>q' act'. case sweep es out act cs cid of (out', cs', cid') \<Rightarrow> sweep_inv R q' [] out' act' cs' cid'"
  using assms(2)
proof (induction es out act cs cid arbitrary: q rule: sweep.induct)
  case (2 e es out act cs cid)
  from "2.IH" [OF refl refl refl sweep_inv_step [OF assms(1) "2.prems"]]
  show ?case by (simp add: Let_def)
qed auto

lemma sweep_segments_inv:
  fixes sites :: "site list"
  defines "R \<equiv> site_ranges sites"
  assumes "well_ranged R"
  shows "in_order (sweep_segments sites)"
    and "holds (sweep_segments sites) a i \<longleftrightarrow> owner_at R (unat a + 1) = Some i"
proof -
  obtain out cs cid where res: "sweep (events sites) [] [] 0 None = (out, cs, cid)"
    by (cases "sweep (events sites) [] [] 0 None") auto
  then obtain q act where inv: "sweep_inv R q [] out act cs cid"
    using sweep_end [OF assms(2) sweep_inv_start] by (auto simp: events_def R_def)
  have "[] = filter (\<lambda>e. q \<le> unat (fst e)) (sort (all_events R))"
    using inv unfolding sweep_inv_def by blast
  from this [symmetric] have finished: "\<forall>e \<in> set (all_events R). unat (fst e) < q"
    by (simp add: filter_empty_conv not_le del: set_concat)
  from inv have q: "q = 0 \<and> cs = 0 \<or> q = unat cs + 1" and cid: "cid = owner_at R q"
    and out: "in_order out" "\<forall>s \<in> set out. fst (snd s) < cs"
      "\<forall>a < cs. \<forall>i. holds out a i \<longleftrightarrow> owner_at R (unat a + 1) = Some i"
    by (simp_all add: sweep_inv_def)
  have segs: "sweep_segments sites = (case cid of Some sid \<Rightarrow> out @ [(cs, - 1, sid)] | None \<Rightarrow> out)"
    by (simp add: sweep_segments_def res)
  show "in_order (sweep_segments sites)"
    using out(1,2) by (auto simp: segs in_order_snoc split: option.split)
  have tail: "owner_at R (unat a + 1) = cid" if "cs \<le> a" for a
  proof -
    have "unat a < 2 ^ 128" using unsigned_less [of a, where 'a = nat] by simp
    then have "live R (unat a + 1) i = live R q i" for i
      using finished q that by (intro live_const) (auto simp: word_le_nat_alt not_le [symmetric])
    then show ?thesis by (simp add: cid owner_at_def)
  qed
  have not_above: "\<not> holds out a i" if "cs \<le> a" for a i
    using out(2) that by (force simp: holds_def)
  show "holds (sweep_segments sites) a i \<longleftrightarrow> owner_at R (unat a + 1) = Some i"
  proof (cases "a < cs")
    case True
    then have "\<not> cs \<le> a" by simp
    then show ?thesis using out(3) True by (auto simp: segs holds_snoc split: option.split)
  next
    case False
    then show ?thesis using tail [of a] not_above [of a i]
      by (auto simp: segs holds_snoc split: option.split)
  qed
qed

section \<open>Merging neighbours\<close>

definition maximal :: "segment list \<Rightarrow> bool" where
  "maximal ss \<longleftrightarrow> (\<forall>s \<in> set ss. \<forall>t \<in> set ss. fst (snd s) < fst t \<longrightarrow> fst (snd s) + 1 = fst t \<longrightarrow>
     snd (snd s) \<noteq> snd (snd t))"

lemma succ_le: "h < lo \<Longrightarrow> h + 1 \<le> a \<longleftrightarrow> h < (a :: u128)"
  using succ_unat [of h] max_unat [of h] unsigned_less [of lo, where 'a = nat]
  by (cases "h < - 1") (auto simp: word_le_nat_alt word_less_nat_alt)

text \<open>A segment either extends the last one or is appended.\<close>

lemma join_segment:
  fixes lo hi :: u128
  assumes "in_order (ps @ [(l, h, k)])" and "maximal (ps @ [(l, h, k)])" and "lo \<le> hi" and "h < lo" and "h + 1 = lo"
  shows "in_order (ps @ [(l, hi, k)])" and "maximal (ps @ [(l, hi, k)])" and "\<forall>s \<in> set (ps @ [(l, hi, k)]). fst (snd s) \<le> hi"
    and "holds (ps @ [(l, hi, k)]) a i \<longleftrightarrow> holds (ps @ [(l, h, k)]) a i \<or> (i = k \<and> lo \<le> a \<and> a \<le> hi)"
proof -
  have ps: "in_order ps" "\<And>s. s \<in> set ps \<Longrightarrow> fst (snd s) < l" and lh: "l \<le> h"
    using assms(1) by (auto simp: in_order_snoc)
  have le: "fst s \<le> fst (snd s)" if "s \<in> set ps" for s using ps(1) that by (auto simp: in_order_def)
  show "in_order (ps @ [(l, hi, k)])" using ps lh assms(3,4) by (auto simp: in_order_snoc)
  show "\<forall>s \<in> set (ps @ [(l, hi, k)]). fst (snd s) \<le> hi" using ps(2) lh assms(3,4) by fastforce
  have "\<not> hi < fst s" if "s \<in> set ps" for s
    using ps(2) [OF that] le [OF that] lh assms(3,4) by auto
  moreover have "\<not> hi < l" using lh assms(3,4) by auto
  ultimately show "maximal (ps @ [(l, hi, k)])" using assms(2) unfolding maximal_def by simp
  have "l \<le> a \<and> a \<le> hi \<longleftrightarrow> (l \<le> a \<and> a \<le> h) \<or> (lo \<le> a \<and> a \<le> hi)"
    using lh assms(3-5) succ_le [OF assms(4), of a] by auto
  then show "holds (ps @ [(l, hi, k)]) a i \<longleftrightarrow> holds (ps @ [(l, h, k)]) a i \<or> (i = k \<and> lo \<le> a \<and> a \<le> hi)"
    by (auto simp: holds_snoc)
qed

lemma append_segment:
  fixes lo hi :: u128
  assumes "in_order ss" and "maximal ss" and "lo \<le> hi" and "\<forall>s \<in> set ss. fst (snd s) < lo"
    and "ss = [] \<or> \<not> (snd (snd (last ss)) = k \<and> fst (snd (last ss)) + 1 = lo)"
  shows "in_order (ss @ [(lo, hi, k)])" and "maximal (ss @ [(lo, hi, k)])" and "\<forall>s \<in> set (ss @ [(lo, hi, k)]). fst (snd s) \<le> hi"
    and "holds (ss @ [(lo, hi, k)]) a i \<longleftrightarrow> holds ss a i \<or> (i = k \<and> lo \<le> a \<and> a \<le> hi)"
proof -
  show "in_order (ss @ [(lo, hi, k)])" using assms(1,3,4) by (auto simp: in_order_snoc)
  show "\<forall>s \<in> set (ss @ [(lo, hi, k)]). fst (snd s) \<le> hi" using assms(3,4) by fastforce
  show "holds (ss @ [(lo, hi, k)]) a i \<longleftrightarrow> holds ss a i \<or> (i = k \<and> lo \<le> a \<and> a \<le> hi)" by (auto simp: holds_snoc)
  have le: "\<not> hi < fst s" "\<not> hi < lo" if "s \<in> set ss" for s
    using assms(1,3,4) that by (auto simp: in_order_def dest!: bspec [OF _ that])
  have "fst (snd s) + 1 = lo \<Longrightarrow> snd (snd s) \<noteq> k" if s: "s \<in> set ss" for s
  proof (cases "s = last ss")
    case True
    then show "fst (snd s) + 1 = lo \<Longrightarrow> snd (snd s) \<noteq> k" using assms(5) s by auto
  next
    case False
    obtain ps l h j where ss: "ss = ps @ [(l, h, j)]" using s by (cases ss rule: rev_cases) auto
    then have "fst (snd s) < l" "l \<le> h" "h < lo" using assms(1,4) s False by (auto simp: in_order_snoc)
    then show "fst (snd s) + 1 = lo \<Longrightarrow> snd (snd s) \<noteq> k" using succ_le [of "fst (snd s)" l l] by auto
  qed
  then show "maximal (ss @ [(lo, hi, k)])" using assms(2,3) le unfolding maximal_def by auto
qed

lemma push_segment_inv:
  fixes lo hi :: u128 and k :: u16
  assumes "in_order ss" and "maximal ss" and "lo \<le> hi" and "\<forall>s \<in> set ss. fst (snd s) < lo"
  defines "ss' \<equiv> push_segment ss (lo, hi, k)"
  shows "in_order ss' \<and> maximal ss' \<and> (\<forall>s \<in> set ss'. fst (snd s) \<le> hi) \<and>
    (\<forall>a i. holds ss' a i \<longleftrightarrow> holds ss a i \<or> (i = k \<and> lo \<le> a \<and> a \<le> hi))"
proof (cases "ss \<noteq> [] \<and> snd (snd (last ss)) = k \<and> fst (snd (last ss)) + 1 = lo")
  case True
  then obtain ps l h where ss: "ss = ps @ [(l, h, k)]" "h + 1 = lo" by (cases ss rule: rev_cases) auto
  then have "ss' = ps @ [(l, hi, k)]" by (simp add: ss'_def push_segment_def)
  then show ?thesis using join_segment [of ps l h k lo hi] assms(1-4) ss by auto
next
  case False
  then have "ss' = ss @ [(lo, hi, k)]"
    by (cases ss rule: rev_cases) (auto simp: ss'_def push_segment_def)
  then show ?thesis using append_segment [OF assms(1-4), of k] False by auto
qed

lemma merge_segments:
  assumes "in_order ss" and "in_order acc" and "maximal acc"
    and "\<forall>s \<in> set acc. \<forall>t \<in> set ss. fst (snd s) < fst t"
  shows "in_order (foldl push_segment acc ss) \<and> maximal (foldl push_segment acc ss) \<and>
    (\<forall>a i. holds (foldl push_segment acc ss) a i \<longleftrightarrow> holds acc a i \<or> holds ss a i)"
  using assms
proof (induction ss arbitrary: acc)
  case Nil
  then show ?case by (simp add: holds_def)
next
  case (Cons t ss)
  obtain lo hi k where t: "t = (lo, hi, k)" by (cases t)
  have "lo \<le> hi" and ss: "in_order ss" "\<forall>u \<in> set ss. hi < fst u"
    using Cons.prems(1) by (auto simp: t in_order_def)
  note step = push_segment_inv [OF Cons.prems(2,3) this(1), of k]
  have before: "\<forall>s \<in> set acc. fst (snd s) < lo" using Cons.prems(4) by (auto simp: t)
  from step [OF this] have step:
    "in_order (push_segment acc t)" "maximal (push_segment acc t)"
    "\<forall>s \<in> set (push_segment acc t). fst (snd s) \<le> hi"
    "\<And>a i. holds (push_segment acc t) a i \<longleftrightarrow> holds acc a i \<or> (i = k \<and> lo \<le> a \<and> a \<le> hi)"
    by (simp_all add: t)
  have "holds (t # ss) a i \<longleftrightarrow> (i = k \<and> lo \<le> a \<and> a \<le> hi) \<or> holds ss a i" for a i
    by (auto simp: t holds_def)
  moreover have "\<forall>s \<in> set (push_segment acc t). \<forall>u \<in> set ss. fst (snd s) < fst u"
    using step(3) ss(2) by (meson le_less_trans)
  ultimately show ?case using Cons.IH [OF ss(1) step(1,2)] step(4) by simp
qed

section \<open>Lookups\<close>

definition segs_ok :: "scheme \<Rightarrow> bool" where
  "segs_ok sch \<longleftrightarrow> in_order (segs sch) \<and> maximal (segs sch)"

interpretation seg_table: sorted_ranges fst "\<lambda>s. fst (snd s)" segs segs_ok
  by unfold_locales (auto simp: segs_ok_def in_order_def)

lemma addr_site_holds:
  assumes "segs_ok sch"
  shows "addr_site sch a = Some i \<longleftrightarrow> holds (segs sch) a i"
proof
  assume "addr_site sch a = Some i"
  then obtain lo hi where s: "last_starting_by fst a (segs sch) = Some (lo, hi, i)" "a \<le> hi"
    by (auto simp: addr_site_def split: option.splits if_splits)
  then show "holds (segs sch) a i"
    using seg_table.last_starting_by_Some(1,2) [OF assms s(1)] by (auto simp: holds_def)
next
  assume "holds (segs sch) a i"
  then obtain lo hi where s: "(lo, hi, i) \<in> set (segs sch)" "lo \<le> a" "a \<le> hi" by (auto simp: holds_def)
  then have "last_starting_by fst a (segs sch) = Some (lo, hi, i)"
    by (intro seg_table.probe_Some [OF assms]) auto
  then show "addr_site sch a = Some i" using s by (simp add: addr_site_def)
qed

lemma range_site_one:
  assumes "segs_ok sch" and "lo \<le> hi"
  shows "range_site sch lo hi = Some i \<longleftrightarrow>
    (\<exists>l h. (l, h, i) \<in> set (segs sch) \<and> l \<le> lo \<and> hi \<le> h)"
proof
  assume "range_site sch lo hi = Some i"
  then obtain l h where s: "last_starting_by fst lo (segs sch) = Some (l, h, i)" "hi \<le> h"
    by (auto simp: range_site_def split: option.splits if_splits)
  then show "\<exists>l h. (l, h, i) \<in> set (segs sch) \<and> l \<le> lo \<and> hi \<le> h"
    using seg_table.last_starting_by_Some(1,2) [OF assms(1) s(1)] by auto
next
  assume "\<exists>l h. (l, h, i) \<in> set (segs sch) \<and> l \<le> lo \<and> hi \<le> h"
  then obtain l h where s: "(l, h, i) \<in> set (segs sch)" "l \<le> lo" "hi \<le> h" by blast
  then have "last_starting_by fst lo (segs sch) = Some (l, h, i)"
    using assms(2) by (intro seg_table.probe_Some [OF assms(1)]) auto
  then show "range_site sch lo hi = Some i" using s by (simp add: range_site_def)
qed

text \<open>Since neighbours are merged, one segment covers a range exactly when one site owns all of it.\<close>

lemma range_site_all:
  assumes "segs_ok sch" and "lo \<le> hi"
  shows "range_site sch lo hi = Some i \<longleftrightarrow> (\<forall>a. lo \<le> a \<and> a \<le> hi \<longrightarrow> addr_site sch a = Some i)"
proof
  assume "range_site sch lo hi = Some i"
  then show "\<forall>a. lo \<le> a \<and> a \<le> hi \<longrightarrow> addr_site sch a = Some i"
    unfolding range_site_one [OF assms] addr_site_holds [OF assms(1)] holds_def
    by (meson order.trans)
next
  assume all: "\<forall>a. lo \<le> a \<and> a \<le> hi \<longrightarrow> addr_site sch a = Some i"
  then have held: "holds (segs sch) a i" if "lo \<le> a" "a \<le> hi" for a
    using that by (simp add: addr_site_holds [OF assms(1)])
  from held [of lo] assms(2) obtain l h where s: "(l, h, i) \<in> set (segs sch)" "l \<le> lo" "lo \<le> h"
    by (auto simp: holds_def)
  have "hi \<le> h"
  proof (rule ccontr)
    assume "\<not> hi \<le> h"
    then have h: "h < hi" by simp
    have next': "h + 1 \<le> a \<longleftrightarrow> h < a" for a by (rule succ_le [OF h])
    have "lo \<le> h + 1" "h + 1 \<le> hi" using next' [of hi] next' [of "h + 1"] h s(3) by auto
    from held [OF this] obtain l' h' where t: "(l', h', i) \<in> set (segs sch)" "l' \<le> h + 1" "h + 1 \<le> h'"
      by (auto simp: holds_def)
    have "h < l'"
    proof (rule ccontr)
      assume "\<not> h < l'"
      have "h < h'" using t(3) next' [of h'] by simp
      with \<open>\<not> h < l'\<close> have "(l, h, i) = (l', h', i)"
        using s t(1) by (intro seg_table.holder_unique [OF assms(1) s(1) t(1), of h])
          (auto intro: order.trans)
      then show False using \<open>h < h'\<close> by simp
    qed
    then have "h + 1 = l'" using next' [of l'] t(2) by simp
    then show False
      using assms(1) s(1) t(1) \<open>h < l'\<close> unfolding segs_ok_def maximal_def by fastforce
  qed
  then show "range_site sch lo hi = Some i" using s unfolding range_site_one [OF assms] by blast
qed

section \<open>A new scheme\<close>

lemma well_ranged_sites: "sites_ok sites \<Longrightarrow> well_ranged (site_ranges sites)"
  by (auto simp: well_ranged_def site_ranges_def range_pairs_def sites_ok_def list_all_iff
      set_invar_def disjoint_ranges_def)

lemma owner_at_claims:
  assumes "sites_ok sites"
  shows "owner_at (site_ranges sites) (unat a + 1) = owner (addr_claims sites a)"
proof -
  have "(\<exists>lo hi. (lo, hi, i) \<in> set (site_ranges sites) \<and> lo \<le> a \<and> a \<le> hi) \<longleftrightarrow> i \<in> addr_claims sites a" for i
  proof -
    have "(\<exists>lo hi. (lo, hi, i) \<in> set (site_ranges sites) \<and> lo \<le> a \<and> a \<le> hi) \<longleftrightarrow>
        (\<exists>s \<in> set sites. i = site_id s \<and> (\<exists>r \<in> set (ranges (site_cidrs s)). in_range r a))"
      by (force simp: site_ranges_def range_pairs_def in_range_def)
    also have "\<dots> \<longleftrightarrow> (\<exists>s \<in> set sites. i = site_id s \<and> contains (site_cidrs s) a)"
      using assms contains_iff by (metis (no_types, lifting) list_all_iff sites_ok_def)
    finally show ?thesis by (auto simp: addr_claims_def)
  qed
  then have "{i. 0 < live (site_ranges sites) (unat a + 1) i} = addr_claims sites a"
    unfolding live_claims [OF well_ranged_sites [OF assms]] by blast
  then show ?thesis by (simp add: owner_at_def)
qed

lemma claims_sort [simp]:
  "label_claims (sort_key f sites) = label_claims sites"
  "addr_claims (sort_key f sites) = addr_claims sites"
  "sites_ok (sort_key f sites) = sites_ok sites"
  by (simp_all add: label_claims_def addr_claims_def fun_eq_iff sites_ok_def list_all_iff)

lemma scheme_new_sel [simp]:
  "sch_prefix (scheme_new p sites) = p" "sch_sites (scheme_new p sites) = sort_key site_id sites"
  by (simp_all add: scheme_new_def Let_def)

lemma scheme_new_segs:
  assumes "sites_ok sites"
  shows "segs_ok (scheme_new p sites)"
    and "holds (segs (scheme_new p sites)) a i \<longleftrightarrow> owner (addr_claims sites a) = Some i"
proof -
  let ?sites = "sort_key site_id sites"
  have ok: "sites_ok ?sites" using assms by simp
  note inv = sweep_segments_inv [OF well_ranged_sites [OF ok]]
  have "in_order []" "maximal []" by (simp_all add: in_order_def maximal_def)
  from merge_segments [OF inv(1) this] show "segs_ok (scheme_new p sites)"
    by (simp add: segs_ok_def scheme_new_def Let_def)
  have "holds [] a i \<longleftrightarrow> False" by (simp add: holds_def)
  with merge_segments [OF inv(1) \<open>in_order []\<close> \<open>maximal []\<close>] inv(2) [of a i] owner_at_claims [OF ok, of a]
  show "holds (segs (scheme_new p sites)) a i \<longleftrightarrow> owner (addr_claims sites a) = Some i"
    by (simp add: scheme_new_def Let_def)
qed

lemma addr_site_owner:
  assumes "sites_ok sites"
  shows "addr_site (scheme_new p sites) a = owner (addr_claims sites a)"
proof (rule option.expand)
  show "(addr_site (scheme_new p sites) a = None) = (owner (addr_claims sites a) = None)"
    and "addr_site (scheme_new p sites) a \<noteq> None \<Longrightarrow> owner (addr_claims sites a) \<noteq> None \<Longrightarrow>
      the (addr_site (scheme_new p sites) a) = the (owner (addr_claims sites a))"
    using addr_site_holds [OF scheme_new_segs(1) [OF assms]] scheme_new_segs(2) [OF assms]
    by (metis option.exhaust option.sel option.distinct(1))+
qed

lemma label_site_owner: "label_site (scheme_new p sites) v = owner (label_claims sites v)"
  by (simp add: label_site_def scheme_new_def Let_def index_labels_owner)

lemma range_site_owner:
  assumes "sites_ok sites" and "lo \<le> hi"
  shows "range_site (scheme_new p sites) lo hi = Some i \<longleftrightarrow>
    (\<forall>a. lo \<le> a \<and> a \<le> hi \<longrightarrow> owner (addr_claims sites a) = Some i)"
  using range_site_all [OF scheme_new_segs(1) [OF assms(1)] assms(2)] by (simp add: addr_site_owner [OF assms(1)])

text \<open>A concrete table: two sites, a shared label, overlapping prefixes.\<close>

definition demo_sites :: "site list" where
  "demo_sites =
    [\<lparr>site_id = 7, site_vpce = [[0x76]], site_cidrs =
        \<lparr>ranges = [\<lparr>range_start = 0x10, range_end = 0x1f\<rparr>], span = (0x10, 0x1f)\<rparr>\<rparr>,
     \<lparr>site_id = 3, site_vpce = [[0x76], [0x77]], site_cidrs =
        \<lparr>ranges = [\<lparr>range_start = 0x18, range_end = 0x2f\<rparr>], span = (0x18, 0x2f)\<rparr>\<rparr>]"

definition demo_scheme :: scheme where
  "demo_scheme = scheme_new [0xfd, 0x0b, 0x10, 0x03, 0x5e, 0xc0] demo_sites"

lemma demo_sites_ok: "sites_ok demo_sites"
  by code_simp

lemma demo_segs: "segs demo_scheme =
    [(0x10, 0x17, 7), (0x18, 0x1f, 0), (0x20, 0x2f, 3)]"
  by code_simp

section \<open>Properties\<close>

text \<open>
  C15. The segment map gives every address its owner: no site when none claims it, the site
  when exactly one does, and the quarantine site 0 when two or more do, whatever the number,
  order and overlap of their prefixes. The comment on the sweep says that the lowest active id
  wins; the code, like the README, lets no claimant win.
\<close>

theorem addr_site_is_owner:
  assumes "sites_ok sites"
  shows "addr_site (scheme_new prefix sites) a =
    (let C = {site_id s | s. s \<in> set sites \<and> contains (site_cidrs s) a} in
     if C = {} then None else if \<exists>i. C = {i} then Some (the_elem C) else Some SITE_CONTESTED)"
  unfolding addr_site_owner [OF assms] addr_claims_def [symmetric]
  by (auto simp: owner_def is_singleton_def Let_def)

theorem addr_site_is_owner_witness:
  "addr_site demo_scheme 0x1a = Some SITE_CONTESTED \<and>
   (let C = {site_id s | s. s \<in> set demo_sites \<and> contains (site_cidrs s) 0x1a} in
     if C = {} then None else if \<exists>i. C = {i} then Some (the_elem C) else Some SITE_CONTESTED) =
     Some SITE_CONTESTED"
proof -
  have "addr_site demo_scheme 0x1a = Some SITE_CONTESTED"
    by (simp only: addr_site_def demo_segs) code_simp
  then show ?thesis
    using addr_site_is_owner [OF demo_sites_ok] unfolding demo_scheme_def by simp
qed

text \<open>
  The label index does the same for vpce-ids: a label listed by one site, even repeatedly,
  is that site's, and a label of two sites is nobody's but quarantined.
\<close>

lemma label_site_is_owner:
  "label_site (scheme_new prefix sites) v =
    (let C = {site_id s | s. s \<in> set sites \<and> v \<in> set (site_vpce s)} in
     if C = {} then None else if \<exists>i. C = {i} then Some (the_elem C) else Some SITE_CONTESTED)"
  unfolding label_site_owner label_claims_def [symmetric]
  by (auto simp: owner_def is_singleton_def Let_def)

text \<open>
  C29. \<open>range_site\<close> names a site exactly when that site owns every single address of the range;
  a range of mixed or partial ownership has none.
\<close>

theorem range_site_owns_all:
  assumes "sites_ok sites" and "lo \<le> hi"
  shows "range_site (scheme_new prefix sites) lo hi = Some i \<longleftrightarrow>
    (\<forall>a. lo \<le> a \<and> a \<le> hi \<longrightarrow> addr_site (scheme_new prefix sites) a = Some i)"
  using range_site_owner [OF assms] by (simp add: addr_site_owner [OF assms(1)])

theorem range_site_owns_all_witness:
  "range_site demo_scheme 0x20 0x2f = Some 3 \<and> addr_site demo_scheme 0x25 = Some 3"
proof -
  have "range_site demo_scheme 0x20 0x2f = Some 3"
    by (simp only: range_site_def demo_segs) code_simp
  then show ?thesis
    using range_site_owns_all [OF demo_sites_ok, where lo = "0x20" and hi = "0x2f"] unfolding demo_scheme_def by simp
qed

end
