(* ===== verification/Ppv2.thy ===== *)
theory Ppv2
  imports Prelude
begin

text \<open>
  ppv2.rs: the PROXY protocol v2 parser. A read that would panic is \<open>None\<close>, so a parse is
  \<open>(error + header) option\<close>. After the code come the wire format as a specification
  (\<open>wire\<close>, \<open>encode_wire\<close>, \<open>tlv\<close>), the facts about each branch, and the properties: no input
  panics, parsing is the inverse of encoding, and a verdict does not depend on how the bytes
  were cut.
\<close>

section \<open>The code\<close>

definition SIGNATURE :: bytes where
  "SIGNATURE = [0x0d, 0x0a, 0x0d, 0x0a, 0x00, 0x0d, 0x0a, 0x51, 0x55, 0x49, 0x54, 0x0a]"

definition TLV_AWS :: u8 where "TLV_AWS = 0xea"
definition AWS_SUBTYPE_VPCE_ID :: u8 where "AWS_SUBTYPE_VPCE_ID = 0x01"
definition PREAMBLE :: nat where "PREAMBLE = 16"
definition V2_PROXY :: u8 where "V2_PROXY = 0x21"
definition TLV_HEADER :: nat where "TLV_HEADER = 3"
definition MAX_HEADER :: nat where "MAX_HEADER = 256"
definition PORTS :: nat where "PORTS = 4"

lemmas ppv2_consts = TLV_AWS_def AWS_SUBTYPE_VPCE_ID_def PREAMBLE_def V2_PROXY_def
  TLV_HEADER_def MAX_HEADER_def PORTS_def

datatype error = Need nat | Invalid

record header =
  hdr_len :: nat
  hdr_src :: bytes
  hdr_port :: u16
  hdr_v6 :: bool
  hdr_vpce :: bytes

text \<open>
  The walk over the TLVs. The sums of the code stay below \<open>length + 65539\<close>, far from the
  width of \<open>usize\<close>.
\<close>

function find_from :: "bytes \<Rightarrow> nat \<Rightarrow> bytes option" where
  "find_from tlvs i =
     (if i + TLV_HEADER \<le> length tlvs then do {
        hi \<leftarrow> idx tlvs (i + 1);
        lo \<leftarrow> idx tlvs (i + 2);
        let value_len = unat (from_be_bytes [hi, lo] :: u16);
        let stop = i + TLV_HEADER + value_len;
        if length tlvs < stop then Some []
        else do {
          ty \<leftarrow> idx tlvs i;
          hit \<leftarrow> (if ty = TLV_AWS \<and> 1 < value_len
                 then do { sub \<leftarrow> idx tlvs (i + TLV_HEADER); Some (sub = AWS_SUBTYPE_VPCE_ID) }
                 else Some False);
          if hit then slice tlvs (i + TLV_HEADER + 1) stop else find_from tlvs stop
        }
      }
      else Some [])"
  by pat_completeness auto
termination
  by (relation "measure (\<lambda>(tlvs, i). length tlvs - i)") (auto simp: TLV_HEADER_def)

declare find_from.simps [simp del]

definition find_vpce :: "bytes \<Rightarrow> bytes option" where
  "find_vpce tlvs = find_from tlvs 0"

text \<open>\<open>dst[..n].copy_from_slice(from)\<close> panics when the lengths differ.\<close>

definition copy_prefix :: "bytes \<Rightarrow> nat \<Rightarrow> bytes \<Rightarrow> bytes option" where
  "copy_prefix dst n from =
     (if n \<le> length dst \<and> length from = n then Some (from @ drop n dst) else None)"

text \<open>The address block of a whole header, and what it holds of the TLVs.\<close>

definition read_block :: "nat \<Rightarrow> bool \<Rightarrow> bytes \<Rightarrow> (error + header) option" where
  "read_block len v6 body =
     (let addr_size = (if v6 then 16 else 4);
          block_len = addr_size * 2 + PORTS in
      if length body < block_len then Some (Inl Invalid)
      else do {
        addr \<leftarrow> slice body 0 addr_size;
        src \<leftarrow> copy_prefix (replicate 16 0) addr_size addr;
        let port_off = addr_size * 2;
        p \<leftarrow> idx body port_off;
        q \<leftarrow> idx body (port_off + 1);
        tlvs \<leftarrow> slice body block_len (length body);
        vpce \<leftarrow> find_vpce tlvs;
        Some (Inr \<lparr>hdr_len = len, hdr_src = src, hdr_port = from_be_bytes [p, q],
                   hdr_v6 = v6, hdr_vpce = vpce\<rparr>)
      })"

definition parse :: "bytes \<Rightarrow> (error + header) option" where
  "parse buf =
     (if length buf < PREAMBLE then do {
        let n = min (length buf) (length SIGNATURE);
        got \<leftarrow> slice buf 0 n;
        want \<leftarrow> slice SIGNATURE 0 n;
        if got \<noteq> want then Some (Inl Invalid) else Some (Inl (Need PREAMBLE))
      }
      else do {
        sig \<leftarrow> slice buf 0 12;
        bad \<leftarrow> (if sig \<noteq> SIGNATURE then Some True
               else do { cmd \<leftarrow> idx buf 12; Some (cmd \<noteq> V2_PROXY) });
        if bad then Some (Inl Invalid)
        else do {
          hi \<leftarrow> idx buf 14;
          lo \<leftarrow> idx buf 15;
          let len = PREAMBLE + unat (from_be_bytes [hi, lo] :: u16);
          if MAX_HEADER < len then Some (Inl Invalid)
          else if length buf < len then Some (Inl (Need len))
          else do {
            body \<leftarrow> slice buf PREAMBLE len;
            fam \<leftarrow> idx buf 13;
            (let family = drop_bit 4 fam in
             if family \<noteq> 1 \<and> family \<noteq> 2 then Some (Inl Invalid)
             else read_block len (family = 2) body)
          }
        }
      })"

section \<open>The wire format\<close>

text \<open>A TLV is a type, a 16-bit length and that many bytes.\<close>

record tlv =
  tlv_type :: u8
  tlv_value :: bytes

definition encode_tlv :: "tlv \<Rightarrow> bytes" where
  "encode_tlv t = tlv_type t # to_be_bytes 2 (of_nat (length (tlv_value t)) :: u16) @ tlv_value t"

definition encode_tlvs :: "tlv list \<Rightarrow> bytes" where
  "encode_tlvs ts = concat (map encode_tlv ts)"

definition tlv_ok :: "tlv \<Rightarrow> bool" where
  "tlv_ok t \<longleftrightarrow> length (tlv_value t) < 65536"

text \<open>Bytes that do not start with a whole TLV.\<close>

definition no_tlv :: "bytes \<Rightarrow> bool" where
  "no_tlv bs \<longleftrightarrow> length bs < 3 \<or> length bs < 3 + unat (from_be_bytes [bs ! 1, bs ! 2] :: u16)"

text \<open>The endpoint id of a TLV list: the first AWS TLV of subtype 1 with a non-empty id.\<close>

definition is_vpce :: "tlv \<Rightarrow> bool" where
  "is_vpce t \<longleftrightarrow> tlv_type t = TLV_AWS \<and> 1 < length (tlv_value t) \<and>
     hd (tlv_value t) = AWS_SUBTYPE_VPCE_ID"

definition vpce_of :: "tlv list \<Rightarrow> bytes" where
  "vpce_of ts = (case find is_vpce ts of None \<Rightarrow> [] | Some t \<Rightarrow> tl (tlv_value t))"

text \<open>A whole header: family and transport, the address block, and the TLV area.\<close>

record wire =
  w_v6 :: bool
  w_transport :: u8
  w_src :: bytes
  w_dst :: bytes
  w_sport :: u16
  w_dport :: u16
  w_area :: bytes

definition addr_len :: "bool \<Rightarrow> nat" where
  "addr_len v6 = (if v6 then 16 else 4)"

definition wire_body :: "wire \<Rightarrow> bytes" where
  "wire_body w = w_src w @ w_dst w @ to_be_bytes 2 (w_sport w) @ to_be_bytes 2 (w_dport w) @ w_area w"

definition wire_ok :: "wire \<Rightarrow> bool" where
  "wire_ok w \<longleftrightarrow> length (w_src w) = addr_len (w_v6 w) \<and> length (w_dst w) = addr_len (w_v6 w) \<and>
     w_transport w < 16 \<and> PREAMBLE + length (wire_body w) \<le> MAX_HEADER"

definition encode_wire :: "wire \<Rightarrow> bytes" where
  "encode_wire w = SIGNATURE @ [V2_PROXY, (if w_v6 w then 0x20 else 0x10) + w_transport w] @
     to_be_bytes 2 (of_nat (length (wire_body w)) :: u16) @ wire_body w"

section \<open>The TLV walk\<close>

text \<open>The value the walk returns when nothing panics, and the proof that nothing does.\<close>

lemma be16: "unat (from_be_bytes [hi, lo] :: u16) = unat hi * 256 + unat lo"
  by (simp add: unat_from_be_bytes be_nat_def)

lemma length_be16 [simp]: "length (to_be_bytes n w) = n"
  by (induction n arbitrary: w) auto

lemma find_from_step:
  "find_from tlvs i =
     (let value_len = unat (from_be_bytes [tlvs ! (i + 1), tlvs ! (i + 2)] :: u16) in
      if length tlvs < i + 3 \<or> length tlvs < i + 3 + value_len then Some []
      else if tlvs ! i = TLV_AWS \<and> 1 < value_len \<and> tlvs ! (i + 3) = AWS_SUBTYPE_VPCE_ID
      then Some (take (value_len - 1) (drop (i + 4) tlvs))
      else find_from tlvs (i + 3 + value_len))"
  by (subst find_from.simps) (auto simp: TLV_HEADER_def Let_def idx_def slice_def numeral_eq_Suc)

text \<open>The same walk over the remaining bytes instead of an index; it never panics.\<close>

function walk :: "bytes \<Rightarrow> bytes" where
  "walk (ty # hi # lo # rest) =
     (let n = unat (from_be_bytes [hi, lo] :: u16) in
      if length rest < n then []
      else if ty = TLV_AWS \<and> 1 < n \<and> hd rest = AWS_SUBTYPE_VPCE_ID then take (n - 1) (tl rest)
      else walk (drop n rest))"
| "length bs < 3 \<Longrightarrow> walk bs = []"
  by (auto simp: less_Suc_eq_le numeral_eq_Suc) (metis Suc_le_length_iff not_less_eq_eq)
termination by (relation "measure length") auto

lemma find_from_walk: "find_from tlvs i = Some (walk (drop i tlvs))"
proof (induction "length tlvs - i" arbitrary: i rule: less_induct)
  case less
  show ?case
  proof (cases "length tlvs < i + 3")
    case True
    then show ?thesis by (simp add: find_from_step [of tlvs i])
  next
    case False
    then have tail: "drop i tlvs = tlvs ! i # tlvs ! (i + 1) # tlvs ! (i + 2) # drop (i + 3) tlvs"
      by (simp add: Cons_nth_drop_Suc numeral_eq_Suc)
    have next': "find_from tlvs (i + 3 + n) = Some (walk (drop n (drop (i + 3) tlvs)))" for n
      using False less [of "i + 3 + n"] by (simp add: add.commute)
    have "drop (i + 3) tlvs \<noteq> [] \<Longrightarrow> hd (drop (i + 3) tlvs) = tlvs ! (i + 3)"
      by (simp add: hd_drop_conv_nth)
    moreover have "tl (drop (i + 3) tlvs) = drop (i + 4) tlvs"
      by (simp add: tl_drop drop_Suc [symmetric] numeral_eq_Suc)
    ultimately show ?thesis
      using False unfolding tail find_from_step [of tlvs i] next' walk.simps Let_def
      by (auto simp del: drop_drop)
  qed
qed

lemma find_vpce_walk: "find_vpce tlvs = Some (walk tlvs)"
  by (simp add: find_vpce_def find_from_walk)

lemma be16_length: "n < 65536 \<Longrightarrow> unat (from_be_bytes (to_be_bytes 2 (of_nat n :: u16)) :: u16) = n"
  by (simp add: from_to_be_bytes unsigned_of_nat take_bit_nat_eq_self)

lemma to_be_two: "to_be_bytes 2 w = [ucast (drop_bit 8 w), ucast w]"
  by (simp add: numeral_eq_Suc)

lemma walk_tlv:
  assumes "tlv_ok t"
  shows "walk (encode_tlv t @ rest) = (if is_vpce t then tl (tlv_value t) else walk rest)"
  using assms be16_length [of "length (tlv_value t)"]
  by (auto simp: encode_tlv_def to_be_two tlv_ok_def is_vpce_def Let_def hd_append tl_append
      split: list.splits)

lemma walk_no_tlv: "no_tlv bs \<Longrightarrow> walk bs = []"
  by (cases bs rule: walk.cases) (auto simp: no_tlv_def Let_def)

lemma walk_encoded:
  "(\<And>t. t \<in> set ts \<Longrightarrow> tlv_ok t) \<Longrightarrow> no_tlv rest \<Longrightarrow> walk (encode_tlvs ts @ rest) = vpce_of ts"
  by (induction ts) (auto simp: encode_tlvs_def vpce_of_def walk_tlv walk_no_tlv)

text \<open>Every byte string is a TLV list and a rest that starts no TLV.\<close>

lemma decompose_tlvs:
  "\<exists>ts rest. bs = encode_tlvs ts @ rest \<and> (\<forall>t \<in> set ts. tlv_ok t) \<and> no_tlv rest"
proof (induction "length bs" arbitrary: bs rule: less_induct)
  case less
  show ?case
  proof (cases "no_tlv bs")
    case True
    then show ?thesis
      by (intro exI [of _ "[]"] exI [of _ bs]) (simp add: encode_tlvs_def)
  next
    case False
    then obtain ty hi lo rest where bs: "bs = ty # hi # lo # rest"
      by (cases bs rule: walk.cases) (auto simp: no_tlv_def)
    define n where "n = unat (from_be_bytes [hi, lo] :: u16)"
    define t where "t = \<lparr>tlv_type = ty, tlv_value = take n rest\<rparr>"
    have le: "n \<le> length rest" using False by (simp add: bs no_tlv_def n_def)
    have "n < 65536" using unsigned_less [of "from_be_bytes [hi, lo] :: u16"] by (simp add: n_def)
    moreover have "(of_nat n :: u16) = from_be_bytes [hi, lo]" by (simp add: n_def)
    ultimately have t: "tlv_ok t" "bs = encode_tlv t @ drop n rest"
      using le by (simp_all add: bs t_def tlv_ok_def encode_tlv_def to_from_be_bytes)
    have "length (drop n rest) < length bs" by (simp add: bs)
    from less [OF this] obtain ts r where
      "drop n rest = encode_tlvs ts @ r" "\<forall>t \<in> set ts. tlv_ok t" "no_tlv r"
      by blast
    then show ?thesis using t by (intro exI [of _ "t # ts"]) (auto simp: encode_tlvs_def)
  qed
qed

section \<open>The header\<close>

text \<open>The parser with its checked reads discharged.\<close>

definition declared_len :: "bytes \<Rightarrow> nat" where
  "declared_len buf = PREAMBLE + unat (from_be_bytes [buf ! 14, buf ! 15] :: u16)"

definition parse_block :: "bool \<Rightarrow> bytes \<Rightarrow> error + header" where
  "parse_block v6 body =
     (let n = addr_len v6 in
      if length body < 2 * n + 4 then Inl Invalid
      else Inr \<lparr>hdr_len = 16 + length body, hdr_src = take n body @ replicate (16 - n) 0,
                hdr_port = from_be_bytes [body ! (2 * n), body ! (2 * n + 1)], hdr_v6 = v6,
                hdr_vpce = walk (drop (2 * n + 4) body)\<rparr>)"

lemma length_SIGNATURE [simp]: "length SIGNATURE = 12"
  by (simp add: SIGNATURE_def)

lemma parse_short:
  "length buf < 16 \<Longrightarrow>
    parse buf = Some (Inl (if take 12 buf = take (length buf) SIGNATURE then Need 16 else Invalid))"
  by (simp add: parse_def PREAMBLE_def Let_def min_def)

lemma read_block:
  "16 + length body = len \<Longrightarrow> read_block len v6 body = Some (parse_block v6 body)"
  by (cases v6) (auto simp: read_block_def parse_block_def PORTS_def copy_prefix_def addr_len_def
      find_vpce_walk Let_def add.commute)

lemma parse_long:
  assumes "16 \<le> length buf"
  shows "parse buf = Some
    (if take 12 buf \<noteq> SIGNATURE \<or> buf ! 12 \<noteq> V2_PROXY \<or> 256 < declared_len buf then Inl Invalid
     else if length buf < declared_len buf then Inl (Need (declared_len buf))
     else if drop_bit 4 (buf ! 13) \<noteq> 1 \<and> drop_bit 4 (buf ! 13) \<noteq> 2 then Inl Invalid
     else parse_block (drop_bit 4 (buf ! 13) = 2) (take (declared_len buf - 16) (drop 16 buf)))"
proof -
  define len where "len = declared_len buf"
  define body where "body = take (len - 16) (drop 16 buf)"
  define family where "family = drop_bit 4 (buf ! 13)"
  have len: "16 + unat (from_be_bytes [buf ! 14, buf ! 15] :: u16) = len"
    by (simp add: len_def declared_len_def PREAMBLE_def)
  have reads: "slice buf 0 12 = Some (take 12 buf)" "idx buf 12 = Some (buf ! 12)"
    "idx buf 13 = Some (buf ! 13)" "idx buf 14 = Some (buf ! 14)" "idx buf 15 = Some (buf ! 15)"
    using assms by simp_all
  have body: "slice buf 16 len = Some body" "16 + length body = len" if "\<not> length buf < len"
    using that len by (simp_all add: body_def)
  have cap: "240 < unat (from_be_bytes [buf ! 14, buf ! 15] :: u16) \<longleftrightarrow> 256 < len"
    using len by arith
  show ?thesis
    unfolding parse_def PREAMBLE_def reads MAX_HEADER_def len_def [symmetric] body_def [symmetric]
      family_def [symmetric]
    using assms by (simp add: len cap body Let_def read_block [OF body(2)] family_def [symmetric])
qed

lemma parse_total: "\<exists>r. parse buf = Some r"
  by (cases "length buf < 16") (simp_all only: parse_short parse_long not_less, auto)

section \<open>More bytes\<close>

lemma declared_len_append: "16 \<le> length buf \<Longrightarrow> declared_len (buf @ tail) = declared_len buf"
  by (simp add: declared_len_def nth_append)

lemma parse_need:
  assumes "parse buf = Some (Inl (Need n))"
  shows "length buf < n" and "n \<le> 256"
    and "n = (if length buf < 16 then 16 else declared_len buf)"
proof -
  show "n = (if length buf < 16 then 16 else declared_len buf)"
    using assms
    by (cases "length buf < 16")
      (auto simp: parse_short parse_long not_less parse_block_def Let_def split: if_splits)
  then show "length buf < n" and "n \<le> 256"
    using assms
    by (cases "length buf < 16";
        auto simp: parse_short parse_long not_less parse_block_def Let_def split: if_splits)+
qed

lemma parse_final:
  assumes "parse buf = Some r" and "\<And>n. r \<noteq> Inl (Need n)"
  shows "parse (buf @ tail) = Some r"
proof (cases "length buf < 16")
  case True
  then have bad: "take 12 buf \<noteq> take (length buf) SIGNATURE" and r: "r = Inl Invalid"
    using assms by (auto simp: parse_short split: if_splits)
  have cut: "take 12 buf = take (length buf) (take 12 (buf @ tail))"
    by (simp add: min_def)
  have differ: "take 12 (buf @ tail) \<noteq> take k SIGNATURE" if "min 12 (length buf) \<le> k" for k
  proof
    assume "take 12 (buf @ tail) = take k SIGNATURE"
    then have "take 12 buf = take (length buf) (take k SIGNATURE)" by (simp only: cut)
    also have "\<dots> = take (min (length buf) (min k 12)) SIGNATURE" by (simp add: min_def)
    also have "min (length buf) (min k 12) = min (length buf) 12" using that by (auto simp: min_def)
    also have "take (min (length buf) 12) SIGNATURE = take (length buf) SIGNATURE"
      by (simp add: min_def)
    finally show False using bad by contradiction
  qed
  show ?thesis
    using differ [of "length (buf @ tail)"] differ [of 12] r
    by (cases "length (buf @ tail) < 16") (simp_all add: parse_short parse_long)
next
  case False
  have nth: "(buf @ tail) ! 12 = buf ! 12" "(buf @ tail) ! 13 = buf ! 13"
    using False by (simp_all add: nth_append)
  show ?thesis
  proof (cases "length buf < declared_len buf \<and> \<not> 256 < declared_len buf \<and>
      take 12 buf = SIGNATURE \<and> buf ! 12 = V2_PROXY")
    case True
    then have "r = Inl (Need (declared_len buf))" using assms(1) \<open>\<not> length buf < 16\<close> by (simp add: parse_long)
    then show ?thesis using assms(2) by blast
  next
    case False
    then show ?thesis
      using assms(1) \<open>\<not> length buf < 16\<close>
      by (auto simp: parse_long not_less nth declared_len_append split: if_splits)
  qed
qed

section \<open>Parsing is the inverse of encoding\<close>

lemma family_byte:
  fixes t :: u8
  assumes "t < 16"
  shows "drop_bit 4 ((if v6 then 0x20 else 0x10) + t) = (if v6 then 2 else 1)"
proof -
  have t: "unat t < 16" using assms by (simp add: word_less_nat_alt)
  have "unat ((if v6 then 0x20 else 0x10) + t) = (if v6 then 32 else 16) + unat t"
    using t by (simp add: unat_word_ariths)
  then have "unat (drop_bit 4 ((if v6 then 0x20 else 0x10) + t)) = (if v6 then 2 else 1)"
    using t by (cases v6) (simp_all add: unsigned_drop_bit_eq drop_bit_eq_div [where 'a = nat]
      take_bit_nat_eq_self div_nat_eqI)
  then show ?thesis by (cases v6) (simp_all add: word_unat_eq_iff)
qed

lemma family_byte_inv:
  fixes b :: u8
  assumes "drop_bit 4 b = (if v6 then 2 else 1)"
  shows "\<exists>t < 16. b = (if v6 then 0x20 else 0x10) + t"
proof -
  let ?k = "if v6 then 0x20 else 0x10 :: u8"
  have "unat (drop_bit 4 b) = (if v6 then 2 else 1)" using assms by simp
  then have "unat b div 16 = (if v6 then 2 else 1)"
    by (simp add: unsigned_drop_bit_eq drop_bit_eq_div [where 'a = nat] take_bit_nat_eq_self)
  then have k: "unat ?k \<le> unat b" "unat b < unat ?k + 16" by (cases v6; simp; linarith)+
  then have "unat (b - ?k) = unat b - unat ?k" by (intro unat_sub) (simp add: word_le_nat_alt)
  then have "b - ?k < 16" using k by (simp add: word_less_nat_alt)
  then show ?thesis by (intro exI [of _ "b - ?k"]) simp
qed

definition header_of :: "wire \<Rightarrow> header" where
  "header_of w = \<lparr>hdr_len = 16 + length (wire_body w),
     hdr_src = w_src w @ replicate (16 - addr_len (w_v6 w)) 0, hdr_port = w_sport w,
     hdr_v6 = w_v6 w, hdr_vpce = walk (w_area w)\<rparr>"

lemma wire_nth:
  "encode_wire w ! 12 = V2_PROXY"
  "encode_wire w ! 13 = (if w_v6 w then 0x20 else 0x10) + w_transport w"
  "take 12 (encode_wire w) = SIGNATURE"
  "drop 16 (encode_wire w) = wire_body w"
  "length (encode_wire w) = 16 + length (wire_body w)"
  by (simp_all add: encode_wire_def nth_append to_be_two)

lemma declared_len_wire:
  "length (wire_body w) < 65536 \<Longrightarrow> declared_len (encode_wire w) = 16 + length (wire_body w)"
  using be16_length [of "length (wire_body w)"]
  by (simp add: declared_len_def encode_wire_def nth_append to_be_two PREAMBLE_def)

lemma parse_block_wire:
  assumes "wire_ok w"
  shows "parse_block (w_v6 w) (wire_body w) = Inr (header_of w)"
proof -
  let ?n = "addr_len (w_v6 w)"
  have l: "length (w_src w) = ?n" "length (w_dst w) = ?n" using assms by (simp_all add: wire_ok_def)
  have "wire_body w ! (2 * ?n) = ucast (drop_bit 8 (w_sport w))"
    and "wire_body w ! (2 * ?n + 1) = ucast (w_sport w)"
    using l by (simp_all add: wire_body_def nth_append to_be_two)
  moreover have "from_be_bytes [ucast (drop_bit 8 (w_sport w)), ucast (w_sport w)] = w_sport w"
    using from_to_be_bytes [of 2 "w_sport w"] by (simp add: to_be_two)
  moreover have "drop (2 * ?n + 4) (wire_body w) = w_area w"
    using l by (simp add: wire_body_def)
  moreover have "2 * ?n + 4 \<le> length (wire_body w)"
    using l by (simp add: wire_body_def)
  ultimately show ?thesis
    using l by (simp add: parse_block_def header_of_def Let_def) (simp add: wire_body_def)
qed

lemma parse_encode_wire:
  assumes "wire_ok w"
  shows "parse (encode_wire w @ payload) = Some (Inr (header_of w))"
proof -
  have size: "16 + length (wire_body w) \<le> 256" "w_transport w < 16"
    using assms by (simp_all add: wire_ok_def ppv2_consts)
  then have "declared_len (encode_wire w) = 16 + length (wire_body w)"
    by (intro declared_len_wire) simp
  then have "parse (encode_wire w) = Some (Inr (header_of w))"
    using size parse_block_wire [OF assms] family_byte [OF size(2), of "w_v6 w"]
    by (cases "w_v6 w") (simp_all add: parse_long wire_nth)
  then show ?thesis by (rule parse_final) simp
qed

text \<open>Conversely, whatever parses is an encoding.\<close>

definition wire_of :: "bool \<Rightarrow> u8 \<Rightarrow> bytes \<Rightarrow> wire" where
  "wire_of v6 t body = (let n = addr_len v6 in
     \<lparr>w_v6 = v6, w_transport = t, w_src = take n body, w_dst = take n (drop n body),
      w_sport = from_be_bytes (take 2 (drop (2 * n) body)),
      w_dport = from_be_bytes (take 2 (drop (2 * n + 2) body)), w_area = drop (2 * n + 4) body\<rparr>)"

lemma wire_body_of:
  assumes "2 * addr_len v6 + 4 \<le> length body"
  shows "wire_body (wire_of v6 t body) = body"
proof -
  let ?n = "addr_len v6"
  have two: "to_be_bytes 2 (from_be_bytes (take 2 (drop k body)) :: u16) = take 2 (drop k body)"
    if "k + 2 \<le> length body" for k
    using that by (intro to_from_be_bytes) auto
  have "wire_body (wire_of v6 t body) =
    take ?n body @ take ?n (drop ?n body) @ take 2 (drop (2 * ?n) body) @
    take 2 (drop (2 * ?n + 2) body) @ drop (2 * ?n + 4) body"
    using assms two [of "2 * ?n"] two [of "2 * ?n + 2"]
    by (simp add: wire_body_def wire_of_def Let_def)
  also have "\<dots> = take ?n body @ take ?n (drop ?n body) @ take 2 (drop (2 * ?n) body) @
    drop (2 * ?n + 2) body"
  proof -
    have "drop (2 * ?n + 4) body = drop 2 (drop (2 * ?n + 2) body)" by (simp add: numeral_eq_Suc)
    then show ?thesis by (simp only: append_take_drop_id)
  qed
  also have "\<dots> = take ?n body @ take ?n (drop ?n body) @ drop (2 * ?n) body"
  proof -
    have "drop (2 * ?n + 2) body = drop 2 (drop (2 * ?n) body)" by simp
    then show ?thesis by (simp only: append_take_drop_id)
  qed
  also have "\<dots> = take ?n body @ drop ?n body"
    using append_take_drop_id [of ?n "drop ?n body"] by (simp add: mult_2)
  finally show ?thesis by simp
qed

lemma parse_Inr_encoded:
  assumes "parse buf = Some (Inr h)"
  obtains w payload where "wire_ok w" and "buf = encode_wire w @ payload" and "h = header_of w"
proof -
  let ?len = "declared_len buf"
  define body where "body = take (?len - 16) (drop 16 buf)"
  have long: "16 \<le> length buf"
    using assms parse_short [of buf] by (cases "length buf < 16") auto
  have ge: "16 \<le> ?len" by (simp add: declared_len_def PREAMBLE_def)
  have facts: "take 12 buf = SIGNATURE" "buf ! 12 = V2_PROXY" "?len \<le> 256" "?len \<le> length buf"
    using assms long by (auto simp: parse_long split: if_splits)
  define v6 where "v6 \<longleftrightarrow> drop_bit 4 (buf ! 13) = 2"
  have fam: "drop_bit 4 (buf ! 13) = (if v6 then 2 else 1)" and blk: "parse_block v6 body = Inr h"
    using assms long facts by (auto simp: parse_long body_def v6_def split: if_splits)
  from family_byte_inv [OF fam] obtain t where t: "t < 16" "buf ! 13 = (if v6 then 0x20 else 0x10) + t"
    by blast
  have enough: "2 * addr_len v6 + 4 \<le> length body"
    using blk by (auto simp: parse_block_def Let_def split: if_splits)
  define w where "w = wire_of v6 t body"
  have w: "wire_body w = body" "w_v6 w = v6" "w_transport w = t"
    using wire_body_of [OF enough] by (simp_all add: w_def wire_of_def Let_def)
  have lenb: "length body = ?len - 16" using facts by (simp add: body_def)
  have ok: "wire_ok w"
    using enough t facts lenb ge
    by (simp add: wire_ok_def w) (simp add: w_def wire_of_def Let_def ppv2_consts)
  have "h = header_of w" using parse_block_wire [OF ok] blk by (simp add: w)
  moreover have "buf = encode_wire w @ drop ?len buf"
  proof -
    have "(of_nat (length body) :: u16) = from_be_bytes [buf ! 14, buf ! 15]"
      by (simp add: lenb declared_len_def PREAMBLE_def)
    then have "to_be_bytes 2 (of_nat (length body) :: u16) = [buf ! 14, buf ! 15]"
      using to_from_be_bytes [of "[buf ! 14, buf ! 15]" 2, where 'w = 16] by simp
    then have "encode_wire w = take 12 buf @ [buf ! 12, buf ! 13, buf ! 14, buf ! 15] @ body"
      using t facts by (simp add: encode_wire_def w)
    also have "take 12 buf @ [buf ! 12, buf ! 13, buf ! 14, buf ! 15] @ body = take 16 buf @ body"
      using long by (simp add: take_Suc_conv_app_nth numeral_eq_Suc)
    also have "\<dots> = take ?len buf"
      using ge by (simp add: body_def flip: take_add)
    finally show ?thesis by simp
  qed
  ultimately show thesis using ok that by blast
qed

lemma parse_Inr_len:
  assumes "parse buf = Some (Inr h)"
  shows "16 \<le> length buf" and "hdr_len h = declared_len buf"
    and "hdr_len h \<le> length buf" and "hdr_len h \<le> 256" and "16 \<le> hdr_len h"
proof -
  from assms show long: "16 \<le> length buf"
    using parse_short [of buf] by (cases "length buf < 16") auto
  show "hdr_len h = declared_len buf" "hdr_len h \<le> length buf" "hdr_len h \<le> 256" "16 \<le> hdr_len h"
    using assms long
    by (auto simp: parse_long parse_block_def declared_len_def PREAMBLE_def Let_def split: if_splits)
qed

lemma parse_need_sound:
  assumes "parse buf = Some (Inl (Need n))" and "parse (buf @ tail) = Some (Inr h)"
  shows "n \<le> hdr_len h"
  using parse_need(3) [OF assms(1)] parse_Inr_len [OF assms(2)] declared_len_append [of buf tail]
  by (cases "length buf < 16") auto

lemma parse_need_progress:
  assumes "parse buf = Some (Inl (Need n))" and "n \<le> length (buf @ tail)"
    and "parse (buf @ tail) = Some (Inl (Need m))"
  shows "n < m"
  using parse_need(1) [OF assms(3)] assms(2) by simp

section \<open>Properties\<close>

text \<open>
  No input makes the parser or its TLV walk panic: every index and slice the code takes
  is in bounds, whatever the bytes.
\<close>

lemma parse_never_panics:
  "parse buf \<noteq> None \<and> find_vpce tlvs \<noteq> None"
  using parse_total [of buf] by (auto simp: find_vpce_walk)

text \<open>
  C5. The parser accepts exactly the encodings of well-formed headers followed by any payload,
  and returns what was encoded: the source address padded to 16 bytes, the source port, the
  family, the total length, and as endpoint id that of the first AWS TLV of subtype 1 with a
  non-empty id, for the TLVs that are whole (a cut-short TLV ends the list).
\<close>

theorem parse_inverse_of_encoding:
  "parse buf = Some (Inr h) =
    (\<exists>w ts rest payload. wire_ok w \<and> w_area w = encode_tlvs ts @ rest \<and> list_all tlv_ok ts \<and>
       no_tlv rest \<and> buf = encode_wire w @ payload \<and>
       h = \<lparr>hdr_len = length (encode_wire w),
            hdr_src = w_src w @ replicate (16 - length (w_src w)) 0,
            hdr_port = w_sport w, hdr_v6 = w_v6 w, hdr_vpce = vpce_of ts\<rparr>)"
  (is "_ = (\<exists>w ts rest payload. ?enc w ts rest payload)")
proof
  assume "parse buf = Some (Inr h)"
  then obtain w payload where w: "wire_ok w" "buf = encode_wire w @ payload" "h = header_of w"
    by (rule parse_Inr_encoded)
  obtain ts rest where area: "w_area w = encode_tlvs ts @ rest" "list_all tlv_ok ts" "no_tlv rest"
    using decompose_tlvs [of "w_area w"] by (auto simp: list_all_iff)
  then have "hdr_vpce h = vpce_of ts" by (simp add: w header_of_def walk_encoded list_all_iff)
  with w area have "?enc w ts rest payload"
    by (auto simp: header_of_def wire_ok_def wire_nth)
  then show "\<exists>w ts rest payload. ?enc w ts rest payload" by blast
next
  assume "\<exists>w ts rest payload. ?enc w ts rest payload"
  then obtain w ts rest payload where enc: "?enc w ts rest payload" by blast
  then have "h = header_of w"
    by (simp add: header_of_def walk_encoded list_all_iff wire_ok_def wire_nth)
  then show "parse buf = Some (Inr h)" using enc parse_encode_wire by auto
qed

theorem parse_inverse_of_encoding_witness:
  "parse (encode_wire \<lparr>w_v6 = False, w_transport = 1, w_src = [10, 0, 0, 7], w_dst = [10, 0, 0, 9],
      w_sport = 40000, w_dport = 443,
      w_area = [0x03, 0, 4, 1, 2, 3, 4, 0xea, 0, 3, 1, 0x76, 0x31, 0x04, 0, 9]\<rparr> @ [0x47, 0x45]) =
    Some (Inr \<lparr>hdr_len = 44, hdr_src = [10, 0, 0, 7, 0, 0, 0, 0, 0, 0, 0, 0, 0, 0, 0, 0],
      hdr_port = 40000, hdr_v6 = False, hdr_vpce = [0x76, 0x31]\<rparr>)"
proof -
  let ?ts = "[\<lparr>tlv_type = 0x03, tlv_value = [1, 2, 3, 4]\<rparr>, \<lparr>tlv_type = 0xea, tlv_value = [1, 0x76, 0x31]\<rparr>]"
  let ?w = "\<lparr>w_v6 = False, w_transport = 1, w_src = [10, 0, 0, 7], w_dst = [10, 0, 0, 9],
      w_sport = 40000, w_dport = 443,
      w_area = [0x03, 0, 4, 1, 2, 3, 4, 0xea, 0, 3, 1, 0x76, 0x31, 0x04, 0, 9]\<rparr>"
  have "wire_ok ?w" "w_area ?w = encode_tlvs ?ts @ [0x04, 0, 9]" "list_all tlv_ok ?ts"
    "no_tlv [0x04, 0, 9]" "length (encode_wire ?w) = 44" "vpce_of ?ts = [0x76, 0x31]"
    by code_simp+
  then show ?thesis
    unfolding parse_inverse_of_encoding
    by (intro exI [of _ ?w] exI [of _ ?ts] exI [of _ "[0x04, 0, 9]"] exI [of _ "[0x47, 0x45]"])
      (simp add: numeral_eq_Suc)
qed

text \<open>
  C35. The verdict does not depend on how the stream was cut. A verdict other than \<open>Need\<close> stands
  whatever arrives afterwards. \<open>Need n\<close> asks for more than is there and at most
  \<open>MAX_HEADER\<close>, never for more than the header that eventually parses, and once \<open>n\<close> bytes are
  there it can only ask for more than \<open>n\<close>.
\<close>

theorem verdict_independent_of_segmentation:
  "case parse buf of
     Some (Inl (Need n)) \<Rightarrow> length buf < n \<and> n \<le> MAX_HEADER \<and>
       (\<forall>tail h. parse (buf @ tail) = Some (Inr h) \<longrightarrow> n \<le> hdr_len h) \<and>
       (\<forall>tail m. n \<le> length (buf @ tail) \<longrightarrow> parse (buf @ tail) = Some (Inl (Need m)) \<longrightarrow> n < m)
   | verdict \<Rightarrow> \<forall>tail. parse (buf @ tail) = verdict"
  using parse_total [of buf] parse_final [of buf] parse_need [of buf] parse_need_sound [of buf]
    parse_need_progress [of buf]
  by (auto simp: MAX_HEADER_def split: option.split sum.split error.split)

theorem verdict_independent_of_segmentation_witness:
  "(\<forall>tail. parse ([0x0d, 0x0a, 0x47] @ tail) = Some (Inl Invalid)) \<and>
   \<not> (\<exists>tail h. parse ([0x0d, 0x0a] @ tail) = Some (Inr h) \<and> hdr_len h < 16)"
proof -
  have "parse [0x0d, 0x0a, 0x47] = Some (Inl Invalid)" "parse [0x0d, 0x0a] = Some (Inl (Need 16))"
    by code_simp+
  then show ?thesis
    using verdict_independent_of_segmentation [of "[0x0d, 0x0a, 0x47]"]
      verdict_independent_of_segmentation [of "[0x0d, 0x0a]"] by (simp add: not_less)
qed

end
