(* ===== verification/Identity.thy ===== *)
theory Identity
  imports Scheme Ppv2
begin

text \<open>
  identity.rs, the encodings: \<open>synthesize\<close> gives a header its IPv6 identity, \<open>encode_member\<close>
  gives a configured source the prefix that stands for it, and the address texts go through
  a fixed buffer. SHA-256 is not code of the repository: it is the parameter \<open>sha\<close>, of which
  only the digest length is used (\<open>sha256_ok\<close>). The specification fixes the layout of the
  three kinds of identity; the last part shows that the two encodings meet.
\<close>

section \<open>The code\<close>

text \<open>\<open>out[i..].copy_from_slice(bs)\<close> into a fixed array, at constant offsets that fit.\<close>

definition splice :: "bytes \<Rightarrow> nat \<Rightarrow> bytes \<Rightarrow> bytes" where
  "splice out i bs = take i out @ bs @ drop (i + length bs) out"

definition to_u128 :: "bytes \<Rightarrow> u128" where
  "to_u128 addr = from_be_bytes addr"

record site_match =
  m_id :: u16
  m_inner :: bool

definition mapped :: "header \<Rightarrow> u128" where
  "mapped h =
     (if hdr_v6 h then to_u128 (hdr_src h)
      else to_u128 (splice ((replicate 16 0)[10 := 0xff, 11 := 0xff]) 12 (take 4 (hdr_src h))))"

definition site_of :: "scheme \<Rightarrow> header \<Rightarrow> site_match option" where
  "site_of sch h =
     (case (if hdr_vpce h \<noteq> [] then label_site sch (hdr_vpce h) else None) of
        Some sid \<Rightarrow> Some \<lparr>m_id = sid, m_inner = True\<rparr>
      | None \<Rightarrow> map_option (\<lambda>sid. \<lparr>m_id = sid, m_inner = False\<rparr>) (addr_site sch (mapped h)))"

definition synthesize :: "(bytes \<Rightarrow> bytes) \<Rightarrow> scheme \<Rightarrow> header \<Rightarrow> bytes" where
  "synthesize sha sch h =
     (let out = splice (replicate 16 0) 0 (sch_prefix sch) in
      case site_of sch h of
        Some m \<Rightarrow>
          (let out = splice out 6 (to_be_bytes 2 KIND_SITE);
               out = splice out 10 (to_be_bytes 2 (m_id m))
           in if m_inner m \<and> \<not> hdr_v6 h then splice out 12 (take 4 (hdr_src h)) else out)
      | None \<Rightarrow>
          if hdr_vpce h \<noteq> [] then
            (let out = splice out 6 (to_be_bytes 2 KIND_VPCE);
                 out = splice out 8 (take 4 (sha (hdr_vpce h)))
             in if \<not> hdr_v6 h then splice out 12 (take 4 (hdr_src h)) else out)
          else if hdr_v6 h then hdr_src h
          else splice (splice out 6 (to_be_bytes 2 KIND_ADDR)) 12 (take 4 (hdr_src h)))"

text \<open>The text buffer: 46 bytes and a fill length.\<close>

record addr_text =
  at_buf :: bytes
  at_len :: nat

definition new_text :: addr_text where
  "new_text = \<lparr>at_buf = replicate 46 0, at_len = 0\<rparr>"

definition as_str :: "addr_text \<Rightarrow> string" where
  "as_str t = (case from_utf8 (take (at_len t) (at_buf t)) of Some s \<Rightarrow> s | None \<Rightarrow> [])"

definition write_str :: "addr_text \<Rightarrow> string \<Rightarrow> addr_text option" where
  "write_str t s =
     (let stop = at_len t + length s in
      if length (at_buf t) < stop then None
      else Some \<lparr>at_buf = splice (at_buf t) (at_len t) (as_bytes s), at_len = stop\<rparr>)"

text \<open>\<open>let _ = write!(t, ...)\<close>: the pieces of a \<open>Display\<close>, up to the first error.\<close>

fun write_pieces :: "addr_text \<Rightarrow> string list \<Rightarrow> addr_text" where
  "write_pieces t [] = t"
| "write_pieces t (s # ss) = (case write_str t s of None \<Rightarrow> t | Some t' \<Rightarrow> write_pieces t' ss)"

definition format :: "bytes \<Rightarrow> addr_text" where
  "format addr = write_pieces new_text (write_ipv6 addr)"

definition format_src :: "bytes \<Rightarrow> bool \<Rightarrow> addr_text" where
  "format_src src v6 =
     (if v6 then write_pieces new_text (write_ipv6 src)
      else write_pieces new_text (write_ipv4 [src ! 0, src ! 1, src ! 2, src ! 3]))"

definition parse_prefix :: "string \<Rightarrow> string + prefix48" where
  "parse_prefix text =
     and_then (case split_once CHR ''/'' text of
         Some (ip, b) \<Rightarrow> map_sum (\<lambda>e. e) (\<lambda>n. (ip, Some n)) (ok_or ''bad prefix length'' (parse_uint 255 b))
       | None \<Rightarrow> Inr (text, None)) (\<lambda>(ip_text, bits).
     and_then (ok_or ''bad IPv6 address'' (parse_ipv6 ip_text)) (\<lambda>o'.
       if bits \<noteq> None \<and> bits \<noteq> Some 48 then Inl ''prefix must be /48''
       else if o' ! 0 AND 0xfe \<noteq> 0xfc then Inl ''not unique-local''
       else if list_ex (\<lambda>b. b \<noteq> 0) (drop 6 o') then Inl ''prefix has bits set below /48''
       else Inr (take 6 o')))"

definition range_of :: "u128 \<Rightarrow> nat \<Rightarrow> u128 \<times> u128" where
  "range_of addr bits =
     (if bits = 0 then (0, - 1)
      else (let mask = push_bit (128 - bits) (- 1)
            in (addr AND mask, (addr AND mask) OR NOT mask)))"

definition site_space :: "prefix48 \<Rightarrow> u16 \<Rightarrow> string" where
  "site_space prefix sid =
     (let out = splice (replicate 16 0) 0 prefix;
          out = splice out 6 (to_be_bytes 2 KIND_SITE);
          out = splice out 10 (to_be_bytes 2 sid)
      in as_str (format out) @ ''/96'')"

definition encode_all_sites :: "scheme \<Rightarrow> string list" where
  "encode_all_sites sch = map (\<lambda>s. site_space (sch_prefix sch) (site_id s)) (sch_sites sch)"

text \<open>
  The three readings of a member: a resolvable site reference, an address with an optional
  width, anything else a label.
\<close>

definition site_ref :: "scheme \<Rightarrow> string \<Rightarrow> u16 option" where
  "site_ref sch member =
     (case Option.bind (strip_char CHR ''!'' member) (parse_uint 65535) of
        None \<Rightarrow> None
      | Some n \<Rightarrow> (let sid = of_nat n in
          if sid = SITE_CONTESTED \<or> list_ex (\<lambda>s. site_id s = sid) (sch_sites sch) then Some sid else None))"

definition member_split :: "string \<Rightarrow> string \<times> string option" where
  "member_split member =
     (case split_once CHR ''/'' member of Some (a, w) \<Rightarrow> (a, Some w) | None \<Rightarrow> (member, None))"

definition member_bits :: "string option \<Rightarrow> nat \<Rightarrow> nat option" where
  "member_bits width max' =
     (case width of
        None \<Rightarrow> Some max'
      | Some w \<Rightarrow> (case parse_uint 255 w of
          None \<Rightarrow> None | Some b \<Rightarrow> if b \<le> max' then Some b else None))"

definition encode_member :: "(bytes \<Rightarrow> bytes) \<Rightarrow> scheme \<Rightarrow> string \<Rightarrow> string" where
  "encode_member sha sch member =
     (case site_ref sch member of
        Some sid \<Rightarrow> site_space (sch_prefix sch) sid
      | None \<Rightarrow> (case member_split member of (addr_text, width) \<Rightarrow>
          (case (parse_ipv4 addr_text, member_bits width 32) of
             (Some v4, Some b) \<Rightarrow>
               (let base = 0xffff00000000 OR ucast (from_be_bytes v4 :: u32) in
                case range_of base (96 + b) of (lo, hi) \<Rightarrow>
                  (case range_site sch lo hi of
                     Some sid \<Rightarrow> site_space (sch_prefix sch) sid
                   | None \<Rightarrow>
                       (let out = splice (replicate 16 0) 0 (sch_prefix sch);
                            out = splice out 6 (to_be_bytes 2 KIND_ADDR);
                            out = splice out 12 v4
                        in as_str (format out) @ ''/'' @ show_nat 10 (96 + b))))
           | _ \<Rightarrow> (case (parse_ipv6 addr_text, member_bits width 128) of
               (Some v6, Some b) \<Rightarrow>
                 (case range_of (to_u128 v6) b of (lo, hi) \<Rightarrow>
                   (case range_site sch lo hi of
                      Some sid \<Rightarrow> site_space (sch_prefix sch) sid
                    | None \<Rightarrow> show_ipv6 v6 @ ''/'' @ show_nat 10 b))
             | _ \<Rightarrow>
                 (case label_site sch (as_bytes member) of
                    Some sid \<Rightarrow> site_space (sch_prefix sch) sid
                  | None \<Rightarrow>
                      (let out = splice (replicate 16 0) 0 (sch_prefix sch);
                           out = splice out 6 (to_be_bytes 2 KIND_VPCE);
                           out = splice out 8 (take 4 (sha (as_bytes member)))
                       in as_str (format out) @ ''/96''))))))"

section \<open>Texts\<close>

text \<open>Written pieces are the text, as long as they fit.\<close>

lemma write_pieces_fit:
  assumes "at_len t + length (concat ss) \<le> length (at_buf t)"
  shows "at_len (write_pieces t ss) = at_len t + length (concat ss)"
    and "take (at_len (write_pieces t ss)) (at_buf (write_pieces t ss)) =
      take (at_len t) (at_buf t) @ as_bytes (concat ss)"
proof -
  have "at_len (write_pieces t ss) = at_len t + length (concat ss) \<and>
    take (at_len (write_pieces t ss)) (at_buf (write_pieces t ss)) =
      take (at_len t) (at_buf t) @ as_bytes (concat ss)"
    using assms
  proof (induction ss arbitrary: t)
    case Nil
    then show ?case by (simp add: as_bytes_def)
  next
    case (Cons s ss)
    define t' where "t' = \<lparr>at_buf = splice (at_buf t) (at_len t) (as_bytes s), at_len = at_len t + length s\<rparr>"
    have w: "write_str t s = Some t'" using Cons.prems by (simp add: write_str_def t'_def)
    have "length (at_buf t') = length (at_buf t)" using Cons.prems by (simp add: t'_def splice_def)
    then have fit: "at_len t' + length (concat ss) \<le> length (at_buf t')"
      using Cons.prems by (simp add: t'_def)
    have "take (at_len t') (at_buf t') = take (at_len t) (at_buf t) @ as_bytes s"
      using Cons.prems by (simp add: t'_def splice_def)
    then show ?case using Cons.IH [OF fit] w by (auto simp: t'_def)
  qed
  then show "at_len (write_pieces t ss) = at_len t + length (concat ss)"
    and "take (at_len (write_pieces t ss)) (at_buf (write_pieces t ss)) =
      take (at_len t) (at_buf t) @ as_bytes (concat ss)" by blast+
qed

lemma as_str_pieces:
  assumes "length (concat ss) \<le> 46" and "\<And>b. b \<in> set (as_bytes (concat ss)) \<Longrightarrow> b \<le> 0x7F"
  shows "as_str (write_pieces new_text ss) = concat ss"
  using write_pieces_fit [of new_text ss] assms from_utf8_ascii [of "concat ss"]
  by (simp add: new_text_def as_str_def)

lemma as_str_format: "length os = 16 \<Longrightarrow> as_str (format os) = show_ipv6 os"
  using as_str_pieces [of "write_ipv6 os"] length_show_ipv6 [of os] show_ipv6_ascii [of _ os]
  by (simp add: format_def show_ipv6_def)

lemma as_str_format_src:
  assumes "length src = 16"
  shows "as_str (format_src src v6) = (if v6 then show_ipv6 src else show_ipv4 (take 4 src))"
proof (cases v6)
  case True
  then show ?thesis using as_str_format [OF assms] by (simp add: format_src_def format_def)
next
  case False
  have four: "[src ! 0, src ! 1, src ! 2, src ! 3] = take 4 src"
    using assms by (auto simp: numeral_eq_Suc take_Suc_conv_app_nth)
  then show ?thesis
    using False as_str_pieces [of "write_ipv4 (take 4 src)"] length_show_ipv4 [of "take 4 src"]
      show_ipv4_ascii [of _ "take 4 src"]
    by (simp add: format_src_def show_ipv4_def)
qed

section \<open>Layouts\<close>

text \<open>The three kinds of identity inside the /48: prefix, kind, body, IPv4 of the client.\<close>

definition site_addr :: "prefix48 \<Rightarrow> u16 \<Rightarrow> bytes \<Rightarrow> bytes" where
  "site_addr prefix sid host = prefix @ [0x0b, 0x1a, 0, 0] @ to_be_bytes 2 sid @ host"

definition vpce_addr :: "prefix48 \<Rightarrow> bytes \<Rightarrow> bytes \<Rightarrow> bytes" where
  "vpce_addr prefix digest host = prefix @ [0, 1] @ digest @ host"

definition v4_addr :: "prefix48 \<Rightarrow> bytes \<Rightarrow> bytes" where
  "v4_addr prefix host = prefix @ [0, 4, 0, 0, 0, 0] @ host"

definition no_host :: bytes where "no_host = [0, 0, 0, 0]"

text \<open>What is documented of the digest.\<close>

definition sha256_ok :: "(bytes \<Rightarrow> bytes) \<Rightarrow> bool" where
  "sha256_ok sha \<longleftrightarrow> (\<forall>m. length (sha m) = 32)"

definition header_ok :: "header \<Rightarrow> bool" where
  "header_ok h \<longleftrightarrow> length (hdr_src h) = 16"

definition prefix_ok :: "prefix48 \<Rightarrow> bool" where
  "prefix_ok p \<longleftrightarrow> length p = 6"

lemma parsed_header_ok: "parse buf = Some (Inr h) \<Longrightarrow> header_ok h"
  by (elim parse_Inr_encoded) (simp add: header_ok_def header_of_def wire_ok_def addr_len_def)

lemma kind_bytes:
  "to_be_bytes 2 KIND_SITE = [0x0b, 0x1a]" "to_be_bytes 2 KIND_VPCE = [0, 1]" "to_be_bytes 2 KIND_ADDR = [0, 4]"
  by code_simp+

lemma six_bytes: "length p = 6 \<Longrightarrow> \<exists>a b c d e f. p = [a, b, c, d, e, f]"
  by (auto simp: numeral_eq_Suc length_Suc_conv)

lemma four_bytes: "length p = 4 \<Longrightarrow> \<exists>a b c d. p = [a, b, c, d]"
  by (auto simp: numeral_eq_Suc length_Suc_conv)

text \<open>The code's splices give these layouts.\<close>

lemma splice_layouts:
  assumes "prefix_ok p" and "length host = 4" and "length digest = 4"
  defines "out \<equiv> splice (replicate 16 0) 0 p"
  shows "splice (splice out 6 (to_be_bytes 2 KIND_SITE)) 10 (to_be_bytes 2 sid) = site_addr p sid no_host"
    and "splice (site_addr p sid no_host) 12 host = site_addr p sid host"
    and "splice (splice out 6 (to_be_bytes 2 KIND_VPCE)) 8 digest = vpce_addr p digest no_host"
    and "splice (vpce_addr p digest no_host) 12 host = vpce_addr p digest host"
    and "splice (splice out 6 (to_be_bytes 2 KIND_ADDR)) 12 host = v4_addr p host"
proof -
  obtain a b c d e f where p: "p = [a, b, c, d, e, f]"
    using six_bytes [OF assms(1) [unfolded prefix_ok_def]] by blast
  obtain w x y z where h: "host = [w, x, y, z]" using four_bytes assms(2) by blast
  obtain s t u v where d: "digest = [s, t, u, v]" using four_bytes assms(3) by blast
  have out: "out = [a, b, c, d, e, f, 0, 0, 0, 0, 0, 0, 0, 0, 0, 0]"
    by (simp add: out_def p splice_def numeral_eq_Suc)
  show "splice (splice out 6 (to_be_bytes 2 KIND_SITE)) 10 (to_be_bytes 2 sid) = site_addr p sid no_host"
    and "splice (site_addr p sid no_host) 12 host = site_addr p sid host"
    and "splice (splice out 6 (to_be_bytes 2 KIND_VPCE)) 8 digest = vpce_addr p digest no_host"
    and "splice (vpce_addr p digest no_host) 12 host = vpce_addr p digest host"
    and "splice (splice out 6 (to_be_bytes 2 KIND_ADDR)) 12 host = v4_addr p host"
    unfolding kind_bytes out unfolding to_be_two
    by (simp_all add: splice_def h d p site_addr_def vpce_addr_def v4_addr_def no_host_def to_be_two
        numeral_eq_Suc)
qed

lemma layout_lengths [simp]:
  "prefix_ok p \<Longrightarrow> length (site_addr p sid host) = 12 + length host"
  "prefix_ok p \<Longrightarrow> length (vpce_addr p digest host) = 8 + length digest + length host"
  "prefix_ok p \<Longrightarrow> length (v4_addr p host) = 12 + length host"
  by (simp_all add: site_addr_def vpce_addr_def v4_addr_def prefix_ok_def)

lemma no_host_length [simp]: "length no_host = 4"
  by (simp add: no_host_def)

lemma synthesize_layout:
  assumes "prefix_ok (sch_prefix sch)" and "sha256_ok sha" and "header_ok h"
  shows "synthesize sha sch h =
    (case site_of sch h of
       Some m \<Rightarrow> site_addr (sch_prefix sch) (m_id m)
         (if m_inner m \<and> \<not> hdr_v6 h then take 4 (hdr_src h) else no_host)
     | None \<Rightarrow>
         if hdr_vpce h \<noteq> [] then vpce_addr (sch_prefix sch) (take 4 (sha (hdr_vpce h)))
           (if hdr_v6 h then no_host else take 4 (hdr_src h))
         else if hdr_v6 h then hdr_src h
         else v4_addr (sch_prefix sch) (take 4 (hdr_src h)))"
proof -
  have "length (take 4 (hdr_src h)) = 4" "length (take 4 (sha (hdr_vpce h))) = 4"
    using assms by (simp_all add: header_ok_def sha256_ok_def)
  note layout = splice_layouts [OF assms(1) this]
  show ?thesis by (simp add: synthesize_def Let_def layout split: option.split)
qed

lemma synthesize_length:
  assumes "prefix_ok (sch_prefix sch)" and "sha256_ok sha" and "header_ok h"
  shows "length (synthesize sha sch h) = 16"
  using assms unfolding synthesize_layout [OF assms]
  by (auto simp: header_ok_def sha256_ok_def split: option.split)

section \<open>Prefixes of identities\<close>

lemma same_prefix_nat:
  "same_prefix bits a b \<longleftrightarrow> unat a div 2 ^ (128 - bits) = unat b div 2 ^ (128 - bits)"
  by (simp add: same_prefix_def word_unat_eq_iff unat_drop_bit_eq drop_bit_eq_div [where 'a = nat])

lemma unat_to_u128: "length bs = 16 \<Longrightarrow> unat (to_u128 bs) = be_nat bs"
  by (simp add: to_u128_def unat_from_be_bytes)

lemma be_nat_div: "be_nat (xs @ ys) div 256 ^ length ys = be_nat xs"
  using be_nat_less [of ys] by (simp add: be_nat_append)

text \<open>At a byte boundary two identities share a prefix when they share the bytes.\<close>

lemma same_prefix_bytes:
  assumes "length xs = 16" and "length ys = 16" and "k \<le> 16"
  shows "same_prefix (8 * k) (to_u128 xs) (to_u128 ys) \<longleftrightarrow> take k xs = take k ys"
proof -
  have "(2::nat) ^ (128 - 8 * k) = 256 ^ (16 - k)"
    using power_mult [of "2::nat" 8 "16 - k"] by (simp add: right_diff_distrib')
  moreover have "be_nat zs div 256 ^ (16 - k) = be_nat (take k zs)" if "length zs = 16" for zs
    using be_nat_div [of "take k zs" "drop k zs"] that by simp
  ultimately have "same_prefix (8 * k) (to_u128 xs) (to_u128 ys) \<longleftrightarrow> be_nat (take k xs) = be_nat (take k ys)"
    using assms by (simp add: same_prefix_nat unat_to_u128)
  then show ?thesis using assms be_nat_inject [of "take k xs" "take k ys"] by auto
qed

text \<open>Past the 96th bit the rest is an IPv4 prefix.\<close>

definition same_net :: "nat \<Rightarrow> bytes \<Rightarrow> bytes \<Rightarrow> bool" where
  "same_net bits x y \<longleftrightarrow>
     drop_bit (32 - bits) (from_be_bytes x :: u32) = drop_bit (32 - bits) (from_be_bytes y)"

lemma same_net_nat:
  assumes "length x = 4" and "length y = 4"
  shows "same_net bits x y \<longleftrightarrow> be_nat x div 2 ^ (32 - bits) = be_nat y div 2 ^ (32 - bits)"
  using assms by (simp add: same_net_def word_unat_eq_iff unat_drop_bit_eq drop_bit_eq_div [where 'a = nat] unat_from_be_bytes)

lemma same_prefix_host:
  assumes "length p = 12" and "length q = 12" and "length x = 4" and "length y = 4" and "bits \<le> 32"
  shows "same_prefix (96 + bits) (to_u128 (p @ x)) (to_u128 (q @ y)) \<longleftrightarrow> p = q \<and> same_net bits x y"
proof -
  have split: "be_nat (r @ z) div 2 ^ (32 - bits) = be_nat r * 2 ^ bits + be_nat z div 2 ^ (32 - bits)
      \<and> be_nat z div 2 ^ (32 - bits) < 2 ^ bits" if "length z = 4" for r z
  proof -
    have two: "(2::nat) ^ 32 = 2 ^ bits * 2 ^ (32 - bits)"
      using assms(5) by (simp flip: power_add)
    have "be_nat (r @ z) = be_nat z + (be_nat r * 2 ^ bits) * 2 ^ (32 - bits)"
      using that two by (simp add: be_nat_append)
    moreover have "be_nat z < 2 ^ bits * 2 ^ (32 - bits)"
      using be_nat_less [of z] that two by simp
    ultimately show ?thesis by (simp add: less_mult_imp_div_less)
  qed
  have "same_prefix (96 + bits) (to_u128 (p @ x)) (to_u128 (q @ y)) \<longleftrightarrow>
      be_nat (p @ x) div 2 ^ (32 - bits) = be_nat (q @ y) div 2 ^ (32 - bits)"
    using assms by (simp add: same_prefix_nat unat_to_u128)
  also have "\<dots> \<longleftrightarrow> be_nat p = be_nat q \<and> be_nat x div 2 ^ (32 - bits) = be_nat y div 2 ^ (32 - bits)"
  proof -
    have "(m * k + u = n * k + v) \<longleftrightarrow> m = n \<and> u = v" if "u < k" "v < k" for m n u v k :: nat
      by (metis that add.commute add_right_cancel div_mult_self3 mod_less mod_mult_self1 nat_neq_iff
          less_nat_zero_code mult.commute div_less plus_nat.add_0)
    then show ?thesis using split assms(3,4) by metis
  qed
  finally show ?thesis
    using assms be_nat_inject [of p q] same_net_nat [of x y bits] by auto
qed

lemma mapped_base:
  assumes "length v4 = 4"
  shows "0xffff00000000 OR ucast (from_be_bytes v4 :: u32) =
    to_u128 (replicate 10 0 @ [0xff, 0xff] @ v4)"
proof -
  let ?x = "ucast (from_be_bytes v4 :: u32) :: u128"
  have high: "32 \<le> n" if "bit (0xffff00000000 :: u128) n" for n
  proof -
    have eq: "(0xffff00000000 :: u128) = push_bit 32 0xffff" by simp
    from that show ?thesis unfolding eq bit_push_bit_iff by simp
  qed
  have low: "n < 32" if "bit ?x n" for n
    using that bit_imp_le_length [of "from_be_bytes v4 :: u32" n] by (simp add: bit_ucast_iff)
  have "0xffff00000000 AND ?x = 0"
    by (intro bit_word_eqI) (use high low in \<open>force simp: bit_and_iff\<close>)
  then have or: "0xffff00000000 OR ?x = 0xffff00000000 + ?x"
    using word_plus_and_or [of "0xffff00000000" ?x] by simp
  have less: "be_nat v4 < 2 ^ 32" using be_nat_less [of v4] assms by simp
  then have "unat ?x = be_nat v4"
    using assms by (simp add: unsigned_ucast_eq unat_from_be_bytes take_bit_nat_eq_self)
  then have "unat (0xffff00000000 + ?x) = (0xffff00000000 + be_nat v4) mod 2 ^ LENGTH(128)"
    using unat_word_ariths(1) [of "0xffff00000000" ?x] by simp
  also have "\<dots> = 0xffff00000000 + be_nat v4" using less by simp
  also have "\<dots> = be_nat (replicate 10 0 @ [0xff, 0xff]) * 256 ^ length v4 + be_nat v4"
  proof -
    have "be_nat (replicate 10 0 @ [0xff, 0xff]) = 0xffff" by code_simp
    then show ?thesis using assms by simp
  qed
  also have "\<dots> = be_nat (replicate 10 0 @ [0xff, 0xff] @ v4)"
    using be_nat_append [of "replicate 10 0 @ [0xff, 0xff]" v4] by simp
  also have "\<dots> = unat (to_u128 (replicate 10 0 @ [0xff, 0xff] @ v4))"
    using assms by (subst unat_to_u128) simp_all
  finally show ?thesis unfolding or by (simp only: word_unat_eq_iff)
qed

lemma mapped_v4:
  assumes "header_ok h" and "\<not> hdr_v6 h"
  shows "mapped h = to_u128 (replicate 10 0 @ [0xff, 0xff] @ take 4 (hdr_src h))"
proof -
  have "length (take 4 (hdr_src h)) = 4" using assms(1) by (simp add: header_ok_def)
  from four_bytes [OF this] show ?thesis
    using assms by (auto simp: header_ok_def mapped_def splice_def numeral_eq_Suc)
qed

lemma range_of_mask:
  "range_of a bits = (a AND prefix_mask bits, (a AND prefix_mask bits) OR NOT (prefix_mask bits))"
  by (simp add: range_of_def prefix_mask_def Let_def)

section \<open>What a member stands for\<close>

datatype member = Site_Ref u16 | Net4 bytes nat | Net6 bytes nat | Label

definition read_member :: "scheme \<Rightarrow> string \<Rightarrow> member" where
  "read_member sch m =
     (case site_ref sch m of
        Some sid \<Rightarrow> Site_Ref sid
      | None \<Rightarrow> (let (a, w) = member_split m in
          case (parse_ipv4 a, member_bits w 32) of
            (Some v4, Some b) \<Rightarrow> Net4 v4 b
          | _ \<Rightarrow> (case (parse_ipv6 a, member_bits w 128) of
              (Some v6, Some b) \<Rightarrow> Net6 v6 b
            | _ \<Rightarrow> Label)))"

text \<open>The site owning a whole prefix.\<close>

definition net_site :: "scheme \<Rightarrow> bytes \<Rightarrow> nat \<Rightarrow> u16 option" where
  "net_site sch base bits = (case range_of (to_u128 base) bits of (lo, hi) \<Rightarrow> range_site sch lo hi)"

definition map4 :: "bytes \<Rightarrow> bytes" where
  "map4 v4 = replicate 10 0 @ [0xff, 0xff] @ v4"

text \<open>The prefix a member is encoded as, before printing.\<close>

definition member_prefix :: "(bytes \<Rightarrow> bytes) \<Rightarrow> scheme \<Rightarrow> string \<Rightarrow> bytes \<times> nat" where
  "member_prefix sha sch m =
     (let space = (\<lambda>sid. (site_addr (sch_prefix sch) sid no_host, 96)) in
      case read_member sch m of
        Site_Ref sid \<Rightarrow> space sid
      | Net4 v4 b \<Rightarrow> (case net_site sch (map4 v4) (96 + b) of
          Some sid \<Rightarrow> space sid | None \<Rightarrow> (v4_addr (sch_prefix sch) v4, 96 + b))
      | Net6 v6 b \<Rightarrow> (case net_site sch v6 b of Some sid \<Rightarrow> space sid | None \<Rightarrow> (v6, b))
      | Label \<Rightarrow> (case label_site sch (as_bytes m) of
          Some sid \<Rightarrow> space sid
        | None \<Rightarrow> (vpce_addr (sch_prefix sch) (take 4 (sha (as_bytes m))) no_host, 96)))"

lemma show_96: "show_nat 10 96 = ''96''"
  by code_simp

lemma member_bits_le: "member_bits w mx = Some b \<Longrightarrow> b \<le> mx"
  by (auto simp: member_bits_def split: option.splits if_splits)

lemma read_member_bounds:
  "read_member sch m = Net4 v4 b \<Longrightarrow> length v4 = 4 \<and> b \<le> 32"
  "read_member sch m = Net6 v6 b \<Longrightarrow> length v6 = 16 \<and> b \<le> 128"
  by (auto simp: read_member_def length_parse_ipv4 length_parse_ipv6 member_bits_le
      split: option.splits prod.splits)

lemma site_space_print:
  "prefix_ok p \<Longrightarrow> site_space p sid = print_cidr (site_addr p sid no_host) 96"
  using splice_layouts(1) [of p no_host no_host sid]
  by (simp add: site_space_def Let_def as_str_format print_cidr_def show_96)

lemma encode_member_print:
  assumes "prefix_ok (sch_prefix sch)" and "sha256_ok sha"
  shows "encode_member sha sch m = (case member_prefix sha sch m of (bs, w) \<Rightarrow> print_cidr bs w)"
proof -
  let ?p = "sch_prefix sch"
  have dig: "length (take 4 (sha (as_bytes m))) = 4" using assms(2) by (simp add: sha256_ok_def)
  have vpce: "splice (splice (splice (replicate 16 0) 0 ?p) 6 (to_be_bytes 2 KIND_VPCE)) 8
      (take 4 (sha (as_bytes m))) = vpce_addr ?p (take 4 (sha (as_bytes m))) no_host"
    using splice_layouts(3) [OF assms(1) _ dig, of no_host] by simp
  have v4: "splice (splice (splice (replicate 16 0) 0 ?p) 6 (to_be_bytes 2 KIND_ADDR)) 12 a = v4_addr ?p a"
    "0xffff00000000 OR ucast (from_be_bytes a :: u32) = to_u128 (map4 a)" if "parse_ipv4 t = Some a" for a t
    using splice_layouts(5) [OF assms(1) length_parse_ipv4 [OF that] dig]
      mapped_base [OF length_parse_ipv4 [OF that]]
    by (simp_all add: map4_def)
  have lens: "length (v4_addr ?p a) = 16" if "parse_ipv4 t = Some a" for a t
    using length_parse_ipv4 [OF that] assms(1) by simp
  have lend: "length (vpce_addr ?p (take 4 (sha (as_bytes m))) no_host) = 16"
    using dig assms(1) by simp
  show ?thesis
    unfolding encode_member_def member_prefix_def read_member_def net_site_def site_space_print [OF assms(1)] Let_def vpce
    using dig
    by (simp add: v4 lens lend as_str_format print_cidr_def show_96 split: option.split prod.split)
qed

lemma member_prefix_bounds:
  assumes "prefix_ok (sch_prefix sch)" and "sha256_ok sha" and "member_prefix sha sch m = (bs, w)"
  shows "length bs = 16" and "w \<le> 128"
  using assms read_member_bounds [of sch m]
  by (auto simp: member_prefix_def Let_def sha256_ok_def split: member.splits option.splits)

lemma encode_member_single:
  assumes "prefix_ok (sch_prefix sch)" and "sha256_ok sha"
  shows "single_cidr (encode_member sha sch m)"
  using member_prefix_bounds [OF assms]
  by (cases "member_prefix sha sch m") (simp add: encode_member_print [OF assms] single_cidr_print)

lemma denotes_encode:
  assumes "prefix_ok (sch_prefix sch)" and "sha256_ok sha" and "member_prefix sha sch m = (bs, w)"
  shows "denotes (encode_member sha sch m) a \<longleftrightarrow> same_prefix w a (to_u128 bs)"
  using denotes_print [OF member_prefix_bounds [OF assms]]
  by (simp add: encode_member_print [OF assms(1,2)] assms(3) to_u128_def)

lemma encode_all_sites_single:
  assumes "prefix_ok (sch_prefix sch)" and "t \<in> set (encode_all_sites sch)"
  shows "single_cidr t"
  using assms by (auto simp: encode_all_sites_def site_space_print [OF assms(1)] intro!: single_cidr_print)

lemma net_site_iff:
  assumes "segs_ok sch" and "w \<le> 128"
  shows "net_site sch base w = Some k \<longleftrightarrow>
    (\<forall>a. same_prefix w a (to_u128 base) \<longrightarrow> addr_site sch a = Some k)"
  unfolding net_site_def range_of_mask prod.case range_site_all [OF assms(1) prefix_base_le_end]
    prefix_range [OF assms(2)] same_prefix_def ..

section \<open>Where an identity lies\<close>

definition site_id_of :: "scheme \<Rightarrow> header \<Rightarrow> u16 option" where
  "site_id_of sch h = map_option m_id (site_of sch h)"

text \<open>A header whose own address is its identity.\<close>

definition verbatim :: "scheme \<Rightarrow> header \<Rightarrow> bool" where
  "verbatim sch h \<longleftrightarrow> site_of sch h = None \<and> hdr_vpce h = [] \<and> hdr_v6 h"

definition genuine :: "scheme \<Rightarrow> header \<Rightarrow> bool" where
  "genuine sch h \<longleftrightarrow> \<not> (verbatim sch h \<and> take 6 (hdr_src h) = sch_prefix sch)"

lemma take_layouts:
  assumes "prefix_ok p"
  shows "take 6 (site_addr p sid host) = p" and "take 6 (vpce_addr p digest host) = p"
    and "take 6 (v4_addr p host) = p"
    and "take 12 (site_addr p sid host) = p @ [0x0b, 0x1a, 0, 0] @ to_be_bytes 2 sid"
    and "length digest = 4 \<Longrightarrow> take 12 (vpce_addr p digest host) = p @ [0, 1] @ digest"
    and "take 12 (v4_addr p host) = p @ [0, 4, 0, 0, 0, 0]"
  using assms by (simp_all add: prefix_ok_def site_addr_def vpce_addr_def v4_addr_def)

lemma to_be_16_inject: "to_be_bytes 2 (v :: u16) = to_be_bytes 2 w \<longleftrightarrow> v = w"
proof -
  have "from_be_bytes (to_be_bytes 2 u) = u" for u :: u16 by (rule from_to_be_bytes) simp
  then show ?thesis by metis
qed

lemma take_6_of_12:
  assumes "take 12 xs = p @ ys" and "length p = 6"
  shows "take 6 xs = p"
proof -
  have "take 6 xs = take 6 (take 12 xs)" by (simp add: min_def)
  then show ?thesis using assms by simp
qed

lemma synthesize_verbatim:
  assumes "prefix_ok (sch_prefix sch)" and "sha256_ok sha" and "header_ok h"
  shows "verbatim sch h \<Longrightarrow> synthesize sha sch h = hdr_src h"
  by (simp add: synthesize_layout [OF assms] verbatim_def)

lemma inside_unless_verbatim:
  assumes "prefix_ok (sch_prefix sch)" and "sha256_ok sha" and "header_ok h"
  shows "\<not> verbatim sch h \<Longrightarrow> take 6 (synthesize sha sch h) = sch_prefix sch"
  using take_layouts(1-3) [OF assms(1)]
  by (auto simp: synthesize_layout [OF assms] verbatim_def split: option.split)

text \<open>Which headers land in a site's space, under a label's hash, or among the plain IPv4 clients.\<close>

lemma verbatim_not_in:
  assumes "prefix_ok (sch_prefix sch)" and "sha256_ok sha" and "header_ok h" and "genuine sch h"
    and "verbatim sch h"
  shows "take 12 (synthesize sha sch h) \<noteq> sch_prefix sch @ ys"
  using assms take_6_of_12 [of "hdr_src h" "sch_prefix sch" ys]
  by (auto simp: synthesize_verbatim genuine_def prefix_ok_def)

lemma in_site_space:
  assumes "prefix_ok (sch_prefix sch)" and "sha256_ok sha" and "header_ok h" and "genuine sch h"
  shows "take 12 (synthesize sha sch h) = sch_prefix sch @ [0x0b, 0x1a, 0, 0] @ to_be_bytes 2 k
    \<longleftrightarrow> site_id_of sch h = Some k"
proof (cases "verbatim sch h")
  case True
  then show ?thesis using verbatim_not_in [OF assms True] by (simp add: verbatim_def site_id_of_def)
next
  case False
  have "length (take 4 (sha (hdr_vpce h))) = 4" using assms(2) by (simp add: sha256_ok_def)
  note layouts = take_layouts(4,6) [OF assms(1)] take_layouts(5) [OF assms(1) this]
  show ?thesis
    using False unfolding synthesize_layout [OF assms(1-3)]
    by (auto simp: layouts verbatim_def site_id_of_def to_be_16_inject split: option.split)
qed

lemma in_label_space:
  assumes "prefix_ok (sch_prefix sch)" and "sha256_ok sha" and "header_ok h" and "genuine sch h"
  shows "take 12 (synthesize sha sch h) = sch_prefix sch @ [0, 1] @ d
    \<longleftrightarrow> site_id_of sch h = None \<and> hdr_vpce h \<noteq> [] \<and> take 4 (sha (hdr_vpce h)) = d"
proof (cases "verbatim sch h")
  case True
  then show ?thesis using verbatim_not_in [OF assms True] by (simp add: verbatim_def)
next
  case False
  have "length (take 4 (sha (hdr_vpce h))) = 4" using assms(2) by (simp add: sha256_ok_def)
  note layouts = take_layouts(4,6) [OF assms(1)] take_layouts(5) [OF assms(1) this]
  show ?thesis
    using False unfolding synthesize_layout [OF assms(1-3)]
    by (auto simp: layouts verbatim_def site_id_of_def split: option.split)
qed

lemma in_v4_space:
  assumes "prefix_ok (sch_prefix sch)" and "sha256_ok sha" and "header_ok h" and "genuine sch h"
  shows "take 12 (synthesize sha sch h) = sch_prefix sch @ [0, 4, 0, 0, 0, 0] \<and>
      same_net b (drop 12 (synthesize sha sch h)) v4
    \<longleftrightarrow> site_id_of sch h = None \<and> hdr_vpce h = [] \<and> \<not> hdr_v6 h \<and> same_net b (take 4 (hdr_src h)) v4"
proof (cases "verbatim sch h")
  case True
  then show ?thesis using verbatim_not_in [OF assms True] by (simp add: verbatim_def)
next
  case False
  have "length (take 4 (sha (hdr_vpce h))) = 4" using assms(2) by (simp add: sha256_ok_def)
  note layouts = take_layouts(4,6) [OF assms(1)] take_layouts(5) [OF assms(1) this]
  have "drop 12 (v4_addr (sch_prefix sch) x) = x" for x
    using assms(1) by (simp add: v4_addr_def prefix_ok_def)
  then show ?thesis
    using False unfolding synthesize_layout [OF assms(1-3)]
    by (auto simp: layouts verbatim_def site_id_of_def split: option.split)
qed

section \<open>Config and wire meet\<close>

text \<open>Which headers a configured member admits, read off the header.\<close>

definition admits :: "(bytes \<Rightarrow> bytes) \<Rightarrow> scheme \<Rightarrow> string \<Rightarrow> header \<Rightarrow> bool" where
  "admits sha sch m h =
     (case read_member sch m of
        Site_Ref k \<Rightarrow> site_id_of sch h = Some k
      | Net4 v4 b \<Rightarrow> (case net_site sch (map4 v4) (96 + b) of
          Some k \<Rightarrow> site_id_of sch h = Some k
        | None \<Rightarrow> site_id_of sch h = None \<and> hdr_vpce h = [] \<and> \<not> hdr_v6 h \<and> same_net b (take 4 (hdr_src h)) v4)
      | Net6 v6 b \<Rightarrow> (case net_site sch v6 b of
          Some k \<Rightarrow> site_id_of sch h = Some k
        | None \<Rightarrow> same_prefix b (to_u128 (synthesize sha sch h)) (to_u128 v6))
      | Label \<Rightarrow> (case label_site sch (as_bytes m) of
          Some k \<Rightarrow> site_id_of sch h = Some k
        | None \<Rightarrow> site_id_of sch h = None \<and> hdr_vpce h \<noteq> [] \<and>
            take 4 (sha (hdr_vpce h)) = take 4 (sha (as_bytes m))))"

lemma encode_meets:
  assumes "prefix_ok (sch_prefix sch)" and "sha256_ok sha" and "header_ok h" and "genuine sch h"
  shows "denotes (encode_member sha sch m) (to_u128 (synthesize sha sch h)) \<longleftrightarrow> admits sha sch m h"
proof -
  let ?W = "synthesize sha sch h"
  let ?p = "sch_prefix sch"
  have lenW: "length ?W = 16" by (rule synthesize_length [OF assms(1-3)])
  have dig: "length (take 4 (sha v)) = 4" for v using assms(2) by (simp add: sha256_ok_def)
  have in96: "same_prefix 96 (to_u128 ?W) (to_u128 bs) \<longleftrightarrow> take 12 ?W = take 12 bs"
    if "length bs = 16" for bs
    using same_prefix_bytes [OF lenW that, of 12] by simp
  have space: "same_prefix 96 (to_u128 ?W) (to_u128 (site_addr ?p k no_host)) \<longleftrightarrow> site_id_of sch h = Some k" for k
    using in_site_space [OF assms, of k] assms(1) by (simp add: in96 take_layouts(4))
  have label: "same_prefix 96 (to_u128 ?W) (to_u128 (vpce_addr ?p (take 4 (sha v)) no_host)) \<longleftrightarrow>
      site_id_of sch h = None \<and> hdr_vpce h \<noteq> [] \<and> take 4 (sha (hdr_vpce h)) = take 4 (sha v)" for v
    using in_label_space [OF assms, of "take 4 (sha v)"] assms(1) dig [of v]
    by (simp add: in96 take_layouts(5))
  have v4: "same_prefix (96 + b) (to_u128 ?W) (to_u128 (v4_addr ?p v4)) \<longleftrightarrow>
      site_id_of sch h = None \<and> hdr_vpce h = [] \<and> \<not> hdr_v6 h \<and> same_net b (take 4 (hdr_src h)) v4"
    if "length v4 = 4" "b \<le> 32" for v4 b
    using in_v4_space [OF assms, of b v4] lenW that assms(1)
      same_prefix_host [of "take 12 ?W" "?p @ [0, 4, 0, 0, 0, 0]" "drop 12 ?W" v4 b]
    by (simp add: v4_addr_def prefix_ok_def)
  obtain bs w where mp: "member_prefix sha sch m = (bs, w)" by (cases "member_prefix sha sch m")
  have "same_prefix w (to_u128 ?W) (to_u128 bs) \<longleftrightarrow> admits sha sch m h"
    using mp read_member_bounds [of sch m]
    by (auto simp: member_prefix_def admits_def Let_def space label v4 split: member.splits option.splits)
  then show ?thesis by (simp add: denotes_encode [OF assms(1,2) mp])
qed

section \<open>The prefix text\<close>

definition prefix_text :: "string \<Rightarrow> bytes \<Rightarrow> bool" where
  "prefix_text text os \<longleftrightarrow>
     (parse_ipv6 text = Some os \<and> CHR ''/'' \<notin> set text) \<or>
     (\<exists>ip b. text = ip @ CHR ''/'' # b \<and> CHR ''/'' \<notin> set ip \<and> parse_ipv6 ip = Some os \<and>
        parse_uint 255 b = Some 48)"

lemma parse_prefix_Inr:
  "parse_prefix text = Inr p \<longleftrightarrow>
    (\<exists>os. prefix_text text os \<and> os ! 0 AND 0xfe = 0xfc \<and> (\<forall>b \<in> set (drop 6 os). b = 0) \<and> p = take 6 os)"
proof (cases "split_once CHR ''/'' text")
  case None
  then have "prefix_text text os \<longleftrightarrow> parse_ipv6 text = Some os" for os
    by (auto simp: prefix_text_def)
  then show ?thesis
    unfolding parse_prefix_def None option.case by (auto simp: list_ex_iff split: if_splits)
next
  case (Some a)
  then obtain ip b where split: "split_once CHR ''/'' text = Some (ip, b)" by (cases a) auto
  then have parts: "text = ip @ CHR ''/'' # b" "CHR ''/'' \<notin> set ip" by auto
  have "prefix_text text os \<longleftrightarrow> parse_ipv6 ip = Some os \<and> parse_uint 255 b = Some 48" for os
  proof -
    have "ip' = ip \<and> b' = b" if "text = ip' @ CHR ''/'' # b'" "CHR ''/'' \<notin> set ip'" for ip' b'
      using split_once_append [OF that(2), of b'] split that(1) by simp
    then show ?thesis unfolding prefix_text_def using parts by auto
  qed
  then show ?thesis
    unfolding parse_prefix_def split option.case
    by (cases "parse_uint 255 b") (auto simp: list_ex_iff split: if_splits)
qed

lemma parse_prefix_ok: "parse_prefix text = Inr p \<Longrightarrow> prefix_ok p"
  unfolding parse_prefix_Inr prefix_ok_def prefix_text_def
  by (auto dest: length_parse_ipv6)

section \<open>Example data\<close>

definition demo_sha :: "bytes \<Rightarrow> bytes" where
  "demo_sha m = take 32 (m @ replicate 32 0)"

lemma demo_sha_ok: "sha256_ok demo_sha"
  by (simp add: sha256_ok_def demo_sha_def min_def)

lemma demo_prefix: "sch_prefix demo_scheme = [0xfd, 0x0b, 0x10, 0x03, 0x5e, 0xc0]"
  by (simp add: demo_scheme_def)

lemma demo_prefix_ok: "prefix_ok (sch_prefix demo_scheme)"
  by (simp add: demo_prefix prefix_ok_def)

definition v4_header :: "bytes \<Rightarrow> bytes \<Rightarrow> header" where
  "v4_header ip vpce = \<lparr>hdr_len = 28, hdr_src = ip @ replicate 12 0, hdr_port = 1, hdr_v6 = False, hdr_vpce = vpce\<rparr>"

lemma v4_header_ok: "length ip = 4 \<Longrightarrow> header_ok (v4_header ip vpce)"
  by (simp add: header_ok_def v4_header_def)

lemma v4_header_genuine: "genuine sch (v4_header ip vpce)"
  by (simp add: genuine_def verbatim_def v4_header_def)

section \<open>Properties\<close>

text \<open>
  C30. The identity of a header, in all four cases: the owner of its vpce-id if some site lists
  it, with the client's IPv4 in the low bytes; else the owner of its source address, with no
  client address; else, with a vpce-id, kind 1 and four digest bytes; else an IPv6 source is
  kept and an IPv4 source becomes kind 4.
\<close>

theorem synthesize_cases:
  assumes "sites_ok sites" and "length prefix = 6" and "\<forall>m. length (sha m) = 32"
    and "length (hdr_src h) = 16"
  shows "synthesize sha (scheme_new prefix sites) h =
    (let host = (if hdr_v6 h then [0, 0, 0, 0] else take 4 (hdr_src h)) in
     case (if hdr_vpce h = [] then None else owner (label_claims sites (hdr_vpce h))) of
       Some k \<Rightarrow> prefix @ [0x0b, 0x1a, 0, 0] @ to_be_bytes 2 k @ host
     | None \<Rightarrow> (case owner (addr_claims sites (mapped h)) of
         Some k \<Rightarrow> prefix @ [0x0b, 0x1a, 0, 0] @ to_be_bytes 2 k @ [0, 0, 0, 0]
       | None \<Rightarrow>
           if hdr_vpce h \<noteq> [] then prefix @ [0, 1] @ take 4 (sha (hdr_vpce h)) @ host
           else if hdr_v6 h then hdr_src h
           else prefix @ [0, 4, 0, 0, 0, 0] @ host))"
proof -
  have "prefix_ok (sch_prefix (scheme_new prefix sites))" "sha256_ok sha" "header_ok h"
    using assms by (simp_all add: prefix_ok_def sha256_ok_def header_ok_def)
  note layout = synthesize_layout [OF this]
  show ?thesis
    unfolding layout site_of_def label_site_owner addr_site_owner [OF assms(1)]
    by (auto simp: site_addr_def vpce_addr_def v4_addr_def no_host_def Let_def split: option.split)
qed

theorem synthesize_cases_witness:
  "synthesize demo_sha (scheme_new [0xfd, 0x0b, 0x10, 0x03, 0x5e, 0xc0] []) (v4_header [10, 0, 0, 7] []) =
    [0xfd, 0x0b, 0x10, 0x03, 0x5e, 0xc0, 0, 4, 0, 0, 0, 0, 10, 0, 0, 7]"
proof -
  have "sites_ok []" "length [0xfd, 0x0b, 0x10, 0x03, 0x5e, 0xc0 :: u8] = 6" "\<forall>m. length (demo_sha m) = 32"
    "length (hdr_src (v4_header [10, 0, 0, 7] [])) = 16"
    using demo_sha_ok by (simp_all add: sites_ok_def sha256_ok_def v4_header_def)
  from synthesize_cases [OF this] show ?thesis
    by (simp add: v4_header_def addr_claims_def numeral_eq_Suc)
qed

text \<open>
  C4. Config and wire meet: the encoding of a configured member covers the identity of a
  header exactly when the member, read as a site reference, a prefix or a label, admits the
  header. Only a header whose own IPv6 source lies inside the ULA is excluded.
\<close>

theorem config_meets_wire:
  assumes "prefix_ok (sch_prefix sch)" and "sha256_ok sha" and "header_ok h" and "genuine sch h"
  shows "denotes (encode_member sha sch m) (to_u128 (synthesize sha sch h)) = admits sha sch m h"
  using assms by (rule encode_meets)

theorem config_meets_wire_witness:
  "denotes (encode_member demo_sha demo_scheme ''!3'')
     (to_u128 (synthesize demo_sha demo_scheme (v4_header [10, 0, 0, 7] [0x77])))"
proof -
  have "admits demo_sha demo_scheme ''!3'' (v4_header [10, 0, 0, 7] [0x77])" by code_simp
  then show ?thesis
    using config_meets_wire [OF demo_prefix_ok demo_sha_ok v4_header_ok v4_header_genuine,
        of "[10, 0, 0, 7]" "''!3''" "[0x77]"] by simp
qed

text \<open>
  C37. What an identity inside the /48 means: every identity is inside it unless the header is
  an IPv6 client of no site with no vpce-id, whose identity is its own source address; such a
  client is inside exactly when its source is.
\<close>

theorem inside_prefix_iff:
  assumes "prefix_ok (sch_prefix sch)" and "sha256_ok sha" and "header_ok h"
  shows "(take 6 (synthesize sha sch h) = sch_prefix sch \<longleftrightarrow>
      \<not> (site_of sch h = None \<and> hdr_vpce h = [] \<and> hdr_v6 h) \<or> take 6 (hdr_src h) = sch_prefix sch) \<and>
    (take 6 (synthesize sha sch h) \<noteq> sch_prefix sch \<longrightarrow> synthesize sha sch h = hdr_src h)"
  unfolding verbatim_def [symmetric]
  using inside_unless_verbatim [OF assms] synthesize_verbatim [OF assms] by (cases "verbatim sch h") auto

theorem inside_prefix_iff_witness:
  "take 6 (synthesize demo_sha demo_scheme (v4_header [10, 0, 0, 7] [])) = sch_prefix demo_scheme"
  using inside_prefix_iff [OF demo_prefix_ok demo_sha_ok v4_header_ok, of "[10, 0, 0, 7]" "[]"]
  by (simp add: v4_header_def)

text \<open>
  Every string is a member and encodes to exactly one well-formed CIDR entry, so a rule
  set built from encoded members never fails to build.
\<close>

lemma encode_member_total:
  assumes "prefix_ok (sch_prefix sch)" and "sha256_ok sha"
  shows "\<exists>s. build_from (map (encode_member sha sch) ms @ encode_all_sites sch) = Inr s"
proof (rule cidrs.accepts)
  fix t assume "t \<in> set (map (encode_member sha sch) ms @ encode_all_sites sch)"
  then show "single_cidr t"
    using encode_member_single [OF assms] encode_all_sites_single [OF assms(1)] by auto
qed

lemma encode_member_total_witness:
  "\<exists>s. build_from (map (encode_member demo_sha demo_scheme) [''10.0.0.1/99'', ''!x'', ''''] @
    encode_all_sites demo_scheme) = Inr s"
  by (rule encode_member_total [OF demo_prefix_ok demo_sha_ok])

text \<open>
  C38. The address texts always fit their buffer: formatting an address gives its text, which
  reads back as that address, and the log text of a header's source likewise.
\<close>

theorem address_texts_round_trip:
  assumes "length os = 16"
  shows "parse_ipv6 (as_str (format os)) = Some os \<and>
    (if v6 then parse_ipv6 (as_str (format_src os v6)) = Some os
     else parse_ipv4 (as_str (format_src os v6)) = Some (take 4 os))"
  using v6_text.read_print [OF assms] v4_text.read_print [of "take 4 os"] assms
  by (simp add: as_str_format as_str_format_src)

theorem address_texts_round_trip_witness:
  "parse_ipv6 (as_str (format [0xfd, 0x0b, 0x10, 0x03, 0x5e, 0xc0, 0x0b, 0x1a, 0, 0, 0, 7, 10, 0, 1, 28])) =
    Some [0xfd, 0x0b, 0x10, 0x03, 0x5e, 0xc0, 0x0b, 0x1a, 0, 0, 0, 7, 10, 0, 1, 28]"
  using address_texts_round_trip
    [of "[0xfd, 0x0b, 0x10, 0x03, 0x5e, 0xc0, 0x0b, 0x1a, 0, 0, 0, 7, 10, 0, 1, 28]" True]
  by simp

text \<open>
  A prefix text is accepted exactly when it is an IPv6 address, alone or with the width
  48, that is unique-local and has no bit set below /48; accepting it keeps its six bytes.
\<close>

lemma parse_prefix_accepts:
  "(parse_prefix text = Inr p) =
    (\<exists>os. prefix_text text os \<and> os ! 0 AND 0xfe = 0xfc \<and> list_all (\<lambda>b. b = 0) (drop 6 os) \<and> p = take 6 os)"
  unfolding parse_prefix_Inr list_all_iff ..

lemma parse_prefix_accepts_witness:
  "parse_prefix (show_ipv6 ([0xfd, 0x0b, 0x10, 0x03, 0x5e, 0xc0] @ replicate 10 0) @ ''/48'') =
    Inr [0xfd, 0x0b, 0x10, 0x03, 0x5e, 0xc0]"
proof -
  let ?os = "[0xfd, 0x0b, 0x10, 0x03, 0x5e, 0xc0] @ replicate 10 0 :: bytes"
  have "parse_uint 255 ''48'' = Some 48" by code_simp
  moreover have "parse_ipv6 (show_ipv6 ?os) = Some ?os" by (rule v6_text.read_print) simp
  moreover have "CHR ''/'' \<notin> set (show_ipv6 ?os)" by (rule show_ipv6_free) simp_all
  ultimately have "prefix_text (show_ipv6 ?os @ ''/48'') ?os"
    unfolding prefix_text_def
    by (intro disjI2 exI [of _ "show_ipv6 ?os"] exI [of _ "''48''"]) simp
  then show ?thesis
    unfolding parse_prefix_accepts by (intro exI [of _ ?os]) (simp add: list_all_iff)
qed

text \<open>
  C36. A label in the config admits the traffic of its own endpoint if some site lists the
  label or no site owns the source address, and only then: an unlisted endpoint whose source
  falls into a site's prefix is that site's, and its own label no longer covers it.
\<close>

theorem label_admits_own_endpoint:
  assumes "prefix_ok (sch_prefix sch)" and "sha256_ok sha" and "header_ok h"
    and "m \<noteq> []" and "hdr_vpce h = as_bytes m" and "read_member sch m = Label"
  shows "denotes (encode_member sha sch m) (to_u128 (synthesize sha sch h)) =
    (label_site sch (as_bytes m) \<noteq> None \<or> addr_site sch (mapped h) = None)"
proof -
  have "genuine sch h" using assms(4,5) by (simp add: genuine_def verbatim_def)
  then show ?thesis
    using encode_meets [OF assms(1-3), of m] assms(4-6)
    by (auto simp: admits_def site_id_of_def site_of_def split: option.split)
qed

theorem label_admits_own_endpoint_witness:
  "denotes (encode_member demo_sha demo_scheme ''w'')
     (to_u128 (synthesize demo_sha demo_scheme (v4_header [10, 0, 0, 7] (as_bytes ''w''))))"
proof -
  have "read_member demo_scheme ''w'' = Label" "label_site demo_scheme (as_bytes ''w'') \<noteq> None"
    by code_simp+
  moreover have "hdr_vpce (v4_header [10, 0, 0, 7] (as_bytes ''w'')) = as_bytes ''w''"
    by (simp add: v4_header_def)
  ultimately show ?thesis
    using label_admits_own_endpoint [OF demo_prefix_ok demo_sha_ok v4_header_ok,
        of "[10, 0, 0, 7]" "''w''" "as_bytes ''w''"] by simp
qed

end
