(* ===== verification/Graph.thy ===== *)
theory Graph
  imports Std_Str "HOL-Library.AList"
begin

text \<open>
  graph.rs: the groups behind \<open>@refs\<close> and the walk that expands them. The walk is the code's
  depth-first recursion with its set of names already expanded; its termination is proved
  first for the calls that return, which gives that the set only grows, and then for all. The
  specification is the relation \<open>reaches\<close> between a member and the literals below it.
\<close>

section \<open>The code\<close>

text \<open>The \<open>HashMap\<close> as an association list; only \<open>map_of\<close> of it is ever observed.\<close>

record graph =
  groups :: "(string \<times> string list) list"

definition empty_graph :: graph where
  "empty_graph = \<lparr>groups = []\<rparr>"

definition upsert :: "graph \<Rightarrow> string \<Rightarrow> string list \<Rightarrow> graph" where
  "upsert g name members = g\<lparr>groups := AList.update name members (groups g)\<rparr>"

text \<open>The rank that decreases along the walk: groups not yet expanded, then members left.\<close>

definition unseen :: "graph \<Rightarrow> string list \<Rightarrow> string set" where
  "unseen g seen = dom (map_of (groups g)) - set seen"

lemma finite_unseen [simp]: "finite (unseen g seen)"
  by (simp add: unseen_def finite_dom_map_of)

lemma unseen_less: "map_of (groups g) name = Some ms \<Longrightarrow> name \<notin> set seen \<Longrightarrow>
    card (unseen g (name # seen)) < card (unseen g seen)"
  by (intro psubset_card_mono finite_unseen) (auto simp: unseen_def)

lemma unseen_mono: "set seen \<subseteq> set seen' \<Longrightarrow> card (unseen g seen') \<le> card (unseen g seen)"
  by (intro card_mono finite_unseen) (auto simp: unseen_def)

fun walk_rank :: "graph \<times> string \<times> string list \<times> string list + graph \<times> string list \<times> string list \<times> string list
    \<Rightarrow> nat \<times> nat" where
  "walk_rank (Inl (g, m, out, seen)) = (card (unseen g seen), 0)"
| "walk_rank (Inr (g, ms, out, seen)) = (card (unseen g seen), Suc (length ms))"

text \<open>
  \<open>walk\<close> and its inner loop \<open>walk_each\<close>; the state is the output and the names seen, the
  latter as a list without repetition.
\<close>

function walk :: "graph \<Rightarrow> string \<Rightarrow> string list \<times> string list \<Rightarrow> string list \<times> string list"
  and walk_each :: "graph \<Rightarrow> string list \<Rightarrow> string list \<times> string list \<Rightarrow> string list \<times> string list"
where
  "walk g member (out, seen) =
     (case strip_char CHR ''@'' member of
        Some name \<Rightarrow>
          (case map_of (groups g) name of
             Some members \<Rightarrow>
               (if name \<notin> set seen then walk_each g members (out, name # seen)
                else (out, seen))
           | None \<Rightarrow> (out @ [member], seen))
      | None \<Rightarrow> (out @ [member], seen))"
| "walk_each g [] (out, seen) = (out, seen)"
| "walk_each g (m # ms) (out, seen) = walk_each g ms (walk g m (out, seen))"
  by pat_completeness auto

text \<open>Where a call returns, it has only added names of groups to the set.\<close>

lemma seen_grows_partial:
  "walk_walk_each_dom (Inl (g, m, st)) \<Longrightarrow> set (snd st) \<subseteq> set (snd (walk g m st))"
  "walk_walk_each_dom (Inr (g, ms, st)) \<Longrightarrow> set (snd st) \<subseteq> set (snd (walk_each g ms st))"
proof (induction rule: walk_walk_each.pinduct)
  case (1 g member out seen)
  then show ?case
    by (auto simp: walk.psimps split: option.split)
next
  case (3 g m ms out seen)
  then show ?case by (auto simp: walk_each.psimps)
qed (simp add: walk_each.psimps)

termination walk
proof (relation "inv_image (less_than <*lex*> less_than) walk_rank")
  fix g m ms out seen
  assume "walk_walk_each_dom (Inl (g, m, out, seen))"
  from seen_grows_partial(1) [OF this]
  have "card (unseen g (snd (walk g m (out, seen)))) \<le> card (unseen g seen)"
    by (intro unseen_mono) simp
  then show "(Inr (g, ms, walk g m (out, seen)), Inr (g, m # ms, out, seen))
      \<in> inv_image (less_than <*lex*> less_than) walk_rank"
    by (cases "walk g m (out, seen)") auto
qed (auto simp: unseen_less)

definition resolve :: "graph \<Rightarrow> string list \<Rightarrow> string list" where
  "resolve g entry = fst (walk_each g entry ([], []))"

section \<open>What a member reaches\<close>

text \<open>The group a member refers to, if it is a reference to a known one.\<close>

definition expands :: "graph \<Rightarrow> string \<Rightarrow> (string \<times> string list) option" where
  "expands g m = (case strip_char CHR ''@'' m of None \<Rightarrow> None
     | Some name \<Rightarrow> map_option (Pair name) (map_of (groups g) name))"

inductive reaches :: "graph \<Rightarrow> string \<Rightarrow> string \<Rightarrow> bool" for g where
  literal: "expands g m = None \<Longrightarrow> reaches g m m"
| member: "expands g m = Some (n, ms) \<Longrightarrow> m' \<in> set ms \<Longrightarrow> reaches g m' l \<Longrightarrow> reaches g m l"

lemma walk_expands:
  "walk g m (out, seen) =
     (case expands g m of
        None \<Rightarrow> (out @ [m], seen)
      | Some (n, ms) \<Rightarrow> if n \<in> set seen then (out, seen) else walk_each g ms (out, n # seen))"
  by (auto simp: expands_def split: option.split)

declare walk.simps [simp del]

lemma walk_induct [case_names walk empty each]:
  assumes "\<And>m out seen.
      (\<And>n ms. expands g m = Some (n, ms) \<Longrightarrow> n \<notin> set seen \<Longrightarrow> Q ms (out, n # seen)) \<Longrightarrow> P m (out, seen)"
    and "\<And>out seen. Q [] (out, seen)"
    and "\<And>m ms out seen. P m (out, seen) \<Longrightarrow> Q ms (walk g m (out, seen)) \<Longrightarrow> Q (m # ms) (out, seen)"
  shows "P m st" and "Q ms st'"
proof -
  have "g' = g \<longrightarrow> P m st" and "h' = g \<longrightarrow> Q ms st'" for g' h'
    by (induction g' m st and h' ms st' rule: walk_walk_each.induct)
      (auto intro!: assms simp: expands_def split: option.splits)
  then show "P m st" and "Q ms st'" by auto
qed

lemma walk_sound:
  "l \<in> set (fst (walk g m st)) \<Longrightarrow> l \<in> set (fst st) \<or> reaches g m l"
  "l \<in> set (fst (walk_each g ms st)) \<Longrightarrow> l \<in> set (fst st) \<or> (\<exists>m \<in> set ms. reaches g m l)"
proof (induction m st and ms st rule: walk_induct [where g = g])
  case (walk m out seen)
  then show ?case
    by (auto simp: walk_expands intro: reaches.intros split: option.splits if_splits)
qed auto

text \<open>A member is covered by a state that holds its literal or has expanded its group.\<close>

definition covered :: "graph \<Rightarrow> string list \<times> string list \<Rightarrow> string \<Rightarrow> bool" where
  "covered g st m = (case expands g m of None \<Rightarrow> m \<in> set (fst st) | Some (n, ms) \<Rightarrow> n \<in> set (snd st))"

definition extends :: "string list \<times> string list \<Rightarrow> string list \<times> string list \<Rightarrow> bool" where
  "extends st st' \<longleftrightarrow> set (fst st) \<subseteq> set (fst st') \<and> set (snd st) \<subseteq> set (snd st')"

lemma extends_trans [trans]: "extends a b \<Longrightarrow> extends b c \<Longrightarrow> extends a c"
  by (auto simp: extends_def)

lemma covered_extends: "covered g st m \<Longrightarrow> extends st st' \<Longrightarrow> covered g st' m"
  by (auto simp: covered_def extends_def split: option.splits)

lemma walk_extends: "extends st (walk g m st)" "extends st (walk_each g ms st)"
proof (induction m st and ms st rule: walk_induct [where g = g])
  case (walk m out seen)
  then show ?case by (auto simp: walk_expands extends_def split: option.split)
next
  case (each m ms out seen)
  then show ?case by (auto intro: extends_trans)
qed (simp add: extends_def)

text \<open>Every group a walk expanded has its members covered at the end.\<close>

definition closed_since :: "graph \<Rightarrow> string list \<times> string list \<Rightarrow> string list \<times> string list \<Rightarrow> bool" where
  "closed_since g st st' \<longleftrightarrow>
     (\<forall>n ms m. n \<in> set (snd st') - set (snd st) \<longrightarrow> map_of (groups g) n = Some ms \<longrightarrow> m \<in> set ms
        \<longrightarrow> covered g st' m)"

lemma expands_group: "expands g m = Some (n, ms) \<Longrightarrow> map_of (groups g) n = Some ms"
  by (auto simp: expands_def split: option.splits)

lemma walk_complete:
  "covered g (walk g m st) m \<and> closed_since g st (walk g m st)"
  "(\<forall>m \<in> set ms. covered g (walk_each g ms st) m) \<and> closed_since g st (walk_each g ms st)"
proof (induction m st and ms st rule: walk_induct [where g = g])
  case (walk m out seen)
  show ?case
  proof (cases "expands g m")
    case None
    then show ?thesis by (simp add: walk_expands covered_def closed_since_def)
  next
    case (Some a)
    obtain n ms where nms: "expands g m = Some (n, ms)" using Some by (cases a) auto
    show ?thesis
    proof (cases "n \<in> set seen")
      case True
      then show ?thesis using nms by (simp add: walk_expands covered_def closed_since_def)
    next
      case False
      have "extends (out, n # seen) (walk_each g ms (out, n # seen))" by (rule walk_extends)
      moreover have "walk g m (out, seen) = walk_each g ms (out, n # seen)"
        using nms False by (simp add: walk_expands)
      ultimately show ?thesis
        using walk [OF nms False] nms expands_group [OF nms]
        by (auto simp: covered_def [of _ _ m] extends_def closed_since_def)
    qed
  qed
next
  case (each m ms out seen)
  have ext: "extends (walk g m (out, seen)) (walk_each g ms (walk g m (out, seen)))"
    by (rule walk_extends)
  then show ?case
    using each covered_extends [OF _ ext] by (auto simp: closed_since_def)
qed (simp add: closed_since_def)

lemma covered_reaches:
  assumes "reaches g m l" and "covered g st m"
    and "\<And>n ms m. n \<in> set (snd st) \<Longrightarrow> map_of (groups g) n = Some ms \<Longrightarrow> m \<in> set ms \<Longrightarrow> covered g st m"
  shows "l \<in> set (fst st)"
  using assms
proof (induction rule: reaches.induct)
  case (member m n ms m' l)
  then show ?case using expands_group [OF member.hyps(1)] by (auto simp: covered_def)
qed (simp add: covered_def)

lemma resolve_iff: "l \<in> set (resolve g entry) \<longleftrightarrow> (\<exists>m \<in> set entry. reaches g m l)"
proof
  assume "l \<in> set (resolve g entry)"
  then show "\<exists>m \<in> set entry. reaches g m l"
    using walk_sound(2) [of l g entry "([], [])"] by (simp add: resolve_def)
next
  assume "\<exists>m \<in> set entry. reaches g m l"
  then show "l \<in> set (resolve g entry)"
    using walk_complete(2) [of entry g "([], [])"] covered_reaches [of g _ l "walk_each g entry ([], [])"]
    by (auto simp: resolve_def closed_since_def)
qed

section \<open>The size of the output\<close>

definition group_size :: "graph \<Rightarrow> string \<Rightarrow> nat" where
  "group_size g n = length (the (map_of (groups g) n))"

lemma unseen_weight:
  assumes "map_of (groups g) n = Some ms" and "n \<notin> set seen"
  shows "length ms + sum (group_size g) (unseen g (n # seen)) = sum (group_size g) (unseen g seen)"
proof -
  have "unseen g seen = insert n (unseen g (n # seen))" "n \<notin> unseen g (n # seen)"
    using assms by (auto simp: unseen_def)
  then show ?thesis using assms by (simp add: group_size_def)
qed

lemma walk_bound:
  "length (fst (walk g m st)) + sum (group_size g) (unseen g (snd (walk g m st)))
     \<le> Suc (length (fst st)) + sum (group_size g) (unseen g (snd st))"
  "length (fst (walk_each g ms st)) + sum (group_size g) (unseen g (snd (walk_each g ms st)))
     \<le> length (fst st) + length ms + sum (group_size g) (unseen g (snd st))"
proof (induction m st and ms st rule: walk_induct [where g = g])
  case (walk m out seen)
  show ?case
  proof (cases "expands g m")
    case (Some a)
    obtain n ms where nms: "expands g m = Some (n, ms)" using Some by (cases a) auto
    show ?thesis
    proof (cases "n \<in> set seen")
      case False
      have "length (fst (walk g m (out, seen))) + sum (group_size g) (unseen g (snd (walk g m (out, seen))))
          \<le> length out + length ms + sum (group_size g) (unseen g (n # seen))"
        using walk [OF nms False] nms False by (simp add: walk_expands)
      also have "\<dots> = length out + sum (group_size g) (unseen g seen)"
        using unseen_weight [OF expands_group [OF nms] False] by simp
      finally show ?thesis by simp
    qed (simp add: walk_expands nms)
  qed (simp add: walk_expands)
qed auto

lemma resolve_bound:
  "length (resolve g entry) \<le> length entry + sum (group_size g) (dom (map_of (groups g)))"
  using walk_bound(2) [of g entry "([], [])"] by (simp add: resolve_def unseen_def)

section \<open>The representation\<close>

text \<open>Only the map behind the list matters, and \<open>upsert\<close> is its update.\<close>

lemma map_of_upsert: "map_of (groups (upsert g n ms)) = (map_of (groups g))(n \<mapsto> ms)"
  by (simp add: upsert_def update_conv')

lemma expands_cong: "map_of (groups g) = map_of (groups h) \<Longrightarrow> expands g m = expands h m"
  by (simp add: expands_def split: option.split)

lemma walk_cong:
  assumes "map_of (groups g) = map_of (groups h)"
  shows "walk g m st = walk h m st" and "walk_each g ms st' = walk_each h ms st'"
proof (induction m st and ms st' rule: walk_induct [where g = g])
  case (walk m out seen)
  note eq = expands_cong [OF assms, of m]
  show ?case
  proof (cases "expands g m")
    case (Some a)
    then obtain n ms where "expands g m = Some (n, ms)" by (cases a) auto
    then show ?thesis using walk [of n ms] eq by (simp add: walk_expands)
  qed (use eq in \<open>simp add: walk_expands\<close>)
qed auto

lemma resolve_cong: "map_of (groups g) = map_of (groups h) \<Longrightarrow> resolve g entry = resolve h entry"
  by (simp add: resolve_def walk_cong(2) [of g h])

section \<open>Properties\<close>

text \<open>
  C34. The walk returns on every graph, cycles included, and collects exactly the literals
  reachable from the entry: members that are no reference, and references to unknown groups.
\<close>

theorem resolve_collects_reachable:
  "set (resolve g entry) = {l. \<exists>m \<in> set entry. reaches g m l}"
  using resolve_iff by blast

theorem resolve_collects_reachable_witness:
  "{l. \<exists>m \<in> set [''@a'']. reaches
      \<lparr>groups = [(''a'', [''@b'', ''x'']), (''b'', [''@a'', ''@ghost'', ''y''])]\<rparr> m l} =
    {''@ghost'', ''y'', ''x''}"
proof -
  have "resolve \<lparr>groups = [(''a'', [''@b'', ''x'']), (''b'', [''@a'', ''@ghost'', ''y''])]\<rparr> [''@a''] =
      [''@ghost'', ''y'', ''x'']"
    by code_simp
  then show ?thesis unfolding resolve_collects_reachable [symmetric] by simp
qed

text \<open>
  Each group is expanded at most once per walk, however often and along however many
  paths it is referenced: the output is no longer than the entry and all member lists
  together.
\<close>

lemma resolve_linear:
  "length (resolve g entry) \<le>
     length entry + (\<Sum>n \<in> dom (map_of (groups g)). length (the (map_of (groups g) n)))"
  using resolve_bound [of g entry] by (simp add: group_size_def)

text \<open>Groups may be inserted in any order; a later insertion under a name replaces the earlier.\<close>

lemma upsert_order_irrelevant:
  assumes "n \<noteq> k"
  shows "resolve (upsert (upsert g n ms) k ks) entry = resolve (upsert (upsert g k ks) n ms) entry \<and>
    resolve (upsert (upsert g n ks) n ms) entry = resolve (upsert g n ms) entry"
  using assms by (intro conjI resolve_cong; simp add: map_of_upsert fun_upd_twist)

end
