(* ===== verification/Table.thy ===== *)
theory Table
  imports Identity Graph
begin

text \<open>
  config.rs, the table: the identity table of one carrier, the expansion of rule entries
  against it, and the publication with its generation. The parser of the carrier's JSON
  (serde_json) is the parameter \<open>from_json\<close>; what is read is the raw shape of the code. Error
  messages keep their fixed words and leave out the quoted member.
\<close>

section \<open>The code\<close>

record table =
  tbl_scheme :: scheme
  tbl_groups :: graph

definition expand_entry :: "(bytes \<Rightarrow> bytes) \<Rightarrow> scheme \<Rightarrow> string \<Rightarrow> string list" where
  "expand_entry sha sch m = (if m = ''!*'' then encode_all_sites sch else [encode_member sha sch m])"

definition table_resolve :: "(bytes \<Rightarrow> bytes) \<Rightarrow> table \<Rightarrow> string list \<Rightarrow> string + cidr_set" where
  "table_resolve sha t list =
     build_from (concat (map (expand_entry sha (tbl_scheme t)) (resolve (tbl_groups t) list)))"

text \<open>The published table with its generation; the count wraps like the code's \<open>u64\<close>.\<close>

type_synonym cell = "u64 \<times> table option"

definition unpublished :: cell where "unpublished = (0, None)"

definition publish :: "table \<Rightarrow> cell \<Rightarrow> cell" where
  "publish t c = (fst c + 1, Some t)"

text \<open>The carrier's JSON.\<close>

record raw_table =
  raw_ula :: string
  raw_sites :: "(string \<times> string list) list"
  raw_groups :: "(string \<times> string list) list"

definition classify :: "string \<Rightarrow> string + string option" where
  "classify member =
     and_then (case split_once CHR ''/'' member of
         Some (a, w) \<Rightarrow> and_then (ok_or ''bad prefix length in site source'' (parse_uint 255 w)) (\<lambda>n. Inr (a, Some n))
       | None \<Rightarrow> Inr (member, None)) (\<lambda>(addr, width).
     case parse_ipv4 addr of
       Some v4 \<Rightarrow>
         (let bits = (case width of Some b \<Rightarrow> b | None \<Rightarrow> 32) in
          if 32 < bits then Inl ''prefix length above /32 in site source''
          else Inr (Some (''::ffff:'' @ show_ipv4 v4 @ ''/'' @ show_nat 10 (96 + bits))))
     | None \<Rightarrow>
         (case parse_ipv6 addr of
            Some v6 \<Rightarrow> Inr (Some (show_ipv6 v6 @ ''/'' @ show_nat 10 (case width of Some b \<Rightarrow> b | None \<Rightarrow> 128)))
          | None \<Rightarrow> Inr None))"

definition site_key :: "string \<Rightarrow> string + u16" where
  "site_key key = ok_or ''site key is not 1-65535''
     (case parse_uint 65535 key of
        None \<Rightarrow> None
      | Some n \<Rightarrow> if (of_nat n :: u16) \<noteq> 0 then Some (of_nat n) else None)"

definition site_sources :: "string list \<Rightarrow> string list" where
  "site_sources sources = filter (\<lambda>m. m \<noteq> []) (map trim sources)"

definition build_site :: "string \<times> string list \<Rightarrow> string + site" where
  "build_site = (\<lambda>(key, sources).
     and_then (site_key key) (\<lambda>sid.
     let ms = site_sources sources in
     and_then (try_map classify ms) (\<lambda>cs.
     let vpce = [as_bytes m. (m, c) \<leftarrow> zip ms cs, c = None];
         prefixes = [t. Some t \<leftarrow> cs] in
     and_then (build_from prefixes) (\<lambda>set.
       Inr \<lparr>site_id = sid, site_vpce = vpce, site_cidrs = set\<rparr>))))"

definition build_sites :: "(string \<times> string list) list \<Rightarrow> string + site list" where
  "build_sites raw = try_map build_site raw"

definition parse_table :: "(string \<Rightarrow> string + raw_table) \<Rightarrow> string \<Rightarrow> string + table" where
  "parse_table from_json txt =
     and_then (from_json txt) (\<lambda>raw.
     and_then (parse_prefix (raw_ula raw)) (\<lambda>prefix.
     and_then (build_sites (raw_sites raw)) (\<lambda>sites.
       Inr \<lparr>tbl_scheme = scheme_new prefix sites,
            tbl_groups = foldl (\<lambda>g (name, members). upsert g name members) empty_graph (raw_groups raw)\<rparr>)))"

section \<open>Expansion\<close>

definition table_ok :: "table \<Rightarrow> bool" where
  "table_ok t \<longleftrightarrow> prefix_ok (sch_prefix (tbl_scheme t)) \<and> segs_ok (tbl_scheme t)"

lemma expand_entry_single:
  assumes "prefix_ok (sch_prefix sch)" and "sha256_ok sha" and "t \<in> set (expand_entry sha sch m)"
  shows "single_cidr t"
  using assms encode_member_single [OF assms(1,2)] encode_all_sites_single [OF assms(1)]
  by (auto simp: expand_entry_def split: if_splits)

text \<open>What a literal of a rule covers: every declared site, or its encoding.\<close>

definition covers :: "(bytes \<Rightarrow> bytes) \<Rightarrow> scheme \<Rightarrow> string \<Rightarrow> u128 \<Rightarrow> bool" where
  "covers sha sch m a \<longleftrightarrow> (\<exists>t \<in> set (expand_entry sha sch m). denotes t a)"

lemma table_resolve_Inr:
  assumes "prefix_ok (sch_prefix (tbl_scheme t))" and "sha256_ok sha"
  obtains s where "table_resolve sha t list = Inr s"
    and "\<And>a. contains s a \<longleftrightarrow> (\<exists>m \<in> set list. \<exists>l. reaches (tbl_groups t) m l \<and> covers sha (tbl_scheme t) l a)"
proof -
  let ?ms = "resolve (tbl_groups t) list"
  have single: "\<And>m u. m \<in> set ?ms \<Longrightarrow> u \<in> set (expand_entry sha (tbl_scheme t) m) \<Longrightarrow> single_cidr u"
    using expand_entry_single [OF assms] by blast
  obtain s where
    "build_from (concat (map (expand_entry sha (tbl_scheme t)) ?ms)) = Inr s"
    and mem: "\<And>a. contains s a \<longleftrightarrow> (\<exists>m \<in> set ?ms. \<exists>u \<in> set (expand_entry sha (tbl_scheme t) m). denotes u a)"
    using cidrs.build_encoded [of ?ms "expand_entry sha (tbl_scheme t)"] single by blast
  then have "table_resolve sha t list = Inr s" by (simp add: table_resolve_def)
  moreover have "contains s a \<longleftrightarrow> (\<exists>m \<in> set list. \<exists>l. reaches (tbl_groups t) m l \<and> covers sha (tbl_scheme t) l a)" for a
    unfolding mem covers_def using resolve_iff by blast
  ultimately show thesis by (rule that)
qed

text \<open>For the identity of a header, covering is admitting.\<close>

definition declared :: "scheme \<Rightarrow> u16 \<Rightarrow> bool" where
  "declared sch k \<longleftrightarrow> (\<exists>s \<in> set (sch_sites sch). site_id s = k)"

definition entry_admits :: "(bytes \<Rightarrow> bytes) \<Rightarrow> scheme \<Rightarrow> string \<Rightarrow> header \<Rightarrow> bool" where
  "entry_admits sha sch m h \<longleftrightarrow>
     (if m = ''!*'' then (\<exists>k. declared sch k \<and> site_id_of sch h = Some k) else admits sha sch m h)"

lemma covers_entry:
  assumes "prefix_ok (sch_prefix sch)" and "sha256_ok sha" and "header_ok h" and "genuine sch h"
  shows "covers sha sch m (to_u128 (synthesize sha sch h)) \<longleftrightarrow> entry_admits sha sch m h"
proof (cases "m = ''!*''")
  case True
  have "denotes (site_space (sch_prefix sch) k) (to_u128 (synthesize sha sch h)) \<longleftrightarrow> site_id_of sch h = Some k" for k
  proof -
    have "length (site_addr (sch_prefix sch) k no_host) = 16" using assms(1) by simp
    then show ?thesis
      unfolding site_space_print [OF assms(1)]
      using denotes_print [of "site_addr (sch_prefix sch) k no_host" 96]
        same_prefix_bytes [OF synthesize_length [OF assms(1-3)], of "site_addr (sch_prefix sch) k no_host" 12]
        in_site_space [OF assms, of k] take_layouts(4) [OF assms(1)]
      by (simp add: to_u128_def)
  qed
  then show ?thesis
    using True by (auto simp: covers_def expand_entry_def encode_all_sites_def entry_admits_def declared_def)
next
  case False
  then show ?thesis using encode_meets [OF assms] by (simp add: covers_def expand_entry_def entry_admits_def)
qed

section \<open>Site sources\<close>

text \<open>The prefix a source stands for, IPv4 in mapped form, and the sources that are none.\<close>

definition source_net :: "string \<Rightarrow> bytes \<Rightarrow> nat \<Rightarrow> bool" where
  "source_net m os b \<longleftrightarrow> (case member_split m of (a, w) \<Rightarrow>
     (\<exists>v4. parse_ipv4 a = Some v4 \<and> os = map4 v4 \<and>
        (case w of None \<Rightarrow> b = 128 | Some t \<Rightarrow> \<exists>n \<le> 32. parse_uint 255 t = Some n \<and> b = 96 + n)) \<or>
     (parse_ipv4 a = None \<and> parse_ipv6 a = Some os \<and>
        (case w of None \<Rightarrow> b = 128 | Some t \<Rightarrow> parse_uint 255 t = Some b)))"

definition opaque :: "string \<Rightarrow> bool" where
  "opaque m \<longleftrightarrow> classify m = Inr None"

lemma show_map4: "length v4 = 4 \<Longrightarrow> show_ipv6 (map4 v4) = ''::ffff:'' @ show_ipv4 v4"
  by (simp add: show_ipv6_eq map4_def)

lemma classify_net: "classify m = Inr (Some t) \<longleftrightarrow> (\<exists>os b. source_net m os b \<and> t = print_cidr os b)"
proof (cases "split_once CHR ''/'' m")
  case None
  have split: "member_split m = (m, None)" unfolding member_split_def None by simp
  show ?thesis
    unfolding classify_def None source_net_def split
    by (cases "parse_ipv4 m"; cases "parse_ipv6 m")
      (auto simp: print_cidr_def show_map4 length_parse_ipv4)
next
  case (Some p)
  then obtain a w where aw: "split_once CHR ''/'' m = Some (a, w)" by (cases p) auto
  then have split: "member_split m = (a, Some w)" by (simp add: member_split_def del: split_once_Some)
  show ?thesis
    unfolding classify_def aw source_net_def split
    by (cases "parse_uint 255 w"; cases "parse_ipv4 a"; cases "parse_ipv6 a")
      (auto simp: print_cidr_def show_map4 length_parse_ipv4)
qed

lemma source_net_bounds: "source_net m os b \<Longrightarrow> length os = 16 \<and> b \<le> 255"
  by (auto simp: source_net_def map4_def length_parse_ipv4 dest: length_parse_ipv6 parse_uint_le
      split: prod.splits option.splits)

text \<open>A printed prefix is one token, well-formed only up to the width 128.\<close>

lemma print_cidr_token: "tokens (print_cidr os b # ts) = print_cidr os b # tokens ts"
proof -
  have "split_any separators (print_cidr os b) = [print_cidr os b]"
    using sep_not_printed by (intro split_any_single) blast
  then show ?thesis by (simp add: tokens_def print_cidr_def)
qed

lemma print_cidr_valid:
  assumes "valid_cidr (print_cidr os b)" and "length os = 16" and "b \<le> 255"
  shows "b \<le> 128"
proof -
  from assms(1) obtain ip bits where parts: "cidr_text (print_cidr os b) ip bits"
    by (auto simp: valid_cidr_def)
  then obtain i t where "show_ipv6 os @ ''/'' @ show_nat 10 b = i @ CHR ''/'' # t" "CHR ''/'' \<notin> set i"
    "parse_uint 4294967295 t = Some bits" "bits \<le> 128"
    by (auto simp: cidr_text_def print_cidr_def)
  moreover have "CHR ''/'' \<notin> set (show_ipv6 os)" by (rule show_ipv6_free) simp_all
  ultimately have "t = show_nat 10 b" and "bits \<le> 128" and "parse_uint 4294967295 t = Some bits"
    using split_once_append [of "CHR ''/''" i t] split_once_append [of "CHR ''/''" "show_ipv6 os" "show_nat 10 b"]
    by simp_all
  then show ?thesis using parse_uint_show [of b 4294967295] assms(3) by simp
qed

lemma build_prefixes:
  assumes "list_all (\<lambda>t. \<exists>m os b. source_net m os b \<and> t = print_cidr os b) ts" and "build_from ts = Inr s"
  shows "set_invar s \<and> (contains s a \<longleftrightarrow> (\<exists>t \<in> set ts. denotes t a)) \<and> list_all single_cidr ts"
proof -
  have tok: "tokens ts = ts"
    using assms(1) by (induction ts) (auto simp: print_cidr_token tokens_def [of "[]"])
  have "single_cidr t" if "t \<in> set ts" for t
  proof -
    have "tokens [t] = [t]"
      using assms(1) that print_cidr_token [of _ _ "[]"] by (auto simp: list_all_iff tokens_def [of "[]"])
    moreover have "valid_cidr t" using build_from_total [of ts] assms(2) tok that by auto
    ultimately show ?thesis by (simp add: single_cidr_def)
  qed
  then show ?thesis
    using build_from_invar [OF assms(2)] build_from_member [OF assms(2), of a] tok by (simp add: list_all_iff)
qed

text \<open>What a source claims.\<close>

definition source_covers :: "string \<Rightarrow> u128 \<Rightarrow> bool" where
  "source_covers m a \<longleftrightarrow> (\<exists>os b. source_net m os b \<and> same_prefix b a (to_u128 os))"

lemma classified_cover:
  assumes "list_all2 (\<lambda>m c. classify m = Inr c) ms cs" and "list_all single_cidr [t. Some t \<leftarrow> cs]"
  shows "(\<exists>t \<in> set [t. Some t \<leftarrow> cs]. denotes t a) \<longleftrightarrow> (\<exists>m \<in> set ms. source_covers m a)"
  using assms
proof (induction rule: list_all2_induct)
  case (Cons m ms c cs)
  have "(\<exists>t. c = Some t \<and> denotes t a) \<longleftrightarrow> source_covers m a"
  proof (cases c)
    case None
    then have "\<not> source_net m os b" for os b using Cons.hyps(1) classify_net [of m "print_cidr os b"] by auto
    then show ?thesis using None by (simp add: source_covers_def)
  next
    case (Some t)
    then obtain os b where net: "source_net m os b" "t = print_cidr os b" using Cons.hyps(1) by (auto simp: classify_net)
    have "valid_cidr t" using Cons.prems Some by (simp add: single_cidr_def)
    then have "denotes t a \<longleftrightarrow> same_prefix b a (to_u128 os)"
      using denotes_print print_cidr_valid [of os b] source_net_bounds [OF net(1)] net(2) by (simp add: to_u128_def)
    moreover have "os' = os \<and> b' = b" if "source_net m os' b'" for os' b'
      using that net(1) by (auto simp: source_net_def split: option.splits)
    ultimately have "denotes t a \<longleftrightarrow> source_covers m a" using net(1) unfolding source_covers_def by blast
    then show ?thesis using Some by simp
  qed
  then show ?case using Cons.IH Cons.prems by (cases c) auto
qed simp

lemma build_site_Inr:
  assumes "build_site (key, sources) = Inr s"
  shows "site_key key = Inr (site_id s)" and "set_invar (site_cidrs s)"
    and "v \<in> set (site_vpce s) \<longleftrightarrow> (\<exists>m \<in> set (site_sources sources). opaque m \<and> v = as_bytes m)"
    and "contains (site_cidrs s) a \<longleftrightarrow> (\<exists>m \<in> set (site_sources sources). source_covers m a)"
proof -
  let ?ms = "site_sources sources"
  from assms obtain cs set' where key: "site_key key = Inr (site_id s)"
    and cs: "list_all2 (\<lambda>m c. classify m = Inr c) ?ms cs"
    and set': "build_from [t. Some t \<leftarrow> cs] = Inr (site_cidrs s)"
    and vpce: "site_vpce s = [as_bytes m. (m, c) \<leftarrow> zip ?ms cs, c = None]"
    by (auto simp: build_site_def Let_def try_map_Inr_iff)
  show "site_key key = Inr (site_id s)" by (rule key)
  show "v \<in> set (site_vpce s) \<longleftrightarrow> (\<exists>m \<in> set ?ms. opaque m \<and> v = as_bytes m)"
    unfolding vpce using cs by (induction rule: list_all2_induct) (auto simp: opaque_def)
  have "list_all (\<lambda>t. \<exists>m os b. source_net m os b \<and> t = print_cidr os b) [t. Some t \<leftarrow> cs]"
    using cs by (induction rule: list_all2_induct) (auto simp: classify_net split: option.split)
  note built = build_prefixes [OF this set']
  then show "set_invar (site_cidrs s)" by blast
  show "contains (site_cidrs s) a \<longleftrightarrow> (\<exists>m \<in> set ?ms. source_covers m a)"
    using built classified_cover [OF cs] by blast
qed

section \<open>A parsed table\<close>

text \<open>The claims as the carrier wrote them.\<close>

definition raw_label_claims :: "raw_table \<Rightarrow> bytes \<Rightarrow> u16 set" where
  "raw_label_claims raw v = {k. \<exists>(key, sources) \<in> set (raw_sites raw). site_key key = Inr k \<and>
     (\<exists>m \<in> set (site_sources sources). opaque m \<and> v = as_bytes m)}"

definition raw_addr_claims :: "raw_table \<Rightarrow> u128 \<Rightarrow> u16 set" where
  "raw_addr_claims raw a = {k. \<exists>(key, sources) \<in> set (raw_sites raw). site_key key = Inr k \<and>
     (\<exists>m \<in> set (site_sources sources). source_covers m a)}"

lemma site_key_nonzero: "site_key key = Inr k \<Longrightarrow> k \<noteq> 0"
  by (auto simp: site_key_def split: option.splits if_splits)

lemma build_sites_claims:
  assumes "build_sites raw = Inr sites"
  shows "sites_ok sites"
    and "label_claims sites v = {k. \<exists>(key, sources) \<in> set raw. site_key key = Inr k \<and>
      (\<exists>m \<in> set (site_sources sources). opaque m \<and> v = as_bytes m)}"
    and "addr_claims sites a = {k. \<exists>(key, sources) \<in> set raw. site_key key = Inr k \<and>
      (\<exists>m \<in> set (site_sources sources). source_covers m a)}"
    and "site_id ` set sites = {k. \<exists>(key, sources) \<in> set raw. site_key key = Inr k}"
proof -
  have "list_all2 (\<lambda>e s. build_site e = Inr s) raw sites"
    using assms by (simp add: build_sites_def try_map_Inr_iff)
  then have "sites_ok sites \<and>
    label_claims sites v = {k. \<exists>(key, sources) \<in> set raw. site_key key = Inr k \<and>
      (\<exists>m \<in> set (site_sources sources). opaque m \<and> v = as_bytes m)} \<and>
    addr_claims sites a = {k. \<exists>(key, sources) \<in> set raw. site_key key = Inr k \<and>
      (\<exists>m \<in> set (site_sources sources). source_covers m a)} \<and>
    site_id ` set sites = {k. \<exists>(key, sources) \<in> set raw. site_key key = Inr k}"
  proof (induction rule: list_all2_induct)
    case (Cons e raw s sites)
    obtain key sources where e: "e = (key, sources)" by (cases e)
    note s = build_site_Inr [OF Cons(1) [unfolded e]]
    have "label_claims (s # sites) v =
        (if v \<in> set (site_vpce s) then {site_id s} else {}) \<union> label_claims sites v"
      and "addr_claims (s # sites) a =
        (if contains (site_cidrs s) a then {site_id s} else {}) \<union> addr_claims sites a"
      by (auto simp: label_claims_def addr_claims_def)
    then show ?case using Cons.IH s(1,2) s(3) [of v] s(4) [of a] by (auto simp: e sites_ok_def)
  qed (simp add: sites_ok_def label_claims_def addr_claims_def)
  then show "sites_ok sites"
    and "label_claims sites v = {k. \<exists>(key, sources) \<in> set raw. site_key key = Inr k \<and>
      (\<exists>m \<in> set (site_sources sources). opaque m \<and> v = as_bytes m)}"
    and "addr_claims sites a = {k. \<exists>(key, sources) \<in> set raw. site_key key = Inr k \<and>
      (\<exists>m \<in> set (site_sources sources). source_covers m a)}"
    and "site_id ` set sites = {k. \<exists>(key, sources) \<in> set raw. site_key key = Inr k}"
    by blast+
qed

lemma parse_table_Inr:
  assumes "parse_table from_json txt = Inr t"
  obtains raw prefix sites where "from_json txt = Inr raw" and "parse_prefix (raw_ula raw) = Inr prefix"
    and "build_sites (raw_sites raw) = Inr sites" and "tbl_scheme t = scheme_new prefix sites"
  using assms by (auto simp: parse_table_def)

lemma parse_table_ok: "parse_table from_json txt = Inr t \<Longrightarrow> table_ok t"
  by (elim parse_table_Inr)
    (simp add: table_ok_def parse_prefix_ok scheme_new_segs(1) build_sites_claims(1))

text \<open>Later groups of one name win, as \<open>HashMap::insert\<close> does.\<close>

lemma parse_table_groups:
  assumes "parse_table from_json txt = Inr t" and "from_json txt = Inr raw"
  shows "map_of (groups (tbl_groups t)) = map_of (rev (raw_groups raw))"
proof -
  have "map_of (groups (foldl (\<lambda>g (name, members). upsert g name members) g gs)) =
      map_of (groups g) ++ map_of (rev gs)" for g gs
    by (induction gs arbitrary: g) (auto simp: map_of_upsert map_add_def fun_eq_iff split: option.split)
  then show ?thesis using assms by (auto simp: parse_table_def empty_graph_def)
qed

section \<open>Example table\<close>

definition demo_raw :: raw_table where
  "demo_raw = \<lparr>raw_ula = ''fd0b:1003:5ec0::/48'',
     raw_sites = [(''7'', [''10.0.0.0/8'', '' vpce-1'']), (''9'', [''10.1.0.0/16'', ''''])],
     raw_groups = [(''seven'', [''!7''])]\<rparr>"

definition demo_table :: table where
  "demo_table = \<lparr>tbl_scheme = scheme_new [0xfd, 0x0b, 0x10, 0x03, 0x5e, 0xc0]
     [\<lparr>site_id = 7, site_vpce = [as_bytes ''vpce-1''], site_cidrs =
        \<lparr>ranges = [\<lparr>range_start = 0xffff0a000000, range_end = 0xffff0affffff\<rparr>],
         span = (0xffff0a000000, 0xffff0affffff)\<rparr>\<rparr>,
      \<lparr>site_id = 9, site_vpce = [], site_cidrs =
        \<lparr>ranges = [\<lparr>range_start = 0xffff0a010000, range_end = 0xffff0a01ffff\<rparr>],
         span = (0xffff0a010000, 0xffff0a01ffff)\<rparr>\<rparr>],
    tbl_groups = \<lparr>groups = [(''seven'', [''!7''])]\<rparr>\<rparr>"

lemma demo_parse_table: "parse_table (\<lambda>_. Inr demo_raw) [] = Inr demo_table"
proof -
  have prefix: "parse_prefix (raw_ula demo_raw) = Inr [0xfd, 0x0b, 0x10, 0x03, 0x5e, 0xc0]" by code_simp
  have src: "try_map classify (site_sources [''10.0.0.0/8'', '' vpce-1'']) = Inr [Some ''::ffff:10.0.0.0/104'', None]"
    "site_sources [''10.0.0.0/8'', '' vpce-1''] = [''10.0.0.0/8'', ''vpce-1'']"
    "try_map classify (site_sources [''10.1.0.0/16'', '''']) = Inr [Some ''::ffff:10.1.0.0/112'']"
    "site_sources [''10.1.0.0/16'', ''''] = [''10.1.0.0/16'']"
    "site_key ''7'' = Inr 7" "site_key ''9'' = Inr 9"
    by code_simp+
  have "build_from [''::ffff:10.0.0.0/104''] =
      Inr \<lparr>ranges = [\<lparr>range_start = 0xffff0a000000, range_end = 0xffff0affffff\<rparr>],
         span = (0xffff0a000000, 0xffff0affffff)\<rparr>"
    by (rule build_from_parsed) code_simp+
  moreover have "build_from [''::ffff:10.1.0.0/112''] =
      Inr \<lparr>ranges = [\<lparr>range_start = 0xffff0a010000, range_end = 0xffff0a01ffff\<rparr>],
         span = (0xffff0a010000, 0xffff0a01ffff)\<rparr>"
    by (rule build_from_parsed) code_simp+
  ultimately have "build_sites (raw_sites demo_raw) = Inr (sch_sites (tbl_scheme demo_table))"
    using src by (simp add: build_sites_def build_site_def demo_raw_def demo_table_def Let_def)
  then show ?thesis
    using prefix by (simp add: parse_table_def demo_raw_def demo_table_def upsert_def empty_graph_def)
qed

lemma demo_table_ok: "table_ok demo_table"
  by (rule parse_table_ok [OF demo_parse_table])

text \<open>A PrivateLink client of site 7, and a rule that reaches it.\<close>

definition demo_header :: header where
  "demo_header = v4_header [192, 168, 0, 1] (as_bytes ''vpce-1'')"

lemma demo_header_ok [simp]: "header_ok demo_header" "genuine sch demo_header"
  by (simp_all add: demo_header_def v4_header_ok v4_header_genuine)

lemma demo_expands:
  "expands (tbl_groups demo_table) ''@seven'' = Some (''seven'', [''!7''])"
  "expands (tbl_groups demo_table) ''!7'' = None"
  by (simp_all add: demo_table_def expands_def)

lemma demo_reaches: "reaches (tbl_groups demo_table) ''@seven'' ''!7''"
  using demo_expands by (auto intro: reaches.intros)

lemma demo_entry_admits: "entry_admits demo_sha (tbl_scheme demo_table) ''!7'' demo_header"
proof -
  have "admits demo_sha (tbl_scheme demo_table) ''!7'' demo_header" by code_simp
  then show ?thesis by (simp add: entry_admits_def)
qed

section \<open>Properties\<close>

text \<open>
  C31. A parsed table resolves exactly as the carrier wrote it: a label's site is the only
  site key listing it as an opaque source (site 0 if two do), an address's site the only key
  with a source prefix that holds it (likewise), and the declared sites are the keys, among
  which 0 is not.
\<close>

theorem parsed_table_owners:
  assumes "parse_table from_json txt = Inr t"
  shows "\<exists>raw. from_json txt = Inr raw \<and>
    (\<forall>v. label_site (tbl_scheme t) v = owner (raw_label_claims raw v)) \<and>
    (\<forall>a. addr_site (tbl_scheme t) a = owner (raw_addr_claims raw a)) \<and>
    {k. declared (tbl_scheme t) k} = {k. \<exists>(key, sources) \<in> set (raw_sites raw). site_key key = Inr k} \<and>
    \<not> declared (tbl_scheme t) SITE_CONTESTED"
proof -
  obtain raw prefix sites where raw: "from_json txt = Inr raw"
    and sites: "build_sites (raw_sites raw) = Inr sites" and t: "tbl_scheme t = scheme_new prefix sites"
    using assms by (rule parse_table_Inr)
  note claims = build_sites_claims [OF sites]
  have ids: "{k. declared (tbl_scheme t) k} = site_id ` set sites"
    by (auto simp: declared_def t)
  moreover have "\<not> declared (tbl_scheme t) SITE_CONTESTED"
    using ids claims(4) site_key_nonzero by (auto simp: SITE_CONTESTED_def)
  ultimately show ?thesis
    using raw claims by (auto simp: t label_site_owner addr_site_owner raw_label_claims_def raw_addr_claims_def)
qed

theorem parsed_table_owners_witness:
  "label_site (tbl_scheme demo_table) (as_bytes ''vpce-1'') =
     owner (raw_label_claims demo_raw (as_bytes ''vpce-1'')) \<and>
   \<not> declared (tbl_scheme demo_table) 0"
  using parsed_table_owners [OF demo_parse_table] by (auto simp: SITE_CONTESTED_def)

text \<open>
  C3. Expanding rule entries against a table always succeeds, and the set built from them
  holds the identity of a header exactly when some literal reachable from the entries through
  the groups admits that header: the star entry by any declared site, every other literal as a
  member.
\<close>

theorem rule_expansion_admits:
  assumes "table_ok t" and "sha256_ok sha" and "header_ok h" and "genuine (tbl_scheme t) h"
  shows "\<exists>s. table_resolve sha t entries = Inr s \<and>
    (contains s (to_u128 (synthesize sha (tbl_scheme t) h)) \<longleftrightarrow>
      (\<exists>m \<in> set entries. \<exists>l. reaches (tbl_groups t) m l \<and> entry_admits sha (tbl_scheme t) l h))"
proof -
  have p: "prefix_ok (sch_prefix (tbl_scheme t))" using assms(1) by (simp add: table_ok_def)
  obtain s where "table_resolve sha t entries = Inr s"
    "\<And>a. contains s a \<longleftrightarrow> (\<exists>m \<in> set entries. \<exists>l. reaches (tbl_groups t) m l \<and> covers sha (tbl_scheme t) l a)"
    using table_resolve_Inr [OF p assms(2)] by blast
  then show ?thesis using covers_entry [OF p assms(2-4)] by auto
qed

theorem rule_expansion_admits_witness:
  "\<exists>s. table_resolve demo_sha demo_table [''@seven''] = Inr s \<and>
    contains s (to_u128 (synthesize demo_sha (tbl_scheme demo_table) demo_header))"
  using rule_expansion_admits [OF demo_table_ok demo_sha_ok demo_header_ok, of "[''@seven'']"]
    demo_reaches demo_entry_admits by auto

end
