(* ===== verification/Rules.thy ===== *)
theory Rules
  imports Table
begin

text \<open>
  config.rs, the rules: the \<open>sni\<close> patterns of a scope, the choice of the scope that claims a
  server name, the expansion of a rule config against a table and the cache of it that follows
  the published generation. The specification of the choice is the most specific pattern that
  hosts the name. The cache is modelled twice: as one undisturbed call of \<open>permits\<close>, and as the
  critical sections of several callers in any order.
\<close>

section \<open>The code\<close>

datatype pattern = Exact string | Suffix string

definition pattern_parse :: "string \<Rightarrow> pattern" where
  "pattern_parse text =
     (let lower = to_ascii_lowercase text in
      case strip_prefix ''*.'' lower of
        Some rest \<Rightarrow> if rest \<noteq> [] then Suffix rest else Exact lower
      | None \<Rightarrow> Exact lower)"

record scope =
  scope_names :: "pattern list"
  scope_allow :: cidr_set

record judged =
  judged_allow :: cidr_set
  judged_scopes :: "scope list option"

definition deny_all :: "bool \<Rightarrow> judged" where
  "deny_all scoped = \<lparr>judged_allow = empty_set, judged_scopes = (if scoped then Some [] else None)\<rparr>"

definition eq_fold :: "string \<Rightarrow> bytes \<Rightarrow> bool" where
  "eq_fold pat sni \<longleftrightarrow>
     length pat = length sni \<and> list_all (\<lambda>(p, s). p = lower_byte s) (zip (as_bytes pat) sni)"

text \<open>The two tests of the loops, and \<open>position\<close> of the first dot.\<close>

definition names_exact :: "bytes \<Rightarrow> scope \<Rightarrow> bool" where
  "names_exact sni s \<longleftrightarrow>
     list_ex (\<lambda>p. case p of Exact e \<Rightarrow> eq_fold e sni | Suffix _ \<Rightarrow> False) (scope_names s)"

definition names_suffix :: "bytes \<Rightarrow> scope \<Rightarrow> bool" where
  "names_suffix rest s \<longleftrightarrow>
     list_ex (\<lambda>p. case p of Suffix x \<Rightarrow> eq_fold x rest | Exact _ \<Rightarrow> False) (scope_names s)"

fun position :: "('a \<Rightarrow> bool) \<Rightarrow> 'a list \<Rightarrow> nat option" where
  "position P [] = None"
| "position P (x # xs) = (if P x then Some 0 else map_option Suc (position P xs))"

definition dot :: u8 where "dot = 46"

lemma position_less: "position P xs = Some i \<Longrightarrow> i < length xs"
  by (induction xs arbitrary: i) (auto split: if_splits)

function match_suffix :: "scope list \<Rightarrow> bytes \<Rightarrow> cidr_set option" where
  "match_suffix scopes rest =
     (case position (\<lambda>b. b = dot) rest of
        None \<Rightarrow> None
      | Some i \<Rightarrow>
          (let rest' = drop (i + 1) rest in
           case find (names_suffix rest') scopes of
             Some s \<Rightarrow> Some (scope_allow s)
           | None \<Rightarrow> match_suffix scopes rest'))"
  by pat_completeness auto
termination match_suffix
  by (relation "measure (\<lambda>(scopes, rest). length rest)") (auto dest: position_less)

declare match_suffix.simps [simp del]

definition match_scopes :: "scope list \<Rightarrow> bytes \<Rightarrow> cidr_set option" where
  "match_scopes scopes sni =
     (case find (names_exact sni) scopes of
        Some s \<Rightarrow> Some (scope_allow s)
      | None \<Rightarrow> match_suffix scopes sni)"

definition judged_permits :: "judged \<Rightarrow> bytes \<Rightarrow> u128 \<Rightarrow> bool" where
  "judged_permits j sni addr =
     (case (case judged_scopes j of None \<Rightarrow> Some (judged_allow j) | Some list \<Rightarrow> match_scopes list sni) of
        None \<Rightarrow> False
      | Some s \<Rightarrow> contains s addr)"

definition judged_permits_unscoped :: "judged \<Rightarrow> u128 \<Rightarrow> bool" where
  "judged_permits_unscoped j addr = judged_permits j [] addr"

text \<open>
  An enforcing filter's rules. The \<open>RwLock\<close> is left out of the value: each critical section is
  one function of the cache.
\<close>

type_synonym raw_scope_list = "(pattern list \<times> string list) list"

record config =
  cfg_allow :: "string list"
  cfg_scopes :: "raw_scope_list option"
  cfg_cache :: "u64 \<times> judged"

definition judge_scope :: "(bytes \<Rightarrow> bytes) \<Rightarrow> table \<Rightarrow> pattern list \<times> string list \<Rightarrow> string + scope" where
  "judge_scope sha t = (\<lambda>(names, raw).
     and_then (table_resolve sha t raw) (\<lambda>allow. Inr \<lparr>scope_names = names, scope_allow = allow\<rparr>))"

definition judge_against :: "(bytes \<Rightarrow> bytes) \<Rightarrow> config \<Rightarrow> table \<Rightarrow> string + judged" where
  "judge_against sha cfg t =
     and_then (table_resolve sha t (cfg_allow cfg)) (\<lambda>allow.
     and_then (case cfg_scopes cfg of
         None \<Rightarrow> Inr None
       | Some list \<Rightarrow> and_then (try_map (judge_scope sha t) list) (\<lambda>scopes. Inr (Some scopes))) (\<lambda>scopes.
       Inr \<lparr>judged_allow = allow, judged_scopes = scopes\<rparr>))"

text \<open>What a rebuild stores: the expansion, or deny-all when it fails or there is no table.\<close>

definition rebuilt :: "(bytes \<Rightarrow> bytes) \<Rightarrow> config \<Rightarrow> table option \<Rightarrow> judged" where
  "rebuilt sha cfg table =
     (case table of
        Some t \<Rightarrow> (case judge_against sha cfg t of Inr j \<Rightarrow> j | Inl e \<Rightarrow> deny_all (cfg_scopes cfg \<noteq> None))
      | None \<Rightarrow> deny_all (cfg_scopes cfg \<noteq> None))"

definition rebuild :: "(bytes \<Rightarrow> bytes) \<Rightarrow> cell \<Rightarrow> config \<Rightarrow> config" where
  "rebuild sha = (\<lambda>(gen, table) cfg.
     if fst (cfg_cache cfg) \<noteq> gen then cfg\<lparr>cfg_cache := (gen, rebuilt sha cfg table)\<rparr> else cfg)"

text \<open>One undisturbed call, on the published cell it reads.\<close>

definition permits :: "(bytes \<Rightarrow> bytes) \<Rightarrow> cell \<Rightarrow> bytes \<Rightarrow> u128 \<Rightarrow> config \<Rightarrow> bool \<times> config" where
  "permits sha published sni addr cfg =
     (let cfg' = (if fst (cfg_cache cfg) \<noteq> fst published then rebuild sha published cfg else cfg) in
      (judged_permits (snd (cfg_cache cfg')) sni addr, cfg'))"

definition permits_unscoped :: "(bytes \<Rightarrow> bytes) \<Rightarrow> cell \<Rightarrow> u128 \<Rightarrow> config \<Rightarrow> bool \<times> config" where
  "permits_unscoped sha published addr cfg = permits sha published [] addr cfg"

definition has_allow :: "config \<Rightarrow> bool" where
  "has_allow cfg \<longleftrightarrow> cfg_allow cfg \<noteq> []"

definition has_scopes :: "config \<Rightarrow> bool" where
  "has_scopes cfg \<longleftrightarrow> cfg_scopes cfg \<noteq> None"

definition has_nameless_scope :: "config \<Rightarrow> bool" where
  "has_nameless_scope cfg =
     (case cfg_scopes cfg of None \<Rightarrow> False | Some list \<Rightarrow> list_ex (\<lambda>(names, _). names = []) list)"

text \<open>The JSON of a rule config as serde hands it over, defaults filled in.\<close>

record raw_scope =
  raw_sni :: "string list"
  raw_scope_allow :: "string list"

record raw_rules =
  raw_rules_allow :: "string list"
  raw_rules_scopes :: "raw_scope list option"

definition parse_rules :: "(string \<Rightarrow> string + raw_rules) \<Rightarrow> string \<Rightarrow> string + config" where
  "parse_rules from_json txt =
     and_then (from_json txt) (\<lambda>raw.
     let scopes = map_option (map (\<lambda>s. (map pattern_parse (raw_sni s), raw_scope_allow s))) (raw_rules_scopes raw) in
       Inr \<lparr>cfg_allow = raw_rules_allow raw, cfg_scopes = scopes,
            cfg_cache = (- 1, deny_all (scopes \<noteq> None))\<rparr>)"

section \<open>Patterns and the names they host\<close>

text \<open>A pattern hosts a name of the same letters, or one that adds labels in front of it.\<close>

fun hosts :: "pattern \<Rightarrow> bytes \<Rightarrow> bool" where
  "hosts (Exact e) sni \<longleftrightarrow> as_bytes e = map lower_byte sni"
| "hosts (Suffix x) sni \<longleftrightarrow> (\<exists>pre. map lower_byte sni = pre @ dot # as_bytes x)"

text \<open>Specific: exact patterns before suffixes, longer suffixes before shorter ones.\<close>

fun specificity :: "pattern \<Rightarrow> bytes \<Rightarrow> nat" where
  "specificity (Exact e) sni = Suc (length sni)"
| "specificity (Suffix x) sni = length x"

lemma eq_fold_iff: "eq_fold pat sni \<longleftrightarrow> as_bytes pat = map lower_byte sni"
proof -
  have "list_all (\<lambda>(p, s). p = lower_byte s) (zip ps sni) \<longleftrightarrow> ps = map lower_byte sni"
    if "length ps = length sni" for ps
    using that by (induction rule: list_induct2) auto
  moreover have "length pat = length sni" if "as_bytes pat = map lower_byte sni"
    using arg_cong [OF that, of length] by simp
  ultimately show ?thesis by (auto simp: eq_fold_def)
qed

lemma ex_pattern:
  "(\<exists>p \<in> S. case p of Exact e \<Rightarrow> P e | Suffix x \<Rightarrow> Q x) \<longleftrightarrow>
    (\<exists>e. Exact e \<in> S \<and> P e) \<or> (\<exists>x. Suffix x \<in> S \<and> Q x)"
  by (metis pattern.exhaust pattern.simps(5,6))

lemma names_exact_iff: "names_exact sni s \<longleftrightarrow> (\<exists>e. Exact e \<in> set (scope_names s) \<and> hosts (Exact e) sni)"
  by (simp add: names_exact_def list_ex_iff ex_pattern eq_fold_iff)

lemma names_suffix_iff:
  "names_suffix rest s \<longleftrightarrow> (\<exists>x. Suffix x \<in> set (scope_names s) \<and> as_bytes x = map lower_byte rest)"
  by (simp add: names_suffix_def list_ex_iff ex_pattern eq_fold_iff)

text \<open>Folding moves capital letters only, so nothing else becomes or stays a given lower byte.\<close>

lemma lower_below: "k < 65 \<Longrightarrow> lower_byte b = k \<longleftrightarrow> b = k"
proof (cases "65 \<le> b \<and> b \<le> 90")
  case True
  assume k: "k < 65"
  from True have "unat (b + 32) = unat b + 32" by (simp add: unat_word_ariths word_le_nat_alt)
  then have "b + 32 \<noteq> k" and "b \<noteq> k" using True k by (auto simp: word_le_nat_alt word_less_nat_alt)
  then show ?thesis using True by (simp add: lower_byte_def)
next
  case False
  then have "lower_byte b = b" unfolding lower_byte_def by (rule if_not_P)
  then show ?thesis by simp
qed

lemma lower_dot [simp]: "lower_byte b = dot \<longleftrightarrow> b = dot"
  unfolding dot_def by (rule lower_below) simp

lemma lower_dot_self [simp]: "lower_byte dot = dot"
  by simp

lemma position_split:
  "position P xs = Some i \<Longrightarrow> xs = take i xs @ xs ! i # drop (i + 1) xs \<and> P (xs ! i) \<and> (\<forall>x \<in> set (take i xs). \<not> P x)"
  by (induction xs arbitrary: i) (auto split: if_splits)

lemma position_None: "position P xs = None \<longleftrightarrow> (\<forall>x \<in> set xs. \<not> P x)"
  by (induction xs) auto

text \<open>The labels after the first dot are the longest suffix; the others lie within it.\<close>

lemma hosts_suffix_step:
  assumes "rest = pre @ dot # rest'" and "dot \<notin> set pre"
  shows "hosts (Suffix x) rest \<longleftrightarrow> as_bytes x = map lower_byte rest' \<or> hosts (Suffix x) rest'"
proof
  have free: "dot \<notin> set (map lower_byte pre)" using assms(2) by (auto dest: sym)
  assume "hosts (Suffix x) rest"
  then obtain p where "map lower_byte pre @ dot # map lower_byte rest' = p @ dot # as_bytes x"
    by (auto simp: assms(1))
  then obtain us where "map lower_byte pre = p @ us \<and> us @ dot # map lower_byte rest' = dot # as_bytes x \<or>
      map lower_byte pre @ us = p \<and> dot # map lower_byte rest' = us @ dot # as_bytes x"
    by (auto simp: append_eq_append_conv2)
  then show "as_bytes x = map lower_byte rest' \<or> hosts (Suffix x) rest'"
    using free by (cases us) (auto dest!: arg_cong [of "map lower_byte pre" _ set])
next
  assume "as_bytes x = map lower_byte rest' \<or> hosts (Suffix x) rest'"
  then show "hosts (Suffix x) rest"
  proof
    assume "as_bytes x = map lower_byte rest'"
    then show ?thesis by (simp add: assms(1))
  next
    assume "hosts (Suffix x) rest'"
    then obtain p where "map lower_byte rest' = p @ dot # as_bytes x" by auto
    then have "map lower_byte rest = (map lower_byte pre @ lower_byte dot # p) @ dot # as_bytes x"
      by (simp add: assms(1))
    then show ?thesis unfolding hosts.simps by blast
  qed
qed

lemma hosts_suffix_length: "hosts (Suffix x) sni \<Longrightarrow> length x < length sni"
  by (auto dest: arg_cong [of _ _ length])

lemma hosts_suffix_dot: "hosts (Suffix x) sni \<Longrightarrow> dot \<in> set sni"
proof -
  assume "hosts (Suffix x) sni"
  then obtain pre where "map lower_byte sni = pre @ dot # as_bytes x" by auto
  then have "dot \<in> set (map lower_byte sni)" by (metis in_set_conv_decomp)
  then show "dot \<in> set sni" by (metis (no_types, lifting) image_iff list.set_map lower_dot)
qed

lemma lowercase_star_dot:
  "to_ascii_lowercase text = ''*.'' @ rest \<longleftrightarrow> (\<exists>t. text = ''*.'' @ t \<and> rest = to_ascii_lowercase t)"
proof
  have star: "as_bytes (''*.'' @ t) = 42 # dot # as_bytes t" for t
    by (simp add: as_bytes_def dot_def)
  have low: "lower_byte 42 = 42" by (simp add: lower_below)
  assume "to_ascii_lowercase text = ''*.'' @ rest"
  then have "map lower_byte (as_bytes text) = 42 # dot # as_bytes rest" by (metis as_bytes_lowercase star)
  then obtain w where "as_bytes text = 42 # dot # w" "as_bytes rest = map lower_byte w"
    by (auto simp: map_eq_Cons_conv lower_below)
  then have "text = ''*.'' @ str_of_bytes w \<and> rest = to_ascii_lowercase (str_of_bytes w)"
    by (metis as_bytes_inject as_bytes_lowercase as_bytes_of_str star)
  then show "\<exists>t. text = ''*.'' @ t \<and> rest = to_ascii_lowercase t" by blast
next
  assume "\<exists>t. text = ''*.'' @ t \<and> rest = to_ascii_lowercase t"
  then obtain t where t: "text = ''*.'' @ t" "rest = to_ascii_lowercase t" by blast
  have "as_bytes (to_ascii_lowercase (''*.'' @ t)) = as_bytes (''*.'' @ to_ascii_lowercase t)"
    by (simp add: as_bytes_def lower_below) (simp add: as_bytes_lowercase [unfolded as_bytes_def] lower_below)
  then show "to_ascii_lowercase text = ''*.'' @ rest" using t as_bytes_inject by blast
qed

lemma lowercase_Nil [simp]: "to_ascii_lowercase s = [] \<longleftrightarrow> s = []"
  by (metis length_0_conv length_lowercase)

text \<open>The pattern of an \<open>sni\<close> text, read off the text before it is folded.\<close>

lemma pattern_parse_cases:
  "pattern_parse text = (case strip_prefix ''*.'' text of
     Some (c # rest) \<Rightarrow> Suffix (to_ascii_lowercase (c # rest))
   | _ \<Rightarrow> Exact (to_ascii_lowercase text))"
proof (cases "strip_prefix ''*.'' text")
  case None
  then have "text \<noteq> ''*.'' @ t" for t by (metis option.distinct(1) strip_prefix_Some)
  then have "strip_prefix ''*.'' (to_ascii_lowercase text) = None"
    using lowercase_star_dot by (metis not_None_eq strip_prefix_Some)
  then show ?thesis using None by (simp add: pattern_parse_def)
next
  case (Some t)
  then have "to_ascii_lowercase text = ''*.'' @ to_ascii_lowercase t"
    unfolding lowercase_star_dot by (metis strip_prefix_Some)
  then have "strip_prefix ''*.'' (to_ascii_lowercase text) = Some (to_ascii_lowercase t)"
    by (simp only: strip_prefix_Some)
  then show ?thesis using Some by (cases t) (auto simp: pattern_parse_def Let_def)
qed

section \<open>The scope that claims a name\<close>

definition claims :: "pattern list list \<Rightarrow> bytes \<Rightarrow> nat \<Rightarrow> pattern \<Rightarrow> bool" where
  "claims nss sni i p \<longleftrightarrow> i < length nss \<and> p \<in> set (nss ! i) \<and> hosts p sni"

lemma claims_map: "claims (map scope_names scopes) sni i p \<longleftrightarrow>
    i < length scopes \<and> p \<in> set (scope_names (scopes ! i)) \<and> hosts p sni"
  by (auto simp: claims_def)

text \<open>The most specific claim, and the first scope among equals.\<close>

definition best_claim :: "pattern list list \<Rightarrow> bytes \<Rightarrow> nat \<Rightarrow> pattern \<Rightarrow> bool" where
  "best_claim nss sni i p \<longleftrightarrow> claims nss sni i p \<and>
     (\<forall>j q. claims nss sni j q \<longrightarrow> specificity q sni < specificity p sni \<or>
        specificity q sni = specificity p sni \<and> i \<le> j)"

lemma best_unique: "best_claim nss sni i p \<Longrightarrow> best_claim nss sni j q \<Longrightarrow> i = j"
  unfolding best_claim_def by (metis le_antisym less_asym less_irrefl)

definition suffix_outcome :: "scope list \<Rightarrow> bytes \<Rightarrow> cidr_set option \<Rightarrow> bool" where
  "suffix_outcome scopes rest r \<longleftrightarrow> (case r of
     None \<Rightarrow> (\<forall>i x. \<not> claims (map scope_names scopes) rest i (Suffix x))
   | Some a \<Rightarrow> (\<exists>i x. claims (map scope_names scopes) rest i (Suffix x) \<and> a = scope_allow (scopes ! i) \<and>
        (\<forall>j y. claims (map scope_names scopes) rest j (Suffix y) \<longrightarrow> length y < length x \<or> length y = length x \<and> i \<le> j)))"

lemma suffix_claimed_here:
  assumes "position (\<lambda>b. b = dot) rest = Some i" and "find (names_suffix (drop (i + 1) rest)) scopes = Some s"
  shows "suffix_outcome scopes rest (Some (scope_allow s))"
proof -
  let ?rest = "drop (i + 1) rest" and ?claims = "claims (map scope_names scopes) rest"
  have step: "hosts (Suffix x) rest \<longleftrightarrow> as_bytes x = map lower_byte ?rest \<or> hosts (Suffix x) ?rest" for x
    using position_split [OF assms(1)] by (intro hosts_suffix_step [of rest "take i rest" ?rest]) auto
  obtain k where k: "k < length scopes" "names_suffix ?rest (scopes ! k)" "s = scopes ! k"
    and least: "\<And>j. j < k \<Longrightarrow> \<not> names_suffix ?rest (scopes ! j)"
    using assms(2) unfolding find_Some_iff by blast
  obtain x where x: "Suffix x \<in> set (scope_names s)" "as_bytes x = map lower_byte ?rest"
    using k unfolding names_suffix_iff by blast
  have len: "length x = length ?rest" using arg_cong [OF x(2), of length] by simp
  have "length y < length x \<or> length y = length x \<and> k \<le> j" if "?claims j (Suffix y)" for j y
  proof (cases "hosts (Suffix y) ?rest")
    case True
    then show ?thesis using hosts_suffix_length len by metis
  next
    case False
    then have y: "as_bytes y = map lower_byte ?rest" using that step by (auto simp only: claims_map)
    from arg_cong [OF this, of length] have "length y = length x" using len by simp
    then show ?thesis using that least [of j] y unfolding claims_map names_suffix_iff by (metis not_less)
  qed
  moreover have "?claims k (Suffix x)" using k x step by (auto simp only: claims_map)
  ultimately show ?thesis unfolding suffix_outcome_def k(3) by auto
qed

lemma match_suffix_outcome: "suffix_outcome scopes rest (match_suffix scopes rest)"
proof (induction scopes rest rule: match_suffix.induct)
  case (1 scopes rest)
  show ?case
  proof (cases "position (\<lambda>b. b = dot) rest")
    case None
    then have "\<not> claims (map scope_names scopes) rest i (Suffix x)" for i x
      using hosts_suffix_dot by (auto simp: claims_map position_None simp del: hosts.simps)
    then show ?thesis using None by (simp add: suffix_outcome_def match_suffix.simps [of scopes rest])
  next
    case (Some i)
    let ?rest = "drop (i + 1) rest"
    show ?thesis
    proof (cases "find (names_suffix ?rest) scopes")
      case None
      have step: "hosts (Suffix x) rest \<longleftrightarrow> as_bytes x = map lower_byte ?rest \<or> hosts (Suffix x) ?rest" for x
        using position_split [OF Some] by (intro hosts_suffix_step [of rest "take i rest" ?rest]) auto
      have "\<not> (as_bytes x = map lower_byte ?rest)"
        if "k < length scopes" "Suffix x \<in> set (scope_names (scopes ! k))" for k x
        using None that unfolding find_None_iff names_suffix_iff by (metis nth_mem)
      then have "claims (map scope_names scopes) rest k (Suffix x) = claims (map scope_names scopes) ?rest k (Suffix x)" for k x
        unfolding claims_map step by blast
      moreover have "match_suffix scopes rest = match_suffix scopes ?rest"
        using Some None by (simp add: match_suffix.simps [of scopes rest])
      ultimately show ?thesis using 1 [OF Some refl None] by (simp only: suffix_outcome_def)
    next
      case here: (Some s)
      then show ?thesis using suffix_claimed_here [OF Some here] Some by (simp add: match_suffix.simps [of scopes rest])
    qed
  qed
qed

lemma no_exact: "find (names_exact sni) scopes = None \<Longrightarrow> \<not> claims (map scope_names scopes) sni i (Exact e)"
  unfolding find_None_iff names_exact_iff claims_map using nth_mem by blast

lemma match_scopes_None: "match_scopes scopes sni = None \<Longrightarrow> \<not> claims (map scope_names scopes) sni i p"
  using match_suffix_outcome [of scopes sni] no_exact [of sni scopes]
  by (cases p) (auto simp: match_scopes_def suffix_outcome_def split: option.splits)

lemma match_scopes_best:
  assumes "match_scopes scopes sni = Some a"
  shows "\<exists>i p. best_claim (map scope_names scopes) sni i p \<and> a = scope_allow (scopes ! i)"
proof (cases "find (names_exact sni) scopes")
  case None
  note no_exact = no_exact [OF None]
  obtain i x where "claims (map scope_names scopes) sni i (Suffix x)" "a = scope_allow (scopes ! i)"
    "\<And>j y. claims (map scope_names scopes) sni j (Suffix y) \<Longrightarrow> length y < length x \<or> length y = length x \<and> i \<le> j"
    using assms match_suffix_outcome [of scopes sni] None by (auto simp: match_scopes_def suffix_outcome_def)
  then have "best_claim (map scope_names scopes) sni i (Suffix x)"
    unfolding best_claim_def using no_exact by (metis pattern.exhaust specificity.simps(2))
  then show ?thesis using \<open>a = _\<close> by blast
next
  case (Some s)
  then obtain k where k: "k < length scopes" "names_exact sni (scopes ! k)" "s = scopes ! k"
    and least: "\<And>j. j < k \<Longrightarrow> \<not> names_exact sni (scopes ! j)"
    unfolding find_Some_iff by blast
  obtain e where e: "Exact e \<in> set (scope_names s)" "hosts (Exact e) sni"
    using k unfolding names_exact_iff by blast
  have "specificity q sni < specificity (Exact e) sni \<or> specificity q sni = specificity (Exact e) sni \<and> k \<le> j"
    if "claims (map scope_names scopes) sni j q" for j q
  proof (cases q)
    case (Exact f)
    then show ?thesis using that least [of j] unfolding claims_map names_exact_iff by (metis not_less specificity.simps(1))
  next
    case (Suffix y)
    then show ?thesis using that hosts_suffix_length [of y sni] by (auto simp: claims_map simp del: hosts.simps)
  qed
  then have "best_claim (map scope_names scopes) sni k (Exact e)" using k e by (simp add: best_claim_def claims_map del: hosts.simps)
  then show ?thesis using assms Some k(3) by (auto simp: match_scopes_def)
qed

lemma match_scopes_iff:
  "match_scopes scopes sni = Some a \<longleftrightarrow> (\<exists>i p. best_claim (map scope_names scopes) sni i p \<and> a = scope_allow (scopes ! i))"
proof
  assume "\<exists>i p. best_claim (map scope_names scopes) sni i p \<and> a = scope_allow (scopes ! i)"
  then obtain i p where i: "best_claim (map scope_names scopes) sni i p" "a = scope_allow (scopes ! i)" by blast
  then obtain b where b: "match_scopes scopes sni = Some b"
    using match_scopes_None [of scopes sni i p] by (cases "match_scopes scopes sni") (auto simp: best_claim_def)
  then show "match_scopes scopes sni = Some a" using match_scopes_best [OF b] i best_unique by metis
qed (rule match_scopes_best)

section \<open>Expansion of the rules\<close>

text \<open>What a list of entries covers, and what the rules permit, against one table.\<close>

definition entries_cover :: "(bytes \<Rightarrow> bytes) \<Rightarrow> table \<Rightarrow> string list \<Rightarrow> u128 \<Rightarrow> bool" where
  "entries_cover sha t entries a \<longleftrightarrow>
     (\<exists>m \<in> set entries. \<exists>l. reaches (tbl_groups t) m l \<and> covers sha (tbl_scheme t) l a)"

definition rules_cover :: "(bytes \<Rightarrow> bytes) \<Rightarrow> table \<Rightarrow> config \<Rightarrow> bytes \<Rightarrow> u128 \<Rightarrow> bool" where
  "rules_cover sha t cfg sni a \<longleftrightarrow> (case cfg_scopes cfg of
     None \<Rightarrow> entries_cover sha t (cfg_allow cfg) a
   | Some list \<Rightarrow> \<exists>i p. best_claim (map fst list) sni i p \<and> entries_cover sha t (snd (list ! i)) a)"

lemma table_resolve_covers:
  assumes "table_ok t" and "sha256_ok sha"
  obtains s where "table_resolve sha t entries = Inr s" and "\<And>a. contains s a \<longleftrightarrow> entries_cover sha t entries a"
  using table_resolve_Inr [of t sha entries] assms by (auto simp: table_ok_def entries_cover_def)

lemma judge_scope_total:
  assumes "table_ok t" and "sha256_ok sha"
  shows "\<exists>scopes. try_map (judge_scope sha t) list = Inr scopes \<and>
    list_all2 (\<lambda>r s. scope_names s = fst r \<and> (\<forall>a. contains (scope_allow s) a \<longleftrightarrow> entries_cover sha t (snd r) a)) list scopes"
proof (induction list)
  case (Cons r list)
  obtain names raw where r: "r = (names, raw)" by (cases r)
  obtain s where "table_resolve sha t raw = Inr s" "\<And>a. contains s a \<longleftrightarrow> entries_cover sha t raw a"
    using table_resolve_covers [OF assms] by blast
  with Cons show ?case by (auto simp: r judge_scope_def)
qed simp

lemma permits_best:
  "judged_permits \<lparr>judged_allow = allow, judged_scopes = Some scopes\<rparr> sni a \<longleftrightarrow>
    (\<exists>i p. best_claim (map scope_names scopes) sni i p \<and> contains (scope_allow (scopes ! i)) a)"
proof (cases "match_scopes scopes sni")
  case None
  then show ?thesis using match_scopes_None [OF None] by (simp add: judged_permits_def best_claim_def)
next
  case (Some s)
  then obtain k q where k: "best_claim (map scope_names scopes) sni k q" "s = scope_allow (scopes ! k)"
    unfolding match_scopes_iff by blast
  have "judged_permits \<lparr>judged_allow = allow, judged_scopes = Some scopes\<rparr> sni a \<longleftrightarrow> contains (scope_allow (scopes ! k)) a"
    using Some k(2) by (simp add: judged_permits_def)
  then show ?thesis using k(1) best_unique [OF k(1)] by blast
qed

lemma judge_against_permits:
  assumes "table_ok t" and "sha256_ok sha"
  shows "\<exists>j. judge_against sha cfg t = Inr j \<and> (\<forall>sni a. judged_permits j sni a \<longleftrightarrow> rules_cover sha t cfg sni a)"
proof -
  obtain allow where allow: "table_resolve sha t (cfg_allow cfg) = Inr allow"
    "\<And>a. contains allow a \<longleftrightarrow> entries_cover sha t (cfg_allow cfg) a"
    using table_resolve_covers [OF assms] by blast
  show ?thesis
  proof (cases "cfg_scopes cfg")
    case None
    then show ?thesis using allow by (simp add: judge_against_def judged_permits_def rules_cover_def)
  next
    case (Some list)
    obtain scopes where scopes: "try_map (judge_scope sha t) list = Inr scopes"
      and rel: "list_all2 (\<lambda>r s. scope_names s = fst r \<and>
        (\<forall>a. contains (scope_allow s) a \<longleftrightarrow> entries_cover sha t (snd r) a)) list scopes"
      using judge_scope_total [OF assms] by blast
    have names: "map scope_names scopes = map fst list"
      using rel by (induction rule: list_all2_induct) auto
    have "judged_permits \<lparr>judged_allow = allow, judged_scopes = Some scopes\<rparr> sni a \<longleftrightarrow>
        rules_cover sha t cfg sni a" for sni a
    proof -
      have "contains (scope_allow (scopes ! i)) a \<longleftrightarrow> entries_cover sha t (snd (list ! i)) a"
        if "best_claim (map fst list) sni i p" for i p
        using that list_all2_nthD [OF rel, of i] by (simp add: best_claim_def claims_def)
      then show ?thesis unfolding permits_best names rules_cover_def Some by auto
    qed
    then show ?thesis using allow scopes Some by (simp add: judge_against_def)
  qed
qed

lemma rebuilt_permits:
  "table_ok t \<Longrightarrow> sha256_ok sha \<Longrightarrow> judged_permits (rebuilt sha cfg (Some t)) sni a \<longleftrightarrow> rules_cover sha t cfg sni a"
  using judge_against_permits [of t sha cfg] by (auto simp: rebuilt_def)

lemma contains_empty [simp]: "\<not> contains empty_set a"
  using contains_iff [of empty_set a] by (simp add: set_invar_def empty_set_def disjoint_ranges_def)

lemma deny_all_denies [simp]: "\<not> judged_permits (deny_all scoped) sni a"
  by (auto simp: judged_permits_def deny_all_def match_scopes_iff best_claim_def claims_def split: option.split)

lemma rebuilt_None [simp]: "rebuilt sha cfg None = deny_all (cfg_scopes cfg \<noteq> None)"
  by (simp add: rebuilt_def)

lemma rebuilt_cache [simp]: "rebuilt sha (cfg\<lparr>cfg_cache := c\<rparr>) table = rebuilt sha cfg table"
  by (simp add: rebuilt_def judge_against_def cong: option.case_cong sum.case_cong)

section \<open>The cache across publications\<close>

text \<open>The cell after a sequence of publications, the oldest first.\<close>

definition cell_of :: "table list \<Rightarrow> cell" where
  "cell_of hist = (of_nat (length hist), if hist = [] then None else Some (last hist))"

lemma cell_of_Nil: "cell_of [] = unpublished"
  by (simp add: cell_of_def unpublished_def)

lemma publish_cell: "publish t (cell_of hist) = cell_of (hist @ [t])"
  by (simp add: cell_of_def publish_def)

text \<open>The rules of a config, without its cache.\<close>

definition same_rules :: "config \<Rightarrow> config \<Rightarrow> bool" where
  "same_rules cfg cfg' \<longleftrightarrow> cfg_allow cfg = cfg_allow cfg' \<and> cfg_scopes cfg = cfg_scopes cfg'"

lemma rebuilt_same: "same_rules cfg cfg' \<Longrightarrow> rebuilt sha cfg = rebuilt sha cfg'"
  by (rule ext) (simp add: rebuilt_def judge_against_def same_rules_def cong: option.case_cong sum.case_cong)

definition cached_at :: "(bytes \<Rightarrow> bytes) \<Rightarrow> table list \<Rightarrow> nat \<Rightarrow> config \<Rightarrow> bool" where
  "cached_at sha hist k cfg \<longleftrightarrow> k \<le> length hist \<and>
     cfg_cache cfg = (of_nat k, rebuilt sha cfg (snd (cell_of (take k hist))))"

text \<open>The cache holds nothing yet, or the expansion against a table that was published.\<close>

definition cache_ok :: "(bytes \<Rightarrow> bytes) \<Rightarrow> table list \<Rightarrow> config \<Rightarrow> bool" where
  "cache_ok sha hist cfg \<longleftrightarrow>
     cfg_cache cfg = (- 1, deny_all (cfg_scopes cfg \<noteq> None)) \<or> (\<exists>k. cached_at sha hist k cfg)"

lemma generation_inject:
  assumes "k \<le> n" and "n < 2 ^ 64 - 1"
  shows "(of_nat k :: u64) = of_nat n \<longleftrightarrow> k = n" and "(of_nat k :: u64) \<noteq> - 1"
proof -
  have "unat (of_nat m :: u64) = m" if "m \<le> n" for m
    using that assms(2) by (simp add: unsigned_of_nat take_bit_eq_mod)
  from this [of k] this [of n] assms have k: "unat (of_nat k :: u64) = k" "unat (of_nat n :: u64) = n"
    by auto
  then show "(of_nat k :: u64) = of_nat n \<longleftrightarrow> k = n" by metis
  have "unat (- 1 :: u64) = 2 ^ 64 - 1" by (simp add: unsigned_minus_1_eq_mask mask_eq_exp_minus_1)
  then show "(of_nat k :: u64) \<noteq> - 1" using k assms by (metis less_irrefl order_le_less_trans)
qed

lemma rebuild_cached:
  assumes "cache_ok sha hist cfg" and "length hist < 2 ^ 64 - 1"
  shows "cached_at sha hist (length hist) (rebuild sha (cell_of hist) cfg) \<and>
    same_rules (rebuild sha (cell_of hist) cfg) cfg"
proof (cases "fst (cfg_cache cfg) = of_nat (length hist)")
  case True
  then obtain k where "cached_at sha hist k cfg"
    using assms generation_inject(2) [OF order_refl assms(2)] by (auto simp: cache_ok_def)
  then have "cached_at sha hist (length hist) cfg"
    using True generation_inject(1) [of k "length hist"] assms(2) by (auto simp: cached_at_def)
  moreover have "rebuild sha (cell_of hist) cfg = cfg"
    using True by (simp add: rebuild_def cell_of_def)
  ultimately show ?thesis by (simp add: same_rules_def)
next
  case False
  then have "rebuild sha (cell_of hist) cfg =
      cfg\<lparr>cfg_cache := (of_nat (length hist), rebuilt sha cfg (snd (cell_of hist)))\<rparr>"
    by (simp add: rebuild_def cell_of_def)
  then show ?thesis by (simp add: cached_at_def same_rules_def)
qed

lemma permits_rebuild:
  "permits sha c sni a cfg = (judged_permits (snd (cfg_cache (rebuild sha c cfg))) sni a, rebuild sha c cfg)"
  by (cases c) (simp add: permits_def rebuild_def Let_def)

lemma rules_cover_same: "same_rules cfg cfg' \<Longrightarrow> rules_cover sha t cfg = rules_cover sha t cfg'"
  by (intro ext) (simp add: rules_cover_def same_rules_def cong: option.case_cong)

definition published_ok :: "table list \<Rightarrow> bool" where
  "published_ok hist \<longleftrightarrow> list_all table_ok hist \<and> length hist < 2 ^ 64 - 1"

lemma permits_current:
  assumes "cache_ok sha hist cfg" and "published_ok hist" and "sha256_ok sha"
  shows "fst (permits sha (cell_of hist) sni a cfg) \<longleftrightarrow> hist \<noteq> [] \<and> rules_cover sha (last hist) cfg sni a"
    and "cache_ok sha hist (snd (permits sha (cell_of hist) sni a cfg))"
    and "same_rules (snd (permits sha (cell_of hist) sni a cfg)) cfg"
proof -
  let ?cfg = "rebuild sha (cell_of hist) cfg"
  have cached: "cached_at sha hist (length hist) ?cfg" and same: "same_rules ?cfg cfg"
    using rebuild_cached [OF assms(1)] assms(2) by (auto simp: published_ok_def)
  then show "cache_ok sha hist (snd (permits sha (cell_of hist) sni a cfg))"
    and "same_rules (snd (permits sha (cell_of hist) sni a cfg)) cfg"
    by (auto simp: permits_rebuild cache_ok_def)
  have "table_ok (last hist)" if "hist \<noteq> []"
    using assms(2) that by (auto simp: published_ok_def list_all_iff)
  then show "fst (permits sha (cell_of hist) sni a cfg) \<longleftrightarrow> hist \<noteq> [] \<and> rules_cover sha (last hist) cfg sni a"
    using cached rebuilt_same [OF same, of sha] rebuilt_permits [of "last hist" sha cfg] assms(3)
    by (simp add: permits_rebuild cached_at_def cell_of_def)
qed

lemma cache_ok_publish: "cache_ok sha hist cfg \<Longrightarrow> cache_ok sha (hist @ more_hist) cfg"
proof -
  have "cached_at sha (hist @ more_hist) k cfg" if "cached_at sha hist k cfg" for k
    using that by (simp add: cached_at_def)
  then show "cache_ok sha hist cfg \<Longrightarrow> ?thesis" by (auto simp: cache_ok_def)
qed

lemma parse_rules_cache: "parse_rules from_json txt = Inr cfg \<Longrightarrow> cache_ok sha hist cfg"
  by (auto simp: parse_rules_def cache_ok_def Let_def)

text \<open>For the identity of a header, covering is admitting.\<close>

definition entries_admit :: "(bytes \<Rightarrow> bytes) \<Rightarrow> table \<Rightarrow> string list \<Rightarrow> header \<Rightarrow> bool" where
  "entries_admit sha t entries h \<longleftrightarrow>
     (\<exists>m \<in> set entries. \<exists>l. reaches (tbl_groups t) m l \<and> entry_admits sha (tbl_scheme t) l h)"

definition identity_of :: "(bytes \<Rightarrow> bytes) \<Rightarrow> table \<Rightarrow> header \<Rightarrow> u128" where
  "identity_of sha t h = to_u128 (synthesize sha (tbl_scheme t) h)"

lemma entries_cover_identity:
  assumes "table_ok t" and "sha256_ok sha" and "header_ok h" and "genuine (tbl_scheme t) h"
  shows "entries_cover sha t entries (identity_of sha t h) \<longleftrightarrow> entries_admit sha t entries h"
  using covers_entry [OF _ assms(2-4)] assms(1)
  by (simp add: entries_cover_def entries_admit_def identity_of_def table_ok_def)

section \<open>Example rules\<close>

definition demo_config :: config where
  "demo_config = \<lparr>cfg_allow = [], cfg_scopes = Some [([Suffix ''example.com''], [''@seven''])],
     cfg_cache = (- 1, deny_all True)\<rparr>"

definition demo_flat :: config where
  "demo_flat = \<lparr>cfg_allow = [''@seven''], cfg_scopes = None, cfg_cache = (- 1, deny_all False)\<rparr>"

lemma demo_cache_ok [simp]: "cache_ok sha hist demo_config" "cache_ok sha hist demo_flat"
  by (simp_all add: cache_ok_def demo_config_def demo_flat_def)

lemma demo_published [simp]: "published_ok [demo_table]"
  by (simp add: published_ok_def demo_table_ok)

lemma demo_entries_admit: "entries_admit demo_sha demo_table [''@seven''] demo_header"
  using demo_reaches demo_entry_admits by (auto simp: entries_admit_def)

lemma demo_best_claim:
  "best_claim [[Suffix ''example.com'']] (as_bytes ''A.Example.com'') 0 (Suffix ''example.com'')"
proof -
  have "map lower_byte (as_bytes ''A.Example.com'') = as_bytes ''a'' @ dot # as_bytes ''example.com''"
    by code_simp
  then have "hosts (Suffix ''example.com'') (as_bytes ''A.Example.com'')" unfolding hosts.simps by blast
  then show ?thesis by (auto simp: best_claim_def claims_def simp del: hosts.simps)
qed

section \<open>Properties\<close>

text \<open>
  C10. The scope that claims a server name is the first one among those with the most specific
  pattern hosting it: an exact name before any wildcard, a longer suffix before a shorter one.
  No scope claims the name exactly when no pattern of any scope hosts it.
\<close>

theorem match_scopes_most_specific:
  "(match_scopes scopes sni = Some a \<longleftrightarrow>
      (\<exists>i p. best_claim (map scope_names scopes) sni i p \<and> a = scope_allow (scopes ! i))) \<and>
   (match_scopes scopes sni = None \<longleftrightarrow> \<not> (\<exists>i p. claims (map scope_names scopes) sni i p))"
proof -
  have "match_scopes scopes sni \<noteq> None" if "claims (map scope_names scopes) sni i p" for i p
    using that match_scopes_None [of scopes sni] by blast
  moreover have "\<exists>i p. claims (map scope_names scopes) sni i p" if "match_scopes scopes sni = Some b" for b
    using match_scopes_best [OF that] by (auto simp: best_claim_def)
  ultimately show ?thesis using match_scopes_iff by (metis option.exhaust)
qed

text \<open>
  C28. Which names the pattern of an \<open>sni\<close> text hosts, letter case aside on both sides: a text
  \<open>*.rest\<close> the names that put labels in front of \<open>.rest\<close>, never \<open>rest\<close> itself; every other
  text, the empty one and those with a star elsewhere included, exactly the name of its own
  bytes.
\<close>

theorem pattern_hosts:
  "hosts (pattern_parse text) sni \<longleftrightarrow>
     (case strip_prefix ''*.'' text of
        Some (c # rest) \<Rightarrow> (\<exists>front. map lower_byte sni = front @ dot # map lower_byte (as_bytes (c # rest)))
      | _ \<Rightarrow> map lower_byte sni = map lower_byte (as_bytes text))"
  unfolding pattern_parse_cases
  by (auto simp del: strip_prefix.simps strip_prefix_Some split: option.split list.split)


theorem pattern_hosts_witness:
  "hosts (pattern_parse ''*.Foo.com'') (as_bytes ''a.b.foo.COM'') \<and>
   \<not> hosts (pattern_parse ''*.foo.com'') (as_bytes ''foo.com'') \<and>
   hosts (pattern_parse ''foo.*'') (as_bytes ''foo.*'') \<and> hosts (pattern_parse '''') []"
proof -
  have "map lower_byte (as_bytes ''a.b.foo.COM'') = as_bytes ''a.b'' @ dot # map lower_byte (as_bytes ''Foo.com'')"
    "length (map lower_byte (as_bytes ''foo.com'')) = 7" by code_simp+
  then show ?thesis unfolding pattern_hosts
    by (auto dest: arg_cong [of _ _ length])
qed

text \<open>Against a parsed table rules always expand: the branch that denies because they do not is never taken.\<close>

lemma rules_always_expand:
  assumes "parse_table from_json txt = Inr t" and "sha256_ok sha"
  shows "\<exists>j. judge_against sha cfg t = Inr j \<and> rebuilt sha cfg (Some t) = j"
  using judge_against_permits [OF parse_table_ok [OF assms(1)] assms(2), of cfg] by (auto simp: rebuilt_def)

text \<open>
  C14. An undisturbed call of \<open>permits\<close> judges by the table published last, whatever the cache
  held before, and denies when none was published; it keeps the cache well-formed and the rules
  as they were.
\<close>

theorem permits_follows_table:
  assumes "cache_ok sha hist cfg" and "published_ok hist" and "sha256_ok sha"
  shows "(fst (permits sha (cell_of hist) sni a cfg) \<longleftrightarrow> hist \<noteq> [] \<and> rules_cover sha (last hist) cfg sni a) \<and>
    cache_ok sha hist (snd (permits sha (cell_of hist) sni a cfg)) \<and>
    same_rules (snd (permits sha (cell_of hist) sni a cfg)) cfg"
  using permits_current [OF assms] by simp

theorem permits_follows_table_witness:
  "\<not> fst (permits demo_sha unpublished [] 7 demo_config) \<and>
   (fst (permits demo_sha (cell_of [demo_table]) [] 7 demo_flat) \<longleftrightarrow>
     rules_cover demo_sha demo_table demo_flat [] 7)"
  using permits_follows_table [of demo_sha "[]" demo_config "[]" 7]
    permits_follows_table [OF demo_cache_ok(2) demo_published demo_sha_ok, of "[]" 7]
  by (simp add: demo_sha_ok published_ok_def cell_of_Nil)

text \<open>The same for the identity of a header.\<close>

lemma permits_admits:
  assumes "cache_ok sha (hist @ [t]) cfg" and "published_ok (hist @ [t])" and "sha256_ok sha"
    and "header_ok h" and "genuine (tbl_scheme t) h"
  shows "fst (permits sha (cell_of (hist @ [t])) sni (identity_of sha t h) cfg) \<longleftrightarrow>
    (case cfg_scopes cfg of
       None \<Rightarrow> entries_admit sha t (cfg_allow cfg) h
     | Some list \<Rightarrow> \<exists>i p. best_claim (map fst list) sni i p \<and> entries_admit sha t (snd (list ! i)) h)"
proof -
  have "table_ok t" using assms(2) by (simp add: published_ok_def)
  then show ?thesis
    using permits_current(1) [OF assms(1-3), of sni] entries_cover_identity [OF _ assms(3-5)]
    by (simp add: rules_cover_def split: option.split)
qed

end
