(* ===== verification/Sharing.thy ===== *)
theory Sharing
  imports Rules
begin

text \<open>
  config.rs, \<open>Config::permits\<close> called by several workers at once. The published cell and the
  cache of one config are shared behind read-write locks; each critical section of a call is one
  action, and actions of different calls and publications come in any order. Shown are the
  invariant of the shared cache, what a verdict can rest on in every interleaving, when it rests
  on the latest table, and an interleaving in which it does not.
\<close>

section \<open>Calls in steps\<close>

text \<open>A call between its critical sections, with the cell it read and what it judges.\<close>

datatype phase =
    Idle
  | Snapped cell bytes u128
  | Stale cell bytes u128
  | Ready bytes u128
  | Answered bytes u128 bool

record pool =
  published :: cell
  shared :: config
  phase_of :: "nat \<Rightarrow> phase"

datatype action = Publish table | Snapshot nat bytes u128 | Check nat | Rebuild nat | Answer nat | Return nat

definition set_phase :: "nat \<Rightarrow> phase \<Rightarrow> pool \<Rightarrow> pool" where
  "set_phase i ph p = p\<lparr>phase_of := (phase_of p)(i := ph)\<rparr>"

fun exec :: "(bytes \<Rightarrow> bytes) \<Rightarrow> action \<Rightarrow> pool \<Rightarrow> pool option" where
  "exec sha (Publish t) p = Some (p\<lparr>published := publish t (published p)\<rparr>)"
| "exec sha (Snapshot i sni a) p =
     (case phase_of p i of Idle \<Rightarrow> Some (set_phase i (Snapped (published p) sni a) p) | _ \<Rightarrow> None)"
| "exec sha (Check i) p =
     (case phase_of p i of
        Snapped c sni a \<Rightarrow>
          Some (set_phase i (if fst (cfg_cache (shared p)) \<noteq> fst c then Stale c sni a else Ready sni a) p)
      | _ \<Rightarrow> None)"
| "exec sha (Rebuild i) p =
     (case phase_of p i of
        Stale c sni a \<Rightarrow> Some (set_phase i (Ready sni a) (p\<lparr>shared := rebuild sha c (shared p)\<rparr>))
      | _ \<Rightarrow> None)"
| "exec sha (Answer i) p =
     (case phase_of p i of
        Ready sni a \<Rightarrow>
          Some (set_phase i (Answered sni a (judged_permits (snd (cfg_cache (shared p))) sni a)) p)
      | _ \<Rightarrow> None)"
| "exec sha (Return i) p =
     (case phase_of p i of Answered sni a b \<Rightarrow> Some (set_phase i Idle p) | _ \<Rightarrow> None)"

definition fresh_pool :: "config \<Rightarrow> pool" where
  "fresh_pool cfg = \<lparr>published = unpublished, shared = cfg, phase_of = (\<lambda>_. Idle)\<rparr>"

fun exec_all :: "(bytes \<Rightarrow> bytes) \<Rightarrow> action list \<Rightarrow> pool \<Rightarrow> pool option" where
  "exec_all sha [] p = Some p"
| "exec_all sha (x # xs) p = (case exec sha x p of None \<Rightarrow> None | Some q \<Rightarrow> exec_all sha xs q)"

text \<open>The states a config can be in, with the tables published on the way.\<close>

inductive reached :: "(bytes \<Rightarrow> bytes) \<Rightarrow> config \<Rightarrow> table list \<Rightarrow> pool \<Rightarrow> bool" for sha cfg where
  start: "reached sha cfg [] (fresh_pool cfg)"
| publish: "reached sha cfg hist p \<Longrightarrow> exec sha (Publish t) p = Some q \<Longrightarrow> reached sha cfg (hist @ [t]) q"
| step: "reached sha cfg hist p \<Longrightarrow> exec sha x p = Some q \<Longrightarrow> (\<And>t. x \<noteq> Publish t) \<Longrightarrow> reached sha cfg hist q"

lemma phase_set_phase [simp]: "phase_of (set_phase i ph p) = (phase_of p)(i := ph)"
  by (simp add: set_phase_def)

lemma set_phase_sel [simp]: "published (set_phase i ph p) = published p" "shared (set_phase i ph p) = shared p"
  by (simp_all add: set_phase_def)

lemma fresh_pool_sel [simp]:
  "published (fresh_pool cfg) = unpublished" "shared (fresh_pool cfg) = cfg" "phase_of (fresh_pool cfg) i = Idle"
  by (simp_all add: fresh_pool_def)

text \<open>A step that happened was in the phase it needs.\<close>

lemma exec_Check: "exec sha (Check i) p = Some q \<longleftrightarrow> (\<exists>c sni a. phase_of p i = Snapped c sni a \<and>
    q = set_phase i (if fst (cfg_cache (shared p)) \<noteq> fst c then Stale c sni a else Ready sni a) p)"
  by (auto split: phase.splits)

lemma exec_Rebuild: "exec sha (Rebuild i) p = Some q \<longleftrightarrow> (\<exists>c sni a. phase_of p i = Stale c sni a \<and>
    q = set_phase i (Ready sni a) (p\<lparr>shared := rebuild sha c (shared p)\<rparr>))"
  by (auto split: phase.splits)

lemma exec_Answer: "exec sha (Answer i) p = Some q \<longleftrightarrow> (\<exists>sni a. phase_of p i = Ready sni a \<and>
    q = set_phase i (Answered sni a (judged_permits (snd (cfg_cache (shared p))) sni a)) p)"
  by (auto split: phase.splits)

text \<open>One call alone is the sequential \<open>permits\<close>.\<close>

lemma alone_is_permits:
  assumes "phase_of p i = Idle"
  shows "\<exists>q. (exec_all sha [Snapshot i sni a, Check i, Rebuild i, Answer i] p = Some q \<or>
      exec_all sha [Snapshot i sni a, Check i, Answer i] p = Some q) \<and>
    phase_of q i = Answered sni a (fst (permits sha (published p) sni a (shared p))) \<and>
    shared q = snd (permits sha (published p) sni a (shared p)) \<and> published q = published p"
  using assms by (cases "published p") (auto simp: permits_def rebuild_def Let_def)

section \<open>The invariant of the shared cache\<close>

definition view_ok :: "table list \<Rightarrow> cell \<Rightarrow> bool" where
  "view_ok hist c \<longleftrightarrow> (\<exists>k \<le> length hist. c = cell_of (take k hist))"

text \<open>The verdict against the table published as number \<open>k\<close>; before the first, deny.\<close>

definition verdict_at :: "(bytes \<Rightarrow> bytes) \<Rightarrow> config \<Rightarrow> table list \<Rightarrow> nat \<Rightarrow> bytes \<Rightarrow> u128 \<Rightarrow> bool" where
  "verdict_at sha cfg hist k sni a \<longleftrightarrow> judged_permits (rebuilt sha cfg (snd (cell_of (take k hist)))) sni a"

fun phase_ok :: "(bytes \<Rightarrow> bytes) \<Rightarrow> config \<Rightarrow> table list \<Rightarrow> phase \<Rightarrow> bool" where
  "phase_ok sha cfg hist (Snapped c sni a) \<longleftrightarrow> view_ok hist c"
| "phase_ok sha cfg hist (Stale c sni a) \<longleftrightarrow> view_ok hist c"
| "phase_ok sha cfg hist (Answered sni a b) \<longleftrightarrow> (\<exists>k \<le> length hist. b \<longleftrightarrow> verdict_at sha cfg hist k sni a)"
| "phase_ok sha cfg hist _ \<longleftrightarrow> True"

definition pool_ok :: "(bytes \<Rightarrow> bytes) \<Rightarrow> config \<Rightarrow> table list \<Rightarrow> pool \<Rightarrow> bool" where
  "pool_ok sha cfg hist p \<longleftrightarrow> published p = cell_of hist \<and> same_rules (shared p) cfg \<and>
     cache_ok sha hist (shared p) \<and> (\<forall>i. phase_ok sha cfg hist (phase_of p i))"

lemma view_ok_now: "view_ok hist (cell_of hist)"
  by (auto simp: view_ok_def intro!: exI [of _ "length hist"])

lemma view_ok_publish: "view_ok hist c \<Longrightarrow> view_ok (hist @ [t]) c"
proof -
  assume "view_ok hist c"
  then obtain k where "k \<le> length hist" "c = cell_of (take k hist)" by (auto simp: view_ok_def)
  then have "k \<le> length (hist @ [t]) \<and> c = cell_of (take k (hist @ [t]))" by simp
  then show ?thesis unfolding view_ok_def by blast
qed

lemma phase_ok_publish: "phase_ok sha cfg hist ph \<Longrightarrow> phase_ok sha cfg (hist @ [t]) ph"
proof (cases ph)
  case (Answered sni a b)
  assume "phase_ok sha cfg hist ph"
  then obtain k where "k \<le> length hist" "b \<longleftrightarrow> verdict_at sha cfg hist k sni a" by (auto simp: Answered)
  then have "k \<le> length (hist @ [t]) \<and> (b \<longleftrightarrow> verdict_at sha cfg (hist @ [t]) k sni a)"
    by (simp add: verdict_at_def)
  then show ?thesis unfolding Answered phase_ok.simps by blast
qed (auto intro: view_ok_publish)

lemma rebuild_ok:
  assumes "cache_ok sha hist cfg" and "view_ok hist c"
  shows "cache_ok sha hist (rebuild sha c cfg) \<and> same_rules (rebuild sha c cfg) cfg"
proof -
  obtain k where k: "k \<le> length hist" "c = cell_of (take k hist)" using assms(2) by (auto simp: view_ok_def)
  then have c: "c = (of_nat k, snd (cell_of (take k hist)))" by (simp add: cell_of_def)
  have "cached_at sha hist k (cfg\<lparr>cfg_cache := (of_nat k, rebuilt sha cfg (snd (cell_of (take k hist))))\<rparr>)"
    using k by (simp add: cached_at_def)
  then have "cache_ok sha hist (cfg\<lparr>cfg_cache := (of_nat k, rebuilt sha cfg (snd (cell_of (take k hist))))\<rparr>)"
    unfolding cache_ok_def by blast
  then show ?thesis using assms(1) unfolding c rebuild_def by (auto simp: same_rules_def)
qed

lemma cached_verdict:
  assumes "cache_ok sha hist cfg'" and "same_rules cfg' cfg"
  shows "\<exists>k \<le> length hist. judged_permits (snd (cfg_cache cfg')) sni a \<longleftrightarrow> verdict_at sha cfg hist k sni a"
proof (cases "\<exists>k. cached_at sha hist k cfg'")
  case True
  then obtain k where "k \<le> length hist" "cfg_cache cfg' = (of_nat k, rebuilt sha cfg' (snd (cell_of (take k hist))))"
    by (auto simp: cached_at_def)
  then show ?thesis using rebuilt_same [OF assms(2), of sha] by (intro exI [of _ k]) (simp add: verdict_at_def)
next
  case False
  then have "cfg_cache cfg' = (- 1, deny_all (cfg_scopes cfg' \<noteq> None))" using assms(1) by (simp add: cache_ok_def)
  then show ?thesis by (intro exI [of _ 0]) (simp add: verdict_at_def cell_of_def)
qed

lemma same_rules_trans: "same_rules a b \<Longrightarrow> same_rules b c \<Longrightarrow> same_rules a c"
  by (simp add: same_rules_def)

lemma exec_ok:
  assumes "pool_ok sha cfg hist p" and "exec sha x p = Some q" and "\<And>t. x \<noteq> Publish t"
  shows "pool_ok sha cfg hist q"
proof (cases x)
  case (Rebuild i)
  then obtain c sni a where ph: "phase_of p i = Stale c sni a"
    and q: "q = set_phase i (Ready sni a) (p\<lparr>shared := rebuild sha c (shared p)\<rparr>)"
    using assms(2) unfolding Rebuild exec_Rebuild by blast
  have "view_ok hist c" using assms(1) ph by (metis phase_ok.simps(2) pool_ok_def)
  then show ?thesis
    using rebuild_ok [of sha hist "shared p" c] assms(1) by (auto simp: q pool_ok_def intro: same_rules_trans)
next
  case (Answer i)
  then show ?thesis
    using assms cached_verdict [of sha hist "shared p" cfg] by (auto simp: pool_ok_def split: phase.splits)
next
  case (Check i)
  then obtain c sni a where ph: "phase_of p i = Snapped c sni a"
    and q: "q = set_phase i (if fst (cfg_cache (shared p)) \<noteq> fst c then Stale c sni a else Ready sni a) p"
    using assms(2) unfolding Check exec_Check by blast
  have "view_ok hist c" using assms(1) ph by (metis phase_ok.simps(1) pool_ok_def)
  then show ?thesis using assms(1) by (auto simp: q pool_ok_def)
qed (use assms view_ok_now in \<open>auto simp: pool_ok_def split: phase.splits\<close>)

lemma reached_ok:
  assumes "reached sha cfg hist p" and "cache_ok sha [] cfg"
  shows "pool_ok sha cfg hist p"
  using assms(1)
proof (induction rule: reached.induct)
  case start
  then show ?case using assms(2) by (simp add: pool_ok_def cell_of_Nil same_rules_def)
next
  case (publish hist p t q)
  then show ?case
    using cache_ok_publish [of sha hist "shared p" "[t]"] phase_ok_publish
    by (auto simp: pool_ok_def publish_cell)
next
  case (step hist p x q)
  then show ?case using exec_ok by blast
qed

lemma verdict_at_table:
  assumes "published_ok hist" and "sha256_ok sha" and "k \<le> length hist"
  shows "verdict_at sha cfg hist k sni a \<longleftrightarrow> 0 < k \<and> rules_cover sha (hist ! (k - 1)) cfg sni a"
proof (cases k)
  case (Suc n)
  then have "last (take k hist) = hist ! n" using assms(3) by (simp add: take_Suc_conv_app_nth)
  moreover have "table_ok (hist ! n)"
    using assms(1,3) Suc by (auto simp: published_ok_def list_all_length)
  ultimately show ?thesis
    using rebuilt_permits [OF _ assms(2)] Suc assms(3) by (auto simp: verdict_at_def cell_of_def)
qed (simp add: verdict_at_def cell_of_def)

section \<open>Between publications\<close>

text \<open>
  Every call in flight saw the present cell; once one of them is past the check or the rebuild,
  the cache is the present one too.
\<close>

fun phase_now :: "cell \<Rightarrow> bool \<Rightarrow> (bytes \<Rightarrow> u128 \<Rightarrow> bool) \<Rightarrow> phase \<Rightarrow> bool" where
  "phase_now c fresh v (Snapped c' sni a) \<longleftrightarrow> c' = c"
| "phase_now c fresh v (Stale c' sni a) \<longleftrightarrow> c' = c"
| "phase_now c fresh v (Ready sni a) \<longleftrightarrow> fresh"
| "phase_now c fresh v (Answered sni a b) \<longleftrightarrow> (b \<longleftrightarrow> v sni a)"
| "phase_now c fresh v Idle \<longleftrightarrow> True"

definition pool_now :: "(bytes \<Rightarrow> bytes) \<Rightarrow> config \<Rightarrow> table list \<Rightarrow> pool \<Rightarrow> bool" where
  "pool_now sha cfg hist p \<longleftrightarrow> pool_ok sha cfg hist p \<and>
     (\<forall>i. phase_now (cell_of hist) (cached_at sha hist (length hist) (shared p))
        (verdict_at sha cfg hist (length hist)) (phase_of p i))"

lemma phase_now_mono: "phase_now c f v ph \<Longrightarrow> (f \<Longrightarrow> g) \<Longrightarrow> phase_now c g v ph"
  by (cases ph) auto

lemma cached_now:
  assumes "cache_ok sha hist cfg" and "fst (cfg_cache cfg) = fst (cell_of hist)" and "length hist < 2 ^ 64 - 1"
  shows "cached_at sha hist (length hist) cfg"
  using rebuild_cached [OF assms(1,3)] assms(2) by (cases "cell_of hist") (auto simp: rebuild_def)

lemma exec_now:
  assumes "pool_now sha cfg hist p" and "exec sha x p = Some q" and "\<And>t. x \<noteq> Publish t"
    and "length hist < 2 ^ 64 - 1"
  shows "pool_now sha cfg hist q"
proof -
  have ok: "pool_ok sha cfg hist p" and okq: "pool_ok sha cfg hist q"
    using assms exec_ok by (auto simp: pool_now_def)
  have cache: "cache_ok sha hist (shared p)" and same: "same_rules (shared p) cfg"
    using ok by (auto simp: pool_ok_def)
  have now: "phase_now (cell_of hist) (cached_at sha hist (length hist) (shared p))
      (verdict_at sha cfg hist (length hist)) (phase_of p i)" for i
    using assms(1) by (simp add: pool_now_def)
  show ?thesis
  proof (cases x)
    case (Rebuild i)
    then obtain c sni a where ph: "phase_of p i = Stale c sni a"
      and q: "q = set_phase i (Ready sni a) (p\<lparr>shared := rebuild sha c (shared p)\<rparr>)"
      using assms(2) unfolding Rebuild exec_Rebuild by blast
    have "c = cell_of hist" using now [of i] ph by simp
    then have "cached_at sha hist (length hist) (shared q)"
      using rebuild_cached [OF cache assms(4)] by (simp add: q)
    then show ?thesis using okq now by (auto simp: pool_now_def q intro: phase_now_mono)
  next
    case (Check i)
    then obtain c sni a where ph: "phase_of p i = Snapped c sni a"
      and q: "q = set_phase i (if fst (cfg_cache (shared p)) \<noteq> fst c then Stale c sni a else Ready sni a) p"
      using assms(2) unfolding Check exec_Check by blast
    have "c = cell_of hist" using now [of i] ph by simp
    then show ?thesis using okq now cached_now [OF cache _ assms(4)] by (auto simp: pool_now_def q)
  next
    case (Answer i)
    then obtain sni a where ph: "phase_of p i = Ready sni a"
      and q: "q = set_phase i (Answered sni a (judged_permits (snd (cfg_cache (shared p))) sni a)) p"
      using assms(2) unfolding Answer exec_Answer by blast
    have "cached_at sha hist (length hist) (shared p)" using now [of i] ph by simp
    then have "judged_permits (snd (cfg_cache (shared p))) sni a \<longleftrightarrow> verdict_at sha cfg hist (length hist) sni a"
      using rebuilt_same [OF same, of sha] by (simp add: cached_at_def verdict_at_def)
    then show ?thesis using okq now by (auto simp: pool_now_def q)
  next
    case (Snapshot i sni a)
    moreover have "published p = cell_of hist" using ok by (simp add: pool_ok_def)
    ultimately show ?thesis using assms(2) okq now by (auto simp: pool_now_def split: phase.splits)
  next
    case (Return i)
    then show ?thesis using assms(2) okq now by (auto simp: pool_now_def split: phase.splits)
  qed (use assms(3) in auto)
qed

definition quiet :: "pool \<Rightarrow> bool" where
  "quiet p \<longleftrightarrow> (\<forall>i. phase_of p i = Idle)"

lemma exec_all_now:
  assumes "pool_now sha cfg hist p" and "exec_all sha xs p = Some q" and "\<forall>x \<in> set xs. \<forall>t. x \<noteq> Publish t"
    and "length hist < 2 ^ 64 - 1"
  shows "pool_now sha cfg hist q"
  using assms(1-3)
proof (induction xs arbitrary: p)
  case (Cons x xs)
  then obtain r where "exec sha x p = Some r" "exec_all sha xs r = Some q" by (auto split: option.splits)
  then show ?case using Cons exec_now [OF _ _ _ assms(4)] by (metis list.set_intros)
qed simp

lemma reached_exec_all:
  "reached sha cfg hist p \<Longrightarrow> exec_all sha xs p = Some q \<Longrightarrow> \<forall>x \<in> set xs. \<forall>t. x \<noteq> Publish t \<Longrightarrow>
    reached sha cfg hist q"
proof (induction xs arbitrary: p)
  case (Cons x xs)
  then obtain r where "exec sha x p = Some r" "exec_all sha xs r = Some q" by (auto split: option.splits)
  moreover have "reached sha cfg hist r" using Cons.prems calculation(1) by (auto intro: reached.step)
  ultimately show ?case using Cons by auto
qed simp

text \<open>A call whose snapshot and check come before the second of two publications.\<close>

definition overtaken :: "table \<Rightarrow> table \<Rightarrow> config \<Rightarrow> bytes \<Rightarrow> u128 \<Rightarrow> pool" where
  "overtaken t1 t2 cfg sni a =
     \<lparr>published = cell_of [t1, t2], shared = cfg, phase_of = (\<lambda>_. Idle)(1 := Stale (cell_of [t1]) sni a)\<rparr>"

lemma reached_overtaken:
  assumes "parse_rules from_json txt = Inr cfg"
  shows "reached sha cfg [t1, t2] (overtaken t1 t2 cfg sni a)"
proof -
  have cache: "fst (cfg_cache cfg) = - 1" using assms by (auto simp: parse_rules_def Let_def)
  let ?p = "(fresh_pool cfg)\<lparr>published := cell_of [t1]\<rparr>"
  have "reached sha cfg [t1] ?p"
    using reached.publish [OF reached.start, where q = ?p and sha = sha and t = t1] publish_cell [of t1 "[]"]
    by (simp add: cell_of_Nil [symmetric])
  moreover have "exec_all sha [Snapshot 1 sni a, Check 1] ?p =
      Some (set_phase 1 (Stale (cell_of [t1]) sni a) ?p)"
    using cache by (simp add: cell_of_def set_phase_def fresh_pool_def)
  ultimately have "reached sha cfg [t1] (set_phase 1 (Stale (cell_of [t1]) sni a) ?p)"
    by (rule reached_exec_all) simp
  from reached.publish [OF this, where t = t2 and q = "overtaken t1 t2 cfg sni a"] show ?thesis
    using publish_cell [of t2 "[t1]"] by (simp add: overtaken_def set_phase_def fresh_pool_def)
qed

section \<open>Example runs\<close>

definition demo_revoked :: table where
  "demo_revoked = demo_table\<lparr>tbl_groups := empty_graph\<rparr>"

definition demo_id :: u128 where
  "demo_id = identity_of demo_sha demo_table demo_header"

lemma demo_flat_parsed:
  "parse_rules (\<lambda>_. Inr \<lparr>raw_rules_allow = [''@seven''], raw_rules_scopes = None\<rparr>) [] = Inr demo_flat"
  by (simp add: parse_rules_def demo_flat_def)

lemma demo_revoked_ok: "table_ok demo_revoked"
  using demo_table_ok by (simp add: demo_revoked_def table_ok_def)

lemma demo_covered: "rules_cover demo_sha demo_table demo_flat sni demo_id"
  using entries_cover_identity [OF demo_table_ok demo_sha_ok demo_header_ok] demo_entries_admit
  by (simp add: rules_cover_def demo_flat_def demo_id_def)

lemma demo_uncovered: "\<not> rules_cover demo_sha demo_revoked demo_flat sni demo_id"
proof -
  have "expands (tbl_groups demo_revoked) ''@seven'' = None"
    by (simp add: demo_revoked_def empty_graph_def expands_def)
  then have "l = ''@seven''" if "reaches (tbl_groups demo_revoked) ''@seven'' l" for l
    using that by (auto elim: reaches.cases)
  moreover have "\<not> entry_admits demo_sha (tbl_scheme demo_table) ''@seven'' demo_header"
  proof -
    have "\<not> admits demo_sha (tbl_scheme demo_table) ''@seven'' demo_header" by code_simp
    then show ?thesis by (simp add: entry_admits_def)
  qed
  ultimately have "\<not> entries_admit demo_sha demo_revoked [''@seven''] demo_header"
    by (auto simp: entries_admit_def demo_revoked_def)
  moreover have "identity_of demo_sha demo_revoked demo_header = demo_id"
    by (simp add: demo_id_def identity_of_def demo_revoked_def)
  ultimately show ?thesis
    using entries_cover_identity [OF demo_revoked_ok demo_sha_ok demo_header_ok, of "[''@seven'']"]
    by (simp add: rules_cover_def demo_flat_def)
qed

text \<open>One call after the publication of the example table.\<close>

lemma demo_call:
  obtains p xs q b where "reached demo_sha demo_flat [demo_table] p" and "quiet p"
    and "exec_all demo_sha xs p = Some q" and "\<forall>x \<in> set xs. \<forall>t. x \<noteq> Publish t"
    and "phase_of q 0 = Answered [] demo_id b"
proof -
  let ?p = "(fresh_pool demo_flat)\<lparr>published := cell_of [demo_table]\<rparr>"
  have start: "reached demo_sha demo_flat [demo_table] ?p"
    using reached.publish [OF reached.start, where q = ?p and sha = demo_sha and t = demo_table] publish_cell [of demo_table "[]"]
    by (simp add: cell_of_Nil [symmetric])
  have quiet: "quiet ?p" and idle: "phase_of ?p 0 = Idle" by (simp_all add: quiet_def fresh_pool_def)
  obtain q b where q: "exec_all demo_sha [Snapshot 0 [] demo_id, Check 0, Rebuild 0, Answer 0] ?p = Some q \<or>
      exec_all demo_sha [Snapshot 0 [] demo_id, Check 0, Answer 0] ?p = Some q"
    "phase_of q 0 = Answered [] demo_id b"
    using alone_is_permits [OF idle, of demo_sha "[]" demo_id] by blast
  from q(1) show thesis by (elim disjE) (erule that [OF start quiet _ _ q(2)]; simp)+
qed

section \<open>Properties\<close>

text \<open>
  C19. Whatever the interleaving of calls and publications, every verdict is that of the rules
  against one published table as a whole, or a denial when the expansion it used predates the
  first publication.
\<close>

theorem verdict_of_one_table:
  assumes "reached sha cfg hist p" and "parse_rules from_json txt = Inr cfg" and "published_ok hist"
    and "sha256_ok sha" and "phase_of p i = Answered sni a b"
  shows "\<exists>k \<le> length hist. b \<longleftrightarrow> 0 < k \<and> rules_cover sha (hist ! (k - 1)) cfg sni a"
proof -
  have "phase_ok sha cfg hist (phase_of p i)"
    using reached_ok [OF assms(1) parse_rules_cache [OF assms(2)]] by (simp add: pool_ok_def)
  then obtain k where "k \<le> length hist" "b \<longleftrightarrow> verdict_at sha cfg hist k sni a" using assms(5) by auto
  then show ?thesis using verdict_at_table [OF assms(3,4)] by blast
qed

text \<open>
  Once the calls in flight at the last publication are over, every verdict follows the
  table published last, however the later calls interleave, until the next publication.
\<close>

lemma quiet_calls_follow_table:
  assumes "reached sha cfg hist p" and "parse_rules from_json txt = Inr cfg" and "published_ok hist"
    and "sha256_ok sha" and "quiet p"
    and "exec_all sha xs p = Some q" and "\<forall>x \<in> set xs. \<forall>t. x \<noteq> Publish t"
    and "phase_of q i = Answered sni a b"
  shows "b \<longleftrightarrow> hist \<noteq> [] \<and> rules_cover sha (last hist) cfg sni a"
proof -
  have "pool_now sha cfg hist p"
    using reached_ok [OF assms(1) parse_rules_cache [OF assms(2)]] assms(5) by (simp add: pool_now_def quiet_def)
  then have "pool_now sha cfg hist q"
    using exec_all_now assms(3,6,7) by (simp add: published_ok_def)
  then have "phase_now (cell_of hist) (cached_at sha hist (length hist) (shared q))
      (verdict_at sha cfg hist (length hist)) (phase_of q i)"
    unfolding pool_now_def by blast
  then have "b \<longleftrightarrow> verdict_at sha cfg hist (length hist) sni a" using assms(8) by simp
  then show ?thesis
    using verdict_at_table [OF assms(3,4) order_refl] by (cases hist rule: rev_cases) auto
qed


lemma quiet_calls_follow_table_witness:
  "\<exists>p xs q b. reached demo_sha demo_flat [demo_table] p \<and> exec_all demo_sha xs p = Some q \<and>
    phase_of q 0 = Answered [] demo_id b \<and> b"
proof -
  obtain p xs q b where run: "reached demo_sha demo_flat [demo_table] p" "quiet p"
    "exec_all demo_sha xs p = Some q" "\<forall>x \<in> set xs. \<forall>t. x \<noteq> Publish t" "phase_of q 0 = Answered [] demo_id b"
    by (rule demo_call)
  have b
    using quiet_calls_follow_table [OF run(1) demo_flat_parsed demo_published demo_sha_ok run(2-5)] demo_covered
    by simp
  then show ?thesis using run by blast
qed

theorem verdict_of_one_table_witness:
  "\<exists>p b. reached demo_sha demo_flat [demo_table] p \<and> phase_of p 0 = Answered [] demo_id b \<and>
    (\<exists>k \<le> length [demo_table]. b \<longleftrightarrow> 0 < k \<and> rules_cover demo_sha ([demo_table] ! (k - 1)) demo_flat [] demo_id)"
proof -
  obtain p xs q b where run: "reached demo_sha demo_flat [demo_table] p" "quiet p"
    "exec_all demo_sha xs p = Some q" "\<forall>x \<in> set xs. \<forall>t. x \<noteq> Publish t" "phase_of q 0 = Answered [] demo_id b"
    by (rule demo_call)
  have "reached demo_sha demo_flat [demo_table] q" using run(1,3,4) by (rule reached_exec_all)
  from verdict_of_one_table [OF this demo_flat_parsed demo_published demo_sha_ok run(5)] this run(5)
  show ?thesis by blast
qed

text \<open>
  C18. Across a publication a verdict can be stale, also for a call that starts after it: a call
  that checked the cache under the old table may overwrite the rebuilt cache with the old
  expansion between another call's rebuild and its answer, and so a peer the published table
  denies is admitted.
\<close>

theorem overtaken_call_admits_stale:
  assumes "parse_rules from_json txt = Inr cfg" and "table_ok t1" and "table_ok t2" and "sha256_ok sha"
    and "rules_cover sha t1 cfg sni a" and "\<not> rules_cover sha t2 cfg sni a"
  shows "\<exists>p q. reached sha cfg [t1, t2] p \<and> published p = cell_of [t1, t2] \<and> phase_of p 0 = Idle \<and>
    exec_all sha [Snapshot 0 sni a, Check 0, Rebuild 0, Rebuild 1, Answer 0] p = Some q \<and>
    phase_of q 0 = Answered sni a True"
proof -
  let ?p = "overtaken t1 t2 cfg sni a"
  have cache: "fst (cfg_cache cfg) = - 1" using assms(1) by (auto simp: parse_rules_def Let_def)
  have "judged_permits (rebuilt sha cfg (Some t1)) sni a" using rebuilt_permits assms(2,4,5) by blast
  then have "\<exists>q. exec_all sha [Snapshot 0 sni a, Check 0, Rebuild 0, Rebuild 1, Answer 0] ?p = Some q \<and>
      phase_of q 0 = Answered sni a True"
    using cache by (simp add: overtaken_def set_phase_def cell_of_def rebuild_def)
  then show ?thesis
    using reached_overtaken [OF assms(1), of sha t1 t2 sni a] by (auto simp: overtaken_def simp del: exec_all.simps)
qed

theorem overtaken_call_admits_stale_witness:
  "\<exists>p q. reached demo_sha demo_flat [demo_table, demo_revoked] p \<and>
    exec_all demo_sha [Snapshot 0 [] demo_id, Check 0, Rebuild 0, Rebuild 1, Answer 0] p = Some q \<and>
    phase_of q 0 = Answered [] demo_id True \<and> \<not> rules_cover demo_sha demo_revoked demo_flat [] demo_id"
  using overtaken_call_admits_stale [OF demo_flat_parsed demo_table_ok demo_revoked_ok demo_sha_ok
      demo_covered demo_uncovered] demo_uncovered
  by blast

end
