(* ===== verification/Envoy.thy ===== *)
theory Envoy
  imports Prelude "HOL-Library.State_Monad"
begin

text \<open>
  The host's side of the module interface. Envoy and its SDK are not part of the program: what
  a callback asks of the host is a record of answers, a parameter of every callback, and what
  it tells the host is a list of effects in the order of the calls. Here are also the counters
  of stats.rs and the contract of a filter whose verdict is final.
\<close>

section \<open>The host\<close>

datatype status = Continue | Stop_Iteration

type_synonym counter_id = nat

datatype effect =
    Set_Remote_Address string u32 bool
  | Set_Metadata string string string
  | Drain_Buffer nat
  | Increment_Counter counter_id nat
  | Failure_Reason string
  | Continue_Filter_Chain bool
  | Set_Datagram bytes

text \<open>The answers of the host during one callback of a TCP filter, and of a UDP filter.\<close>

record envoy =
  get_buffer_chunk :: "bytes option"
  set_remote_address :: "string \<Rightarrow> u32 \<Rightarrow> bool \<Rightarrow> bool"
  get_remote_address :: "(string \<times> u32) option"
  get_requested_server_name :: "bytes option"

record udp_envoy =
  get_datagram_data :: "bytes list \<times> nat"
  set_datagram_data :: "bytes \<Rightarrow> bool"

definition closes :: "effect list \<Rightarrow> bool" where
  "closes fx \<longleftrightarrow> Continue_Filter_Chain False \<in> set fx"

section \<open>Counters\<close>

record counters =
  ctr_allowed :: "counter_id option"
  ctr_denied :: "counter_id option"
  ctr_not_ppv2 :: "counter_id option"

text \<open>
  \<open>register\<close> with the host's \<open>define\<close> as a state transformer, called once per counter in
  this order.
\<close>

definition stat_name :: "string \<Rightarrow> string \<Rightarrow> string" where
  "stat_name filter_name stat = filter_name @ ''_'' @ stat"

definition register :: "string \<Rightarrow> (string \<Rightarrow> ('s, counter_id option) state) \<Rightarrow> ('s, counters) state" where
  "register filter_name define = do {
     a \<leftarrow> define (stat_name filter_name ''allowed'');
     d \<leftarrow> define (stat_name filter_name ''denied'');
     n \<leftarrow> define (stat_name filter_name ''not_ppv2'');
     State_Monad.return \<lparr>ctr_allowed = a, ctr_denied = d, ctr_not_ppv2 = n\<rparr>
   }"

definition bump :: "counter_id option \<Rightarrow> effect list" where
  "bump c = (case c of Some i \<Rightarrow> [Increment_Counter i 1] | None \<Rightarrow> [])"

lemma bump_closes [simp]: "Continue_Filter_Chain b \<notin> set (bump c)" "Drain_Buffer n \<notin> set (bump c)"
  by (auto simp: bump_def split: option.split)

lemma closes_simps [simp]:
  "\<not> closes []" "closes (fx @ gx) \<longleftrightarrow> closes fx \<or> closes gx"
  "closes (x # fx) \<longleftrightarrow> x = Continue_Filter_Chain False \<or> closes fx" "\<not> closes (bump c)"
  by (auto simp: closes_def)

text \<open>The names a filter's counters get.\<close>

definition stats :: "string list" where
  "stats = [''allowed'', ''denied'', ''not_ppv2'']"

lemma stat_name_inject:
  assumes "s \<in> set stats" and "t \<in> set stats"
  shows "stat_name f s = stat_name g t \<longleftrightarrow> f = g \<and> s = t"
proof
  assume "stat_name f s = stat_name g t"
  then have "rev (stat_name f s) = rev (stat_name g t)" by simp
  then show "f = g \<and> s = t" using assms by (auto simp: stats_def stat_name_def)
qed simp

section \<open>Final verdicts\<close>

text \<open>
  A callback on the state of a filter: what it answers, the state it leaves and its effects.
  The contract: a settled filter answers the same for ever and touches nothing; a call that
  admits or closes settles the filter, and closing settles it against.
\<close>

locale final_verdict =
  fixes call :: "'e \<Rightarrow> 's \<Rightarrow> status \<times> 's \<times> effect list"
    and settled :: "'s \<Rightarrow> status option"
  assumes settled_call: "settled s = Some st \<Longrightarrow> call e s = (st, s, [])"
    and admits_settle: "settled s = None \<Longrightarrow> call e s = (Continue, s', fx) \<Longrightarrow> settled s' = Some Continue \<and> \<not> closes fx"
    and closes_settle: "settled s = None \<Longrightarrow> call e s = (st, s', fx) \<Longrightarrow> closes fx \<Longrightarrow> settled s' = Some Stop_Iteration"
begin

fun calls :: "'e list \<Rightarrow> 's \<Rightarrow> (status \<times> effect list) list \<times> 's" where
  "calls [] s = ([], s)"
| "calls (e # es) s =
     (case call e s of (st, s', fx) \<Rightarrow> case calls es s' of (rs, s'') \<Rightarrow> ((st, fx) # rs, s''))"

lemma settled_calls: "settled s = Some st \<Longrightarrow> calls es s = (replicate (length es) (st, []), s)"
  by (induction es) (simp_all add: settled_call)

lemma one_verdict:
  "calls es s = (rs, s') \<Longrightarrow> \<not> ((\<exists>fx. (Continue, fx) \<in> set rs) \<and> (\<exists>st fx. (st, fx) \<in> set rs \<and> closes fx))"
proof (induction es arbitrary: s rs)
  case (Cons e es)
  obtain st s1 fx where e: "call e s = (st, s1, fx)" by (cases "call e s") auto
  obtain rs1 where es: "calls es s1 = (rs1, s')" and rs: "rs = (st, fx) # rs1"
    using Cons.prems e by (auto split: prod.splits)
  show ?case
  proof (cases "settled s")
    case None
    show ?thesis
    proof (cases "st = Continue \<or> closes fx")
      case True
      then obtain st' where settled: "settled s1 = Some st'" and st': "st' = Continue \<longleftrightarrow> \<not> closes fx"
        using admits_settle [OF None, of e s1 fx] closes_settle [OF None e] e by (cases st) auto
      then have "rs1 = replicate (length es) (st', [])" using es settled_calls [OF settled, of es] by simp
      then show ?thesis using st' admits_settle [OF None, of e s1 fx] e by (auto simp: rs)
    next
      case False
      then show ?thesis using Cons.IH [OF es] by (auto simp: rs)
    qed
  next
    case (Some st0)
    then show ?thesis
      using settled_calls [OF Some, of "e # es"] Cons.prems by (auto simp del: calls.simps)
  qed
qed simp

text \<open>What happens up to the first verdict is all that happens.\<close>

lemma calls_append:
  "calls (xs @ ys) s = (case calls xs s of (rs, s1) \<Rightarrow> case calls ys s1 of (qs, s2) \<Rightarrow> (rs @ qs, s2))"
  by (induction xs arbitrary: s) (simp_all add: split_beta)

lemma verdict_is_final:
  "calls xs s = (rs, s1) \<Longrightarrow> settled s1 = Some st \<Longrightarrow>
    calls (xs @ ys) s = (rs @ replicate (length ys) (st, []), s1)"
  by (simp add: calls_append settled_calls)

end

section \<open>Registration\<close>

text \<open>Three counters are asked for, in a fixed order; filters of different names share none.\<close>

lemma counters_kept_apart:
  "snd (run_state (register f (\<lambda>n. State (\<lambda>names. (Some 0, names @ [n])))) []) = map (stat_name f) stats \<and>
   distinct (map (stat_name f) stats) \<and>
   (f = g \<or> set (map (stat_name f) stats) \<inter> set (map (stat_name g) stats) = {})"
proof (intro conjI)
  show "snd (run_state (register f (\<lambda>n. State (\<lambda>names. (Some 0, names @ [n])))) []) = map (stat_name f) stats"
    by (simp add: stats_def register_def State_Monad.bind_def State_Monad.return_def)
  have "inj_on (stat_name f) (set stats)" by (rule inj_onI) (simp add: stat_name_inject)
  then show "distinct (map (stat_name f) stats)" by (simp add: distinct_map stats_def)
  show "f = g \<or> set (map (stat_name f) stats) \<inter> set (map (stat_name g) stats) = {}"
    using stat_name_inject [of _ _ f g] by (cases "f = g") auto
qed

end
