(* ===== verification/Tcp.thy ===== *)
theory Tcp
  imports Rules Envoy
begin

text \<open>
  tcp.rs: the TCP listener filters. A callback takes the host's answers and returns its status,
  the filter it leaves and its effects; the rules a filter shares with its config are passed
  and returned, since judging may rebuild their cache. A callback that reads the published cell
  twice takes both readings, because a publication may fall between them. A panic of the parser
  would be \<open>None\<close>.
\<close>

section \<open>The code\<close>

record ppv2_config =
  pc_enforce :: bool
  pc_counters :: counters

definition enforcing :: "counters \<Rightarrow> ppv2_config" where
  "enforcing counters = \<lparr>pc_enforce = True, pc_counters = counters\<rparr>"

definition labelling :: "counters \<Rightarrow> ppv2_config" where
  "labelling counters = \<lparr>pc_enforce = False, pc_counters = counters\<rparr>"

record ppv2_filter =
  pf_enforce :: bool
  pf_counters :: counters
  pf_want :: nat
  pf_done :: bool
  pf_refused :: bool

definition new_ppv2_filter :: "ppv2_config \<Rightarrow> ppv2_filter" where
  "new_ppv2_filter pc =
     \<lparr>pf_enforce = pc_enforce pc, pf_counters = pc_counters pc, pf_want = MAX_HEADER,
      pf_done = False, pf_refused = False\<rparr>"

definition META_NS :: string where "META_NS = ''ppv2_auth''"

text \<open>What the header attested, in fixed-size storage.\<close>

record attested =
  att_vpce :: bytes
  att_vpce_len :: nat
  att_src :: bytes
  att_v6 :: bool

definition attested_of :: "header \<Rightarrow> attested" where
  "attested_of h =
     (let n = min (length (hdr_vpce h)) 32 in
      \<lparr>att_vpce = take n (hdr_vpce h) @ drop n (replicate 32 0), att_vpce_len = n,
       att_src = hdr_src h, att_v6 = hdr_v6 h\<rparr>)"

definition attested_vpce :: "attested \<Rightarrow> string" where
  "attested_vpce a = (case from_utf8 (take (att_vpce_len a) (att_vpce a)) of Some s \<Rightarrow> s | None \<Rightarrow> [])"

definition attested_src :: "attested \<Rightarrow> addr_text" where
  "attested_src a = format_src (att_src a) (att_v6 a)"

datatype decision =
    Labelled u128 addr_text u32 nat attested
  | Need_More nat
  | Not_Proxy_Protocol

definition inspect :: "(bytes \<Rightarrow> bytes) \<Rightarrow> envoy \<Rightarrow> scheme \<Rightarrow> decision option" where
  "inspect sha e sch =
     (let buf = (case get_buffer_chunk e of Some c \<Rightarrow> c | None \<Rightarrow> []) in
      map_option (\<lambda>r. case r of
          Inr h \<Rightarrow>
            (let addr = synthesize sha sch h in
             Labelled (to_u128 addr) (format addr) (ucast (hdr_port h)) (hdr_len h) (attested_of h))
        | Inl (Need n) \<Rightarrow> Need_More n
        | Inl Invalid \<Rightarrow> Not_Proxy_Protocol)
        (parse buf))"

text \<open>\<open>refuse\<close>, after the effects \<open>fx\<close> of the callback so far.\<close>

definition refuse :: "ppv2_filter \<Rightarrow> string \<Rightarrow> effect list \<Rightarrow> status \<times> ppv2_filter \<times> effect list" where
  "refuse f reason fx =
     (Stop_Iteration, f\<lparr>pf_refused := True\<rparr>, fx @ [Failure_Reason reason, Continue_Filter_Chain False])"

definition ppv2_on_accept :: "ppv2_filter \<Rightarrow> status" where
  "ppv2_on_accept f = Stop_Iteration"

definition ppv2_max_read_bytes :: "ppv2_filter \<Rightarrow> nat" where
  "ppv2_max_read_bytes f = pf_want f"

text \<open>The branch of \<open>on_data\<close> for a whole header; \<open>c\<close> is the cell \<open>permits\<close> reads.\<close>

definition on_label :: "(bytes \<Rightarrow> bytes) \<Rightarrow> cell \<Rightarrow> envoy \<Rightarrow> config \<Rightarrow> ppv2_filter \<Rightarrow>
    u128 \<Rightarrow> addr_text \<Rightarrow> u32 \<Rightarrow> nat \<Rightarrow> attested \<Rightarrow> (status \<times> ppv2_filter \<times> effect list) \<times> config" where
  "on_label sha c e cfg f ident text port len said =
     (let label = [Set_Remote_Address (as_str text) port True] in
      if \<not> set_remote_address e (as_str text) port True
      then (refuse f ''set_remote_address_failed'' label, cfg)
      else
        (let fx = label @
           [Set_Metadata META_NS ''vpce_id'' (attested_vpce said),
            Set_Metadata META_NS ''src'' (as_str (attested_src said)),
            Drain_Buffer len];
           (permitted, cfg') = (if pf_enforce f then permits_unscoped sha c ident cfg else (True, cfg)) in
         if \<not> permitted
         then (refuse f ''denied_by_allowlist'' (fx @ bump (ctr_denied (pf_counters f))), cfg')
         else ((Continue, f\<lparr>pf_done := True\<rparr>, fx @ bump (ctr_allowed (pf_counters f))), cfg')))"

definition ppv2_on_data :: "(bytes \<Rightarrow> bytes) \<Rightarrow> cell \<times> cell \<Rightarrow> envoy \<Rightarrow> config \<Rightarrow> ppv2_filter
    \<Rightarrow> ((status \<times> ppv2_filter \<times> effect list) \<times> config) option" where
  "ppv2_on_data sha cells e cfg f =
     (if pf_refused f then Some ((Stop_Iteration, f, []), cfg)
      else if pf_done f then Some ((Continue, f, []), cfg)
      else (case snd (fst cells) of
        None \<Rightarrow> Some (refuse f ''no_identity_table'' [], cfg)
      | Some table \<Rightarrow>
          map_option (\<lambda>d. case d of
              Need_More n \<Rightarrow> ((Stop_Iteration, f\<lparr>pf_want := n\<rparr>, []), cfg)
            | Not_Proxy_Protocol \<Rightarrow>
                (refuse f ''not_proxy_protocol'' (bump (ctr_not_ppv2 (pf_counters f))), cfg)
            | Labelled ident text port len said \<Rightarrow> on_label sha (snd cells) e cfg f ident text port len said)
            (inspect sha e (tbl_scheme table))))"

text \<open>\<open>auth\<close>: read the label, scope by server name.\<close>

record auth_filter =
  af_counters :: counters
  af_settled :: bool

definition new_auth_filter :: "counters \<Rightarrow> auth_filter" where
  "new_auth_filter counters = \<lparr>af_counters = counters, af_settled = False\<rparr>"

definition auth_refuse :: "auth_filter \<Rightarrow> string \<Rightarrow> effect list \<Rightarrow> status \<times> auth_filter \<times> effect list" where
  "auth_refuse f reason fx =
     (Stop_Iteration, f\<lparr>af_settled := True\<rparr>, fx @ [Failure_Reason reason, Continue_Filter_Chain False])"

definition labelled_identity :: "envoy \<Rightarrow> u128 option" where
  "labelled_identity e =
     (case get_remote_address e of
        None \<Rightarrow> None
      | Some (addr, _) \<Rightarrow> map_option to_u128 (parse_ipv6 addr))"

definition auth_on_accept :: "(bytes \<Rightarrow> bytes) \<Rightarrow> cell \<Rightarrow> envoy \<Rightarrow> config \<Rightarrow> auth_filter
    \<Rightarrow> (status \<times> auth_filter \<times> effect list) \<times> config" where
  "auth_on_accept sha c e cfg f =
     (let f = f\<lparr>af_settled := True\<rparr> in
      case labelled_identity e of
        None \<Rightarrow> (auth_refuse f ''no_identity_label'' (bump (ctr_denied (af_counters f))), cfg)
      | Some ident \<Rightarrow>
          (let sni = (case get_requested_server_name e of Some b \<Rightarrow> b | None \<Rightarrow> []);
               (permitted, cfg') = permits sha c sni ident cfg in
           if permitted then ((Continue, f, bump (ctr_allowed (af_counters f))), cfg')
           else (auth_refuse f ''denied_by_allowlist'' (bump (ctr_denied (af_counters f))), cfg')))"

definition auth_max_read_bytes :: "auth_filter \<Rightarrow> nat" where
  "auth_max_read_bytes f = 0"

definition auth_on_data :: "auth_filter \<Rightarrow> status \<times> auth_filter \<times> effect list" where
  "auth_on_data f =
     (if af_settled f then (Stop_Iteration, f, []) else auth_refuse f ''unexpected_on_data'' [])"

text \<open>\<open>table\<close>: the carrier has no state and passes everything.\<close>

definition table_on_accept :: "status" where "table_on_accept = Continue"
definition table_max_read_bytes :: nat where "table_max_read_bytes = 0"
definition table_on_data :: "unit \<Rightarrow> status \<times> unit \<times> effect list" where
  "table_on_data f = (Continue, f, [])"

section \<open>Branches\<close>

lemma inspect_total: "\<exists>d. inspect sha e sch = Some d"
  using parse_total by (auto simp: inspect_def Let_def)

lemma on_data_total: "\<exists>r. ppv2_on_data sha cells e cfg f = Some r"
proof (cases "snd (fst cells)")
  case None
  then show ?thesis by (simp add: ppv2_on_data_def del: split_paired_Ex)
next
  case (Some t)
  obtain d where "inspect sha e (tbl_scheme t) = Some d" using inspect_total by blast
  then show ?thesis using Some by (simp add: ppv2_on_data_def del: split_paired_Ex)
qed

lemma bump_not [simp]:
  "Set_Remote_Address t p b \<notin> set (bump c)" "Failure_Reason r \<notin> set (bump c)"
  by (auto simp: bump_def split: option.split)

text \<open>A waiting filter's view of its buffer.\<close>

definition chunk :: "envoy \<Rightarrow> bytes" where
  "chunk e = (case get_buffer_chunk e of Some c \<Rightarrow> c | None \<Rightarrow> [])"

definition waiting :: "ppv2_filter \<Rightarrow> bool" where
  "waiting f \<longleftrightarrow> \<not> pf_refused f \<and> \<not> pf_done f"

lemma inspect_cases:
  "inspect sha e sch = map_option (\<lambda>r. case r of
     Inr h \<Rightarrow> Labelled (to_u128 (synthesize sha sch h)) (format (synthesize sha sch h)) (ucast (hdr_port h))
        (hdr_len h) (attested_of h)
   | Inl (Need n) \<Rightarrow> Need_More n | Inl Invalid \<Rightarrow> Not_Proxy_Protocol) (parse (chunk e))"
  by (simp add: inspect_def chunk_def Let_def)

lemma on_data_waiting:
  assumes "waiting f" and "snd (fst cells) = Some t"
  shows "parse (chunk e) = Some (Inl Invalid) \<Longrightarrow> ppv2_on_data sha cells e cfg f =
      Some (refuse f ''not_proxy_protocol'' (bump (ctr_not_ppv2 (pf_counters f))), cfg)"
    and "parse (chunk e) = Some (Inl (Need n)) \<Longrightarrow> ppv2_on_data sha cells e cfg f =
      Some ((Stop_Iteration, f\<lparr>pf_want := n\<rparr>, []), cfg)"
    and "parse (chunk e) = Some (Inr h) \<Longrightarrow> ppv2_on_data sha cells e cfg f =
      Some (on_label sha (snd cells) e cfg f (identity_of sha t h)
        (format (synthesize sha (tbl_scheme t) h)) (ucast (hdr_port h)) (hdr_len h) (attested_of h))"
  using assms by (simp_all add: ppv2_on_data_def waiting_def inspect_cases identity_of_def)

lemma on_data_no_table: "waiting f \<Longrightarrow> snd (fst cells) = None \<Longrightarrow>
    ppv2_on_data sha cells e cfg f = Some (refuse f ''no_identity_table'' [], cfg)"
  by (simp add: ppv2_on_data_def waiting_def)

lemma on_data_cases:
  assumes "waiting f"
  obtains (no_table) "snd (fst cells) = None"
      "ppv2_on_data sha cells e cfg f = Some (refuse f ''no_identity_table'' [], cfg)"
  | (invalid) t where "snd (fst cells) = Some t" "parse (chunk e) = Some (Inl Invalid)"
      "ppv2_on_data sha cells e cfg f =
        Some (refuse f ''not_proxy_protocol'' (bump (ctr_not_ppv2 (pf_counters f))), cfg)"
  | (need) t n where "snd (fst cells) = Some t" "parse (chunk e) = Some (Inl (Need n))"
      "ppv2_on_data sha cells e cfg f = Some ((Stop_Iteration, f\<lparr>pf_want := n\<rparr>, []), cfg)"
  | (label) t h where "snd (fst cells) = Some t" "parse (chunk e) = Some (Inr h)"
      "ppv2_on_data sha cells e cfg f =
        Some (on_label sha (snd cells) e cfg f (identity_of sha t h)
          (format (synthesize sha (tbl_scheme t) h)) (ucast (hdr_port h)) (hdr_len h) (attested_of h))"
proof (cases "snd (fst cells)")
  case None
  then show thesis using no_table on_data_no_table [OF assms] by blast
next
  case (Some t)
  note rules = on_data_waiting [OF assms Some]
  obtain r where r: "parse (chunk e) = Some r" using parse_total by blast
  show thesis
  proof (cases r)
    case (Inl err)
    show thesis
    proof (cases err)
      case (Need n)
      then show thesis using need [OF Some] rules(2) r Inl by blast
    next
      case Invalid
      then show thesis using invalid [OF Some] rules(1) r Inl by blast
    qed
  next
    case (Inr h)
    then show thesis using label [OF Some] rules(3) r by blast
  qed
qed

section \<open>Verdicts are final\<close>

definition ppv2_settled :: "ppv2_filter \<Rightarrow> status option" where
  "ppv2_settled f =
     (if pf_refused f then Some Stop_Iteration else if pf_done f then Some Continue else None)"

lemma settled_waiting [simp]: "ppv2_settled f = None \<longleftrightarrow> waiting f"
  by (simp add: ppv2_settled_def waiting_def)

lemma refuse_sel [simp]:
  "fst (refuse f r fx) = Stop_Iteration" "ppv2_settled (fst (snd (refuse f r fx))) = Some Stop_Iteration"
  "closes (snd (snd (refuse f r fx)))"
  by (simp_all add: refuse_def ppv2_settled_def)

text \<open>The two ends of the labelling branch.\<close>

lemma on_label_outcome:
  assumes "waiting f"
  shows "\<exists>cfg'. (\<exists>r fx. on_label sha c e cfg f i txt port len said = (refuse f r fx, cfg')) \<or>
    (\<exists>fx. on_label sha c e cfg f i txt port len said = ((Continue, f\<lparr>pf_done := True\<rparr>, fx), cfg') \<and> \<not> closes fx)"
  by (auto simp: on_label_def Let_def split: prod.splits if_splits)

lemma on_data_outcome:
  assumes "waiting f"
  shows "\<exists>cfg'. (\<exists>r fx. ppv2_on_data sha cells e cfg f = Some (refuse f r fx, cfg')) \<or>
    (\<exists>fx. ppv2_on_data sha cells e cfg f = Some ((Continue, f\<lparr>pf_done := True\<rparr>, fx), cfg') \<and> \<not> closes fx) \<or>
    (\<exists>n. ppv2_on_data sha cells e cfg f = Some ((Stop_Iteration, f\<lparr>pf_want := n\<rparr>, []), cfg'))"
  using assms
proof (cases rule: on_data_cases [of f cells sha e cfg])
  case (label t h)
  then show ?thesis
    using on_label_outcome [OF assms, of sha "snd cells" e cfg "identity_of sha t h"] by (metis option.inject)
qed blast+

text \<open>One call with everything the host decides: the cells, the answers, the rules.\<close>

type_synonym data_call = "(cell \<times> cell) \<times> envoy \<times> config"

definition data_call :: "(bytes \<Rightarrow> bytes) \<Rightarrow> data_call \<Rightarrow> ppv2_filter \<Rightarrow> status \<times> ppv2_filter \<times> effect list" where
  "data_call sha = (\<lambda>(cells, e, cfg) f. fst (the (ppv2_on_data sha cells e cfg f)))"

fun data_calls :: "(bytes \<Rightarrow> bytes) \<Rightarrow> data_call list \<Rightarrow> ppv2_filter \<Rightarrow> (status \<times> effect list) list \<times> ppv2_filter" where
  "data_calls sha [] f = ([], f)"
| "data_calls sha (e # es) f =
     (case data_call sha e f of (st, f', fx) \<Rightarrow> case data_calls sha es f' of (rs, f'') \<Rightarrow> ((st, fx) # rs, f''))"

lemma data_call_waiting:
  assumes "waiting f"
  obtains (refuse) r fx where "data_call sha x f = refuse f r fx"
  | (admit) fx where "data_call sha x f = (Continue, f\<lparr>pf_done := True\<rparr>, fx)" "\<not> closes fx"
  | (wait) n where "data_call sha x f = (Stop_Iteration, f\<lparr>pf_want := n\<rparr>, [])"
proof -
  obtain cells e cfg where x: "x = (cells, e, cfg)" by (cases x) auto
  show thesis
    using on_data_outcome [OF assms, of sha cells e cfg] that by (auto simp: data_call_def x)
qed

interpretation ppv2_verdict: final_verdict "data_call sha" ppv2_settled for sha
proof
  fix f :: ppv2_filter and st x
  assume "ppv2_settled f = Some st"
  then show "data_call sha x f = (st, f, [])"
    by (cases x) (auto simp: data_call_def ppv2_on_data_def ppv2_settled_def split: if_splits)
next
  fix f f' :: ppv2_filter and x fx
  assume "ppv2_settled f = None" and call: "data_call sha x f = (Continue, f', fx)"
  then have w: "waiting f" by simp
  then have "\<not> pf_refused f" by (simp add: waiting_def)
  with call show "ppv2_settled f' = Some Continue \<and> \<not> closes fx"
    by (cases rule: data_call_waiting [OF w, of sha x]) (auto simp: ppv2_settled_def refuse_def)
next
  fix f f' :: ppv2_filter and x st fx
  assume "ppv2_settled f = None" and call: "data_call sha x f = (st, f', fx)" "closes fx"
  then have "waiting f" by simp
  then show "ppv2_settled f' = Some Stop_Iteration"
    using call by (cases rule: data_call_waiting [of f sha x]) (auto simp: ppv2_settled_def refuse_def)
qed

interpretation auth_verdict: final_verdict "\<lambda>_ :: unit. auth_on_data"
    "\<lambda>f. if af_settled f then Some Stop_Iteration else None"
  by unfold_locales (auto simp: auth_on_data_def auth_refuse_def split: if_splits)

interpretation carrier_verdict: final_verdict "\<lambda>_ :: unit. table_on_data" "\<lambda>_. Some Continue"
  by unfold_locales (simp_all add: table_on_data_def)

lemma data_calls_eq: "data_calls sha es f = ppv2_verdict.calls sha es f"
  by (induction es arbitrary: f) simp_all

section \<open>What is read and what is written\<close>

text \<open>The filters a listener can hold: never both admitted and refused, and a bounded read.\<close>

definition filter_ok :: "ppv2_filter \<Rightarrow> bool" where
  "filter_ok f \<longleftrightarrow> \<not> (pf_done f \<and> pf_refused f) \<and> pf_want f \<le> MAX_HEADER"

lemma new_filter_ok: "filter_ok (new_ppv2_filter pc)" "waiting (new_ppv2_filter pc)"
  by (simp_all add: filter_ok_def new_ppv2_filter_def waiting_def)

lemma parse_need_bound: "parse buf = Some (Inl (Need n)) \<Longrightarrow> length buf < n \<and> n \<le> MAX_HEADER"
  using parse_need [of buf n] by (auto simp: MAX_HEADER_def)

text \<open>What a call that leaves the filter waiting did: it asked for more.\<close>

lemma wait_means_need:
  assumes "waiting f" and "data_call sha (cells, e, cfg) f = (st, f', fx)" and "waiting f'"
  shows "\<exists>n. parse (chunk e) = Some (Inl (Need n)) \<and> st = Stop_Iteration \<and> fx = [] \<and> f' = f\<lparr>pf_want := n\<rparr>"
  using assms(1)
proof (cases rule: on_data_cases [of f cells sha e cfg])
  case (label t h)
  then show ?thesis
    using on_label_outcome [OF assms(1), of sha "snd cells" e cfg "identity_of sha t h"
        "format (synthesize sha (tbl_scheme t) h)" "ucast (hdr_port h)" "hdr_len h" "attested_of h"] assms(2,3)
    by (auto simp: data_call_def refuse_def waiting_def)
qed (use assms(2,3) in \<open>auto simp: data_call_def refuse_def waiting_def\<close>)

lemma data_call_ok:
  assumes "filter_ok f" and "data_call sha x f = (st, f', fx)"
  shows "filter_ok f'"
proof (cases "waiting f")
  case True
  obtain cells e cfg where x: "x = (cells, e, cfg)" by (cases x) auto
  show ?thesis
  proof (cases "waiting f'")
    case True
    then show ?thesis
      using wait_means_need [OF \<open>waiting f\<close> assms(2) [unfolded x]] parse_need_bound assms(1)
      by (auto simp: filter_ok_def)
  next
    case False
    show ?thesis
      using True assms(2)
    proof (cases rule: data_call_waiting [of f sha x])
      case (wait n)
      then have "waiting f'" using True assms(2) by (auto simp: waiting_def)
      then show ?thesis using False by simp
    qed (use True assms in \<open>auto simp: filter_ok_def waiting_def refuse_def\<close>)
  qed
next
  case False
  then obtain st' where "ppv2_settled f = Some st'" using settled_waiting by (metis option.exhaust)
  then show ?thesis using ppv2_verdict.settled_call [of f st' sha x] assms by simp
qed

lemma data_calls_ok: "filter_ok f \<Longrightarrow> data_calls sha es f = (rs, f') \<Longrightarrow> filter_ok f'"
proof (induction es arbitrary: f rs)
  case (Cons e es)
  then show ?case by (auto split: prod.splits dest: data_call_ok)
qed simp

text \<open>The trace of a call that found a whole header.\<close>

definition label_effects :: "(bytes \<Rightarrow> bytes) \<Rightarrow> table \<Rightarrow> header \<Rightarrow> effect list" where
  "label_effects sha t h =
     [Set_Remote_Address (show_ipv6 (synthesize sha (tbl_scheme t) h)) (ucast (hdr_port h)) True,
      Set_Metadata ''ppv2_auth'' ''vpce_id'' (attested_vpce (attested_of h)),
      Set_Metadata ''ppv2_auth'' ''src'' (as_str (format_src (hdr_src h) (hdr_v6 h))),
      Drain_Buffer (hdr_len h)]"

definition remote_set :: "(bytes \<Rightarrow> bytes) \<Rightarrow> envoy \<Rightarrow> table \<Rightarrow> header \<Rightarrow> bool" where
  "remote_set sha e t h \<longleftrightarrow>
     set_remote_address e (show_ipv6 (synthesize sha (tbl_scheme t) h)) (ucast (hdr_port h)) True"

definition judged_ok :: "(bytes \<Rightarrow> bytes) \<Rightarrow> cell \<Rightarrow> config \<Rightarrow> ppv2_filter \<Rightarrow> u128 \<Rightarrow> bool" where
  "judged_ok sha c cfg f ident \<longleftrightarrow> (pf_enforce f \<longrightarrow> fst (permits_unscoped sha c ident cfg))"

lemma attested_src_of: "attested_src (attested_of h) = format_src (hdr_src h) (hdr_v6 h)"
  by (simp add: attested_src_def attested_of_def Let_def)

lemma data_call_label:
  assumes "waiting f" and "snd (fst cells) = Some t" and "parse (chunk e) = Some (Inr h)"
    and "table_ok t" and "sha256_ok sha"
  shows "data_call sha (cells, e, cfg) f =
    (if \<not> remote_set sha e t h
     then refuse f ''set_remote_address_failed'' (take 1 (label_effects sha t h))
     else if judged_ok sha (snd cells) cfg f (identity_of sha t h)
     then (Continue, f\<lparr>pf_done := True\<rparr>, label_effects sha t h @ bump (ctr_allowed (pf_counters f)))
     else refuse f ''denied_by_allowlist'' (label_effects sha t h @ bump (ctr_denied (pf_counters f))))"
proof -
  have "length (synthesize sha (tbl_scheme t) h) = 16"
    using assms(4) parsed_header_ok [OF assms(3)] by (intro synthesize_length assms(5)) (simp_all add: table_ok_def)
  then have shown: "as_str (format (synthesize sha (tbl_scheme t) h)) = show_ipv6 (synthesize sha (tbl_scheme t) h)"
    by (rule as_str_format)
  show ?thesis
    unfolding data_call_def prod.case on_data_waiting(3) [OF assms(1-3)] on_label_def shown
    by (simp add: Let_def remote_set_def label_effects_def judged_ok_def attested_src_of META_NS_def split_beta)
qed

section \<open>A stream in pieces\<close>

text \<open>The calls of one connection: a constant table, and buffers that are prefixes of its stream.\<close>

definition reads_of :: "bytes \<Rightarrow> table \<Rightarrow> data_call \<Rightarrow> bool" where
  "reads_of stream t = (\<lambda>(cells, e, cfg). snd (fst cells) = Some t \<and> (\<exists>tail. stream = chunk e @ tail))"

definition buffer_of :: "data_call \<Rightarrow> bytes" where
  "buffer_of = (\<lambda>(cells, e, cfg). chunk e)"

lemma prefix_verdict:
  "reads_of stream t x \<Longrightarrow> (\<exists>n. parse (buffer_of x) = Some (Inl (Need n))) \<or> parse (buffer_of x) = parse stream"
proof -
  assume "reads_of stream t x"
  then obtain tail where stream: "stream = buffer_of x @ tail" by (auto simp: reads_of_def buffer_of_def)
  obtain r where r: "parse (buffer_of x) = Some r" using parse_total by blast
  then show ?thesis using parse_final [OF r, of tail] stream by (cases "\<exists>n. r = Inl (Need n)") auto
qed

text \<open>What a call answers does not depend on how much the filter asked for before.\<close>

definition verdict :: "(bytes \<Rightarrow> bytes) \<Rightarrow> data_call \<Rightarrow> ppv2_filter \<Rightarrow> status \<times> effect list" where
  "verdict sha x f = (case data_call sha x f of (st, f', fx) \<Rightarrow> (st, fx))"

lemma on_label_want:
  "fst (fst (on_label sha c e cfg (f\<lparr>pf_want := n\<rparr>) i s p l a)) = fst (fst (on_label sha c e cfg f i s p l a)) \<and>
   snd (snd (fst (on_label sha c e cfg (f\<lparr>pf_want := n\<rparr>) i s p l a))) = snd (snd (fst (on_label sha c e cfg f i s p l a)))"
  by (simp add: on_label_def refuse_def Let_def split_beta)

lemma verdict_want:
  assumes "waiting f"
  shows "verdict sha x (f\<lparr>pf_want := n\<rparr>) = verdict sha x f"
proof -
  obtain cells e cfg where x: "x = (cells, e, cfg)" by (cases x) auto
  let ?g = "f\<lparr>pf_want := n\<rparr>"
  have g: "waiting ?g" using assms by (simp add: waiting_def)
  from assms show ?thesis
  proof (cases rule: on_data_cases [of f cells sha e cfg])
    case no_table
    then show ?thesis using on_data_no_table [OF g] by (simp add: verdict_def x data_call_def refuse_def)
  next
    case (invalid t)
    then show ?thesis using on_data_waiting(1) [OF g] by (simp add: verdict_def x data_call_def refuse_def)
  next
    case (need t m)
    then show ?thesis using on_data_waiting(2) [OF g] by (simp add: verdict_def x data_call_def)
  next
    case (label t h)
    then show ?thesis
      using on_data_waiting(3) [OF g label(1,2)] on_label_want [where f = f and n = n]
      by (simp add: verdict_def x data_call_def split_beta)
  qed
qed

text \<open>A call that settles the filter settles it for what it answered.\<close>

lemma settling_status:
  assumes "waiting f" and "data_call sha x f = (st, f', fx)" and "\<not> waiting f'"
  shows "ppv2_settled f' = Some st"
  using assms(1)
proof (cases rule: data_call_waiting [of f sha x])
  case (refuse r gx)
  then show ?thesis using assms(2) refuse_sel(2) [of f r gx] by (simp add: refuse_def)
next
  case (admit gx)
  then show ?thesis using assms by (auto simp: ppv2_settled_def waiting_def)
next
  case (wait n)
  then show ?thesis using assms by (auto simp: waiting_def)
qed

text \<open>A call decides when it is shown enough of the stream.\<close>

definition decides :: "data_call \<Rightarrow> bool" where
  "decides x \<longleftrightarrow> \<not> (\<exists>n. parse (buffer_of x) = Some (Inl (Need n)))"

lemma data_calls_first_verdict:
  assumes "waiting f" and "list_all (reads_of stream t) es" and "\<exists>x \<in> set es. decides x"
  shows "\<exists>xs x ys. es = xs @ x # ys \<and> parse (buffer_of x) = parse stream \<and>
    fst (data_calls sha es f) =
      replicate (length xs) (Stop_Iteration, []) @ verdict sha x f # replicate (length ys) (fst (verdict sha x f), []) \<and>
    ppv2_settled (snd (data_calls sha es f)) = Some (fst (verdict sha x f))"
  using assms
proof (induction es arbitrary: f)
  case (Cons x es)
  obtain cells e cfg where x: "x = (cells, e, cfg)" by (cases x) auto
  obtain st f' fx where call: "data_call sha x f = (st, f', fx)" by (cases "data_call sha x f") auto
  obtain rs f'' where rest: "data_calls sha es f' = (rs, f'')" by (cases "data_calls sha es f'") auto
  have reads: "snd (fst cells) = Some t" "reads_of stream t x" using Cons.prems(2) by (auto simp: x reads_of_def)
  show ?case
  proof (cases "decides x")
    case False
    then obtain n where n: "parse (chunk e) = Some (Inl (Need n))" by (auto simp: x buffer_of_def decides_def)
    then have f': "st = Stop_Iteration" "f' = f\<lparr>pf_want := n\<rparr>" "fx = []"
      using on_data_waiting(2) [OF Cons.prems(1) reads(1) n] call by (simp_all add: x data_call_def)
    have "waiting f'" "list_all (reads_of stream t) es" "\<exists>x \<in> set es. decides x"
      using Cons.prems False by (simp_all add: f' waiting_def)
    from Cons.IH [OF this] obtain xs y ys where "es = xs @ y # ys" "parse (buffer_of y) = parse stream"
      "rs = replicate (length xs) (Stop_Iteration, []) @ verdict sha y f' # replicate (length ys) (fst (verdict sha y f'), [])"
      "ppv2_settled f'' = Some (fst (verdict sha y f'))"
      unfolding rest fst_conv snd_conv by blast
    then show ?thesis
      using call rest verdict_want [OF Cons.prems(1)]
      by (intro exI [of _ "x # xs"] exI [of _ y] exI [of _ ys]) (simp add: f')
  next
    case True
    then have final: "parse (buffer_of x) = parse stream" using prefix_verdict [OF reads(2)] by (auto simp: decides_def)
    have "\<not> waiting f'"
      using wait_means_need [OF Cons.prems(1) call [unfolded x]] True by (auto simp: buffer_of_def x decides_def)
    from settling_status [OF Cons.prems(1) call this] have "ppv2_settled f' = Some st" .
    then have "rs = replicate (length es) (st, []) \<and> f'' = f'"
      using ppv2_verdict.settled_calls rest by (simp add: data_calls_eq)
    then show ?thesis
      using call rest final \<open>ppv2_settled f' = Some st\<close>
      by (intro exI [of _ "[]"] exI [of _ x] exI [of _ es]) (simp add: verdict_def)
  qed
qed simp

text \<open>
  What a connection gets by its stream alone: the same published tables, the same rules whatever
  their caches hold, and a host that takes the same addresses.
\<close>

definition call_of :: "(bytes \<Rightarrow> bytes) \<Rightarrow> table list \<Rightarrow> config \<Rightarrow> (string \<Rightarrow> u32 \<Rightarrow> bool \<Rightarrow> bool) \<Rightarrow> bytes \<Rightarrow> data_call \<Rightarrow> bool" where
  "call_of sha hist rules takes stream = (\<lambda>(cells, e, cfg).
     cells = (cell_of hist, cell_of hist) \<and> (\<exists>tail. stream = chunk e @ tail) \<and> set_remote_address e = takes \<and>
     cache_ok sha hist cfg \<and> same_rules cfg rules)"

definition stream_verdict :: "(bytes \<Rightarrow> bytes) \<Rightarrow> table \<Rightarrow> config \<Rightarrow> (string \<Rightarrow> u32 \<Rightarrow> bool \<Rightarrow> bool) \<Rightarrow> bytes \<Rightarrow> ppv2_filter
    \<Rightarrow> status \<times> effect list" where
  "stream_verdict sha t rules takes stream f =
     (case parse stream of
        Some (Inr h) \<Rightarrow>
          (let label = label_effects sha t h in
           if \<not> takes (show_ipv6 (synthesize sha (tbl_scheme t) h)) (ucast (hdr_port h)) True
           then (Stop_Iteration, [hd label, Failure_Reason ''set_remote_address_failed'', Continue_Filter_Chain False])
           else if pf_enforce f \<and> \<not> rules_cover sha t rules [] (identity_of sha t h)
           then (Stop_Iteration, label @ bump (ctr_denied (pf_counters f)) @
             [Failure_Reason ''denied_by_allowlist'', Continue_Filter_Chain False])
           else (Continue, label @ bump (ctr_allowed (pf_counters f))))
      | _ \<Rightarrow> (Stop_Iteration, bump (ctr_not_ppv2 (pf_counters f)) @
             [Failure_Reason ''not_proxy_protocol'', Continue_Filter_Chain False]))"

lemma verdict_of_stream:
  assumes "waiting f" and "call_of sha (hist @ [t]) rules takes stream x" and "parse (buffer_of x) = parse stream"
    and "decides x" and "published_ok (hist @ [t])" and "sha256_ok sha"
  shows "verdict sha x f = stream_verdict sha t rules takes stream f"
proof -
  obtain e cfg where x: "x = ((cell_of (hist @ [t]), cell_of (hist @ [t])), e, cfg)"
    and takes: "set_remote_address e = takes" and cfg: "cache_ok sha (hist @ [t]) cfg" "same_rules cfg rules"
    using assms(2) by (cases x) (auto simp: call_of_def)
  have table: "snd (fst (cell_of (hist @ [t]), cell_of (hist @ [t]))) = Some t" by (simp add: cell_of_def)
  have t: "table_ok t" using assms(5) by (simp add: published_ok_def)
  have covers: "fst (permits_unscoped sha (cell_of (hist @ [t])) a cfg) \<longleftrightarrow> rules_cover sha t rules [] a" for a
    using permits_current(1) [OF cfg(1) assms(5,6)] rules_cover_same [OF cfg(2)] by (simp add: permits_unscoped_def)
  obtain r where r: "parse (chunk e) = Some r" using parse_total by blast
  then have stream: "parse stream = Some r" using assms(3) by (simp add: x buffer_of_def)
  show ?thesis
  proof (cases r)
    case (Inl err)
    then have "err = Invalid" using r assms(4) by (cases err) (auto simp: x decides_def buffer_of_def)
    then show ?thesis
      using on_data_waiting(1) [OF assms(1) table] r Inl stream
      by (simp add: stream_verdict_def verdict_def x data_call_def refuse_def)
  next
    case (Inr h)
    then show ?thesis
      using data_call_label [OF assms(1) table _ t assms(6), of e h cfg] r stream
      by (auto simp: stream_verdict_def verdict_def x refuse_def judged_ok_def covers remote_set_def takes label_effects_def)
  qed
qed

lemma calls_of_stream:
  assumes "waiting f" and "list_all (call_of sha (hist @ [t]) rules takes stream) es" and "\<exists>x \<in> set es. decides x"
    and "published_ok (hist @ [t])" and "sha256_ok sha"
  obtains k m where "fst (data_calls sha es f) = replicate k (Stop_Iteration, []) @
      stream_verdict sha t rules takes stream f # replicate m (fst (stream_verdict sha t rules takes stream f), [])"
    and "ppv2_settled (snd (data_calls sha es f)) = Some (fst (stream_verdict sha t rules takes stream f))"
    and "k + 1 + m = length es"
proof -
  have "list_all (reads_of stream t) es"
    using assms(2) by (auto simp: list_all_iff call_of_def reads_of_def cell_of_def)
  from data_calls_first_verdict [OF assms(1) this assms(3)] obtain xs x ys where es: "es = xs @ x # ys"
    and x: "parse (buffer_of x) = parse stream"
    and res: "fst (data_calls sha es f) = replicate (length xs) (Stop_Iteration, []) @
        verdict sha x f # replicate (length ys) (fst (verdict sha x f), [])"
      "ppv2_settled (snd (data_calls sha es f)) = Some (fst (verdict sha x f))"
    by blast
  obtain y where "y \<in> set es" "decides y" using assms(3) by blast
  then have "decides x"
    using assms(2) x prefix_verdict [of stream t y] by (auto simp: decides_def list_all_iff call_of_def reads_of_def cell_of_def)
  then have "verdict sha x f = stream_verdict sha t rules takes stream f"
    using assms(2) by (intro verdict_of_stream [OF assms(1) _ x _ assms(4,5)]) (simp_all add: es)
  then show thesis using that [of "length xs" "length ys"] res by (simp add: es)
qed

section \<open>Example connection\<close>

definition demo_wire :: wire where
  "demo_wire = \<lparr>w_v6 = False, w_transport = 1, w_src = [192, 168, 0, 1], w_dst = [10, 0, 0, 9],
     w_sport = 1, w_dport = 443, w_area = [0xea, 0, 7, 1] @ as_bytes ''vpce-1''\<rparr>"

definition demo_counters :: counters where
  "demo_counters = \<lparr>ctr_allowed = Some 0, ctr_denied = Some 1, ctr_not_ppv2 = None\<rparr>"

definition demo_filter :: ppv2_filter where
  "demo_filter = new_ppv2_filter (enforcing demo_counters)"

definition demo_envoy :: "bytes \<Rightarrow> envoy" where
  "demo_envoy buf = \<lparr>get_buffer_chunk = Some buf, set_remote_address = (\<lambda>_ _ _. True),
     get_remote_address = None, get_requested_server_name = None\<rparr>"

abbreviation demo_cell :: cell where
  "demo_cell \<equiv> cell_of [demo_table]"

lemma demo_wire_ok: "wire_ok demo_wire"
  by code_simp

lemma demo_wire_header: "header_of demo_wire = demo_header\<lparr>hdr_len := 38\<rparr>"
  by code_simp

lemma demo_parse: "parse (encode_wire demo_wire @ payload) = Some (Inr (demo_header\<lparr>hdr_len := 38\<rparr>))"
  using parse_encode_wire [OF demo_wire_ok] by (simp add: demo_wire_header)

text \<open>Where a header ends has no part in whom it names.\<close>

lemma synthesize_len [simp]: "synthesize sha sch (h\<lparr>hdr_len := n\<rparr>) = synthesize sha sch h"
  by (simp add: synthesize_def site_of_def mapped_def Let_def cong: option.case_cong if_cong)

lemma identity_of_len [simp]: "identity_of sha t (h\<lparr>hdr_len := n\<rparr>) = identity_of sha t h"
  by (simp add: identity_of_def)

lemma genuine_len [simp]: "genuine sch (h\<lparr>hdr_len := n\<rparr>) = genuine sch h" "header_ok (h\<lparr>hdr_len := n\<rparr>) = header_ok h"
  by (simp_all add: genuine_def verbatim_def site_of_def mapped_def header_ok_def Let_def cong: option.case_cong if_cong)

lemma demo_call_simps [simp]:
  "chunk (demo_envoy buf) = buf" "remote_set sha (demo_envoy buf) t h" "waiting demo_filter" "filter_ok demo_filter"
  "pf_enforce demo_filter" "snd demo_cell = Some demo_table"
  by (simp_all add: chunk_def demo_envoy_def remote_set_def demo_filter_def waiting_def filter_ok_def
      new_ppv2_filter_def enforcing_def cell_of_def)

lemma demo_permits: "fst (permits_unscoped demo_sha demo_cell (identity_of demo_sha demo_table demo_header) demo_flat)"
proof -
  have "rules_cover demo_sha demo_table demo_flat [] (identity_of demo_sha demo_table demo_header)"
    using entries_cover_identity [OF demo_table_ok demo_sha_ok demo_header_ok] demo_entries_admit
    by (simp add: rules_cover_def demo_flat_def)
  then show ?thesis
    using permits_current(1) [OF demo_cache_ok(2) demo_published demo_sha_ok] by (simp add: permits_unscoped_def)
qed

lemma demo_entries_admit_len: "entries_admit demo_sha demo_table [''@seven''] (demo_header\<lparr>hdr_len := n\<rparr>)"
  using demo_entries_admit entries_cover_identity [OF demo_table_ok demo_sha_ok, of "demo_header\<lparr>hdr_len := n\<rparr>"]
    entries_cover_identity [OF demo_table_ok demo_sha_ok demo_header_ok]
  by simp

lemma demo_data_call:
  "data_call demo_sha ((demo_cell, demo_cell), demo_envoy (encode_wire demo_wire @ payload), demo_flat) demo_filter =
    (Continue, demo_filter\<lparr>pf_done := True\<rparr>,
     label_effects demo_sha demo_table (demo_header\<lparr>hdr_len := 38\<rparr>) @ [Increment_Counter 0 1])"
proof -
  have "pf_counters demo_filter = demo_counters" by (simp add: demo_filter_def new_ppv2_filter_def enforcing_def)
  then show ?thesis
    using demo_permits data_call_label [where f = demo_filter and cells = "(demo_cell, demo_cell)"
        and e = "demo_envoy (encode_wire demo_wire @ payload)", OF _ _ _ demo_table_ok demo_sha_ok]
    by (simp add: demo_parse judged_ok_def bump_def demo_counters_def)
qed

lemma demo_ports: "w_sport demo_wire = 1" "hdr_port demo_header = 1"
  by (simp_all add: demo_wire_def demo_header_def v4_header_def)

definition demo_reads :: "bytes \<Rightarrow> nat list \<Rightarrow> data_call list" where
  "demo_reads stream = map (\<lambda>n. ((demo_cell, demo_cell), demo_envoy (take n stream), demo_flat))"

lemma demo_reads_of: "list_all (call_of sha [demo_table] demo_flat (\<lambda>_ _ _. True) stream) (demo_reads stream ns)"
proof -
  have "\<exists>tail. stream = take n stream @ tail" for n by (metis append_take_drop_id)
  then show ?thesis by (auto simp: demo_reads_def list_all_iff call_of_def same_rules_def demo_envoy_def chunk_def)
qed

section \<open>Properties\<close>

text \<open>
  C11. The verdict of a \<open>ppv2\<close> or \<open>ppv2_auth\<close> filter is final. Over any sequence of calls, with
  any answers of the host, any tables and any rules, it never both continues and closes; and once
  it has continued or closed, every later call answers the same and touches nothing.
\<close>

theorem ppv2_verdict_is_final:
  assumes "data_calls sha (xs @ ys) f = (rs, f')"
  shows "\<not> ((\<exists>fx. (Continue, fx) \<in> set rs) \<and> (\<exists>st fx. (st, fx) \<in> set rs \<and> closes fx)) \<and>
    (ppv2_settled (snd (data_calls sha xs f)) = Some st \<longrightarrow>
      (rs, f') = (fst (data_calls sha xs f) @ replicate (length ys) (st, []), snd (data_calls sha xs f)))"
  using ppv2_verdict.one_verdict [of sha "xs @ ys" f rs f'] assms
    ppv2_verdict.verdict_is_final [of sha xs f "fst (data_calls sha xs f)" "snd (data_calls sha xs f)" st ys]
  by (auto simp: data_calls_eq)

theorem ppv2_verdict_is_final_witness:
  "fst (data_calls demo_sha
     [((demo_cell, demo_cell), demo_envoy (encode_wire demo_wire), demo_flat),
      ((unpublished, unpublished), demo_envoy [], demo_config)] demo_filter) =
   [(Continue, label_effects demo_sha demo_table (demo_header\<lparr>hdr_len := 38\<rparr>) @ [Increment_Counter 0 1]),
    (Continue, [])]"
proof -
  let ?x = "((demo_cell, demo_cell), demo_envoy (encode_wire demo_wire), demo_flat)"
  let ?y = "((unpublished, unpublished), demo_envoy [], demo_config)"
  have "data_calls demo_sha [?x] demo_filter =
      ([(Continue, label_effects demo_sha demo_table (demo_header\<lparr>hdr_len := 38\<rparr>) @ [Increment_Counter 0 1])],
       demo_filter\<lparr>pf_done := True\<rparr>)"
    using demo_data_call [of "[]"] by simp
  moreover have "ppv2_settled (demo_filter\<lparr>pf_done := True\<rparr>) = Some Continue"
    by (simp add: ppv2_settled_def demo_filter_def new_ppv2_filter_def)
  ultimately show ?thesis
    using ppv2_verdict_is_final [of demo_sha "[?x]" "[?y]" demo_filter _ _ Continue,
        OF prod.collapse [symmetric]] by (simp del: data_calls.simps)
qed

text \<open>
  C27. The read size. A filter never asks for more than 256 bytes in all. Whenever a call leaves
  it waiting, it did nothing else, and it now asks for more bytes than the buffer held, but for
  no more than any whole header starting with these bytes has.
\<close>

theorem waiting_filter_asks_for_more:
  assumes "filter_ok f" and "data_calls sha es f = (rs, f1)" and "waiting f1"
    and "data_call sha (cells, e, cfg) f1 = (st, f2, fx)" and "waiting f2"
  shows "st = Stop_Iteration \<and> fx = [] \<and> length (chunk e) < ppv2_max_read_bytes f2 \<and>
    ppv2_max_read_bytes f1 \<le> MAX_HEADER \<and> ppv2_max_read_bytes f2 \<le> MAX_HEADER \<and>
    (\<forall>tail h. parse (chunk e @ tail) = Some (Inr h) \<longrightarrow> ppv2_max_read_bytes f2 \<le> hdr_len h)"
proof -
  obtain n where "parse (chunk e) = Some (Inl (Need n))" "st = Stop_Iteration" "fx = []" "f2 = f1\<lparr>pf_want := n\<rparr>"
    using wait_means_need [OF assms(3-5)] by blast
  then show ?thesis
    using data_calls_ok [OF assms(1,2)] parse_need_bound parse_need_sound
    by (auto simp: ppv2_max_read_bytes_def filter_ok_def)
qed


theorem waiting_filter_asks_for_more_witness:
  "\<exists>f1 f2. data_call demo_sha ((demo_cell, demo_cell), demo_envoy (take 2 (encode_wire demo_wire)), demo_flat) demo_filter =
      (Stop_Iteration, f1, []) \<and>
    data_call demo_sha ((demo_cell, demo_cell), demo_envoy (take 16 (encode_wire demo_wire)), demo_flat) f1 =
      (Stop_Iteration, f2, []) \<and>
    ppv2_max_read_bytes demo_filter = 256 \<and> ppv2_max_read_bytes f1 = 16 \<and> ppv2_max_read_bytes f2 = 38 \<and>
    length (take 16 (encode_wire demo_wire)) < ppv2_max_read_bytes f2"
proof -
  let ?e1 = "demo_envoy (take 2 (encode_wire demo_wire))" and ?e2 = "demo_envoy (take 16 (encode_wire demo_wire))"
  let ?f1 = "demo_filter\<lparr>pf_want := 16\<rparr>" and ?f2 = "demo_filter\<lparr>pf_want := 38\<rparr>"
  have "parse (take 2 (encode_wire demo_wire)) = Some (Inl (Need 16))"
    "parse (take 16 (encode_wire demo_wire)) = Some (Inl (Need 38))"
    by code_simp+
  moreover have w: "waiting ?f1" "waiting ?f2" using demo_call_simps(3) by (simp_all add: waiting_def)
  ultimately have calls: "data_call demo_sha ((demo_cell, demo_cell), ?e1, demo_flat) demo_filter = (Stop_Iteration, ?f1, [])"
    "data_call demo_sha ((demo_cell, demo_cell), ?e2, demo_flat) ?f1 = (Stop_Iteration, ?f2, [])"
    using on_data_waiting(2) [where cells = "(demo_cell, demo_cell)" and t = demo_table]
    by (simp_all add: data_call_def)
  have "data_calls demo_sha [((demo_cell, demo_cell), ?e1, demo_flat)] demo_filter = ([(Stop_Iteration, [])], ?f1)"
    using calls(1) by simp
  from waiting_filter_asks_for_more [OF demo_call_simps(4) this w(1) calls(2) w(2)] calls
  show ?thesis
    by (intro exI [of _ ?f1] exI [of _ ?f2])
      (simp add: ppv2_max_read_bytes_def demo_filter_def new_ppv2_filter_def MAX_HEADER_def)
qed

text \<open>
  C22. A filter admits only what it labelled: a call that continues found a table, a whole header
  and a host that took the address, passed the rules if it enforces, and its effects are the
  label, the two log fields and the drain, in this order, then the counter. This holds also when
  a table is published between its two readings of the cell.
\<close>

theorem admitted_only_labelled:
  assumes "waiting f" and "data_call sha (cells, e, cfg) f = (Continue, f', fx)"
    and "snd (fst cells) = Some t" and "table_ok t" and "sha256_ok sha"
  shows "\<exists>h. parse (chunk e) = Some (Inr h) \<and> remote_set sha e t h \<and>
    (\<not> pf_enforce f \<or> fst (permits_unscoped sha (snd cells) (identity_of sha t h) cfg)) \<and>
    f' = f\<lparr>pf_done := True\<rparr> \<and> fx = label_effects sha t h @ bump (ctr_allowed (pf_counters f))"
  using assms(1)
proof (cases rule: on_data_cases [of f cells sha e cfg])
  case (label t' h)
  then have "parse (chunk e) = Some (Inr h)" by simp
  moreover note call = data_call_label [OF assms(1,3) this assms(4,5), of cfg]
  ultimately show ?thesis
    using assms(2) by (auto simp: call refuse_def judged_ok_def split: if_splits)
qed (use assms(2,3) in \<open>auto simp: data_call_def refuse_def\<close>)

theorem admitted_only_labelled_witness:
  "\<exists>h. parse (encode_wire demo_wire) = Some (Inr h) \<and>
    fst (permits_unscoped demo_sha demo_cell (identity_of demo_sha demo_table h) demo_flat)"
  using admitted_only_labelled [OF demo_call_simps(3) demo_data_call [of "[]"] _ demo_table_ok demo_sha_ok] by auto

text \<open>
  C17. The label and the strip. When a filter admits a connection that starts with a well-formed
  header, the address it writes onto the socket is a text that reads back as the identity, so
  an \<open>auth\<close> filter behind it that is told the same address finds that identity; the logged
  source reads back as the header's source; and the drain leaves exactly the bytes the client
  sent after the header.
\<close>

theorem label_and_strip:
  assumes "waiting f" and "data_call sha (cells, e, cfg) f = (Continue, f', fx)"
    and "snd (fst cells) = Some t" and "table_ok t" and "sha256_ok sha"
    and "wire_ok w" and "chunk e = encode_wire w @ payload"
    and "get_remote_address e' = Some (peer, port)"
    and "Set_Remote_Address label (ucast (w_sport w)) True \<in> set fx" and "parse_ipv6 peer = parse_ipv6 label"
  shows "labelled_identity e' = Some (identity_of sha t (header_of w)) \<and>
    (\<exists>vpce src c. fx = [Set_Remote_Address label (ucast (w_sport w)) True, Set_Metadata ''ppv2_auth'' ''vpce_id'' vpce,
        Set_Metadata ''ppv2_auth'' ''src'' src, Drain_Buffer (length (encode_wire w))] @ bump c \<and>
      (if w_v6 w then parse_ipv6 src else parse_ipv4 src) = Some (w_src w)) \<and>
    drop (length (encode_wire w)) (chunk e) = payload"
proof -
  have parsed: "parse (chunk e) = Some (Inr (header_of w))" using parse_encode_wire [OF assms(6)] assms(7) by simp
  note call = data_call_label [OF assms(1,3) parsed assms(4,5), of cfg]
  then have fx: "fx = label_effects sha t (header_of w) @ bump (ctr_allowed (pf_counters f))"
    using assms(2) by (auto simp: refuse_def split: if_splits)
  let ?id = "synthesize sha (tbl_scheme t) (header_of w)"
  have len: "length ?id = 16"
    using assms(4) parsed_header_ok [OF parsed] by (intro synthesize_length assms(5)) (simp_all add: table_ok_def)
  have label: "label = show_ipv6 ?id" using assms(9) by (auto simp: fx label_effects_def bump_def split: option.splits)
  then have "labelled_identity e' = Some (identity_of sha t (header_of w))"
    using assms(8,10) v6_text.read_print [OF len] by (simp add: labelled_identity_def identity_of_def)
  moreover have "hdr_len (header_of w) = length (encode_wire w)" "hdr_port (header_of w) = w_sport w"
    "hdr_v6 (header_of w) = w_v6 w" "hdr_src (header_of w) = w_src w @ replicate (16 - length (w_src w)) 0"
    and src: "length (w_src w) = (if w_v6 w then 16 else 4)"
    using assms(6) by (simp_all add: header_of_def wire_nth(5) wire_ok_def addr_len_def)
  moreover have "(if w_v6 w then parse_ipv6 (as_str (format_src (w_src w @ replicate (16 - length (w_src w)) 0) (w_v6 w)))
      else parse_ipv4 (as_str (format_src (w_src w @ replicate (16 - length (w_src w)) 0) (w_v6 w)))) = Some (w_src w)"
    using src v6_text.read_print [of "w_src w"] v4_text.read_print [of "w_src w"] by (simp add: as_str_format_src)
  ultimately show ?thesis
    unfolding fx label_effects_def label by (auto simp: assms(7))
qed

theorem label_and_strip_witness:
  "labelled_identity ((demo_envoy [])\<lparr>get_remote_address := Some (show_ipv6 (synthesize demo_sha (tbl_scheme demo_table) demo_header), 1)\<rparr>)
     = Some (identity_of demo_sha demo_table demo_header) \<and>
   drop (length (encode_wire demo_wire)) (encode_wire demo_wire @ [0x47, 0x45, 0x54]) = [0x47, 0x45, 0x54]"
  using label_and_strip [OF demo_call_simps(3) demo_data_call [of "[0x47, 0x45, 0x54]"] _ demo_table_ok demo_sha_ok demo_wire_ok,
      of "[0x47, 0x45, 0x54]"
        "(demo_envoy [])\<lparr>get_remote_address := Some (show_ipv6 (synthesize demo_sha (tbl_scheme demo_table) demo_header), 1)\<rparr>"
        "show_ipv6 (synthesize demo_sha (tbl_scheme demo_table) demo_header)" 1
        "show_ipv6 (synthesize demo_sha (tbl_scheme demo_table) demo_header)"]
  by (simp add: demo_wire_header label_effects_def demo_ports)

text \<open>
  C23. A verdict does not depend on how the connection's bytes arrived. Take two ways of showing
  a filter one stream, in any pieces, under the table published last, the same rules with
  whatever caches and a host that takes the same addresses, each showing enough at some call.
  Both runs give the same verdict with the same effects, the drain included, which is that of the
  stream as a whole; before it the filter waits and does nothing, after it nothing happens, and
  it stays settled for that verdict.
\<close>

theorem verdict_independent_of_reads:
  assumes "waiting f" and "published_ok (hist @ [t])" and "sha256_ok sha"
    and "list_all (call_of sha (hist @ [t]) rules takes stream) es" and "\<exists>x \<in> set es. decides x"
    and "list_all (call_of sha (hist @ [t]) rules takes stream) es'" and "\<exists>x \<in> set es'. decides x"
  shows "\<exists>v k m k' m'. v = stream_verdict sha t rules takes stream f \<and>
    fst (data_calls sha es f) = replicate k (Stop_Iteration, []) @ v # replicate m (fst v, []) \<and>
    fst (data_calls sha es' f) = replicate k' (Stop_Iteration, []) @ v # replicate m' (fst v, []) \<and>
    ppv2_settled (snd (data_calls sha es f)) = Some (fst v) \<and> ppv2_settled (snd (data_calls sha es' f)) = Some (fst v)"
  using calls_of_stream [OF assms(1,4,5,2,3)] calls_of_stream [OF assms(1,6,7,2,3)] by metis

theorem verdict_independent_of_reads_witness:
  "\<exists>k m k' m' fx. Drain_Buffer 38 \<in> set fx \<and>
    fst (data_calls demo_sha (demo_reads (encode_wire demo_wire @ [1, 2, 3]) [1, 20, 38, 39]) demo_filter) =
      replicate k (Stop_Iteration, []) @ (Continue, fx) # replicate m (Continue, []) \<and>
    fst (data_calls demo_sha (demo_reads (encode_wire demo_wire @ [1, 2, 3]) [41]) demo_filter) =
      replicate k' (Stop_Iteration, []) @ (Continue, fx) # replicate m' (Continue, [])"
proof -
  let ?stream = "encode_wire demo_wire @ [1, 2, 3]"
  have len: "length (encode_wire demo_wire) = 38" by code_simp
  have parsed: "parse ?stream = Some (Inr (demo_header\<lparr>hdr_len := 38\<rparr>))" by (rule demo_parse)
  have "decides ((demo_cell, demo_cell), demo_envoy (take n ?stream), demo_flat)" if "38 \<le> n" for n
    using demo_parse [of "take (n - 38) [1, 2, 3]"] that by (simp add: decides_def buffer_of_def len)
  then have "\<exists>x \<in> set (demo_reads ?stream [1, 20, 38, 39]). decides x" "\<exists>x \<in> set (demo_reads ?stream [41]). decides x"
    by (auto simp: demo_reads_def)
  from verdict_independent_of_reads [where hist = "[]" and t = demo_table, OF demo_call_simps(3) _ demo_sha_ok _ this(1) _ this(2)]
  have run: "\<exists>v k m k' m'. v = stream_verdict demo_sha demo_table demo_flat (\<lambda>_ _ _. True) ?stream demo_filter \<and>
    fst (data_calls demo_sha (demo_reads ?stream [1, 20, 38, 39]) demo_filter) =
      replicate k (Stop_Iteration, []) @ v # replicate m (fst v, []) \<and>
    fst (data_calls demo_sha (demo_reads ?stream [41]) demo_filter) =
      replicate k' (Stop_Iteration, []) @ v # replicate m' (fst v, [])"
    by (simp add: demo_reads_of)
  have "rules_cover demo_sha demo_table demo_flat [] (identity_of demo_sha demo_table (demo_header\<lparr>hdr_len := 38\<rparr>))"
    using demo_permits permits_current(1) [OF demo_cache_ok(2) demo_published demo_sha_ok]
    by (simp add: permits_unscoped_def)
  then have "\<exists>fx. stream_verdict demo_sha demo_table demo_flat (\<lambda>_ _ _. True) ?stream demo_filter = (Continue, fx) \<and> Drain_Buffer 38 \<in> set fx"
    by (simp add: stream_verdict_def parsed label_effects_def)
  then obtain fx where "stream_verdict demo_sha demo_table demo_flat (\<lambda>_ _ _. True) ?stream demo_filter = (Continue, fx)"
    "Drain_Buffer 38 \<in> set fx" by blast
  with run show ?thesis by (metis fst_conv)
qed

end
