(* ===== verification/Udp.thy ===== *)
theory Udp
  imports Tcp
begin

text \<open>
  udp.rs: the UDP listener filters. There is one callback per datagram; the only state is the
  buffer the stripped payload is staged in. Cells and rules are passed as for TCP, and a panic
  (of the parser, or of the slice after the header) would be \<open>None\<close>.
\<close>

section \<open>The code\<close>

definition udp_table_on_data :: "udp_envoy \<Rightarrow> status" where
  "udp_table_on_data e = Continue"

definition udp_deny_all_on_data :: "udp_envoy \<Rightarrow> status" where
  "udp_deny_all_on_data e = Stop_Iteration"

record udp_filter =
  uf_counters :: counters
  uf_payload :: bytes

definition new_udp_filter :: "counters \<Rightarrow> udp_filter" where
  "new_udp_filter counters = \<lparr>uf_counters = counters, uf_payload = []\<rparr>"

datatype udp_decision = Forward | Denied | Not_Ppv2

text \<open>The bytes of a datagram: its only chunk in place, several joined.\<close>

definition datagram :: "bytes list \<Rightarrow> bytes option" where
  "datagram chunks =
     (let joined = (if length chunks = 1 then None else Some (foldl (\<lambda>v c. v @ c) [] chunks)) in
      case joined of Some v \<Rightarrow> Some v | None \<Rightarrow> idx chunks 0)"

definition udp_decide :: "(bytes \<Rightarrow> bytes) \<Rightarrow> cell \<Rightarrow> scheme \<Rightarrow> bytes \<Rightarrow> config \<Rightarrow> udp_filter
    \<Rightarrow> (udp_decision \<times> udp_filter \<times> config) option" where
  "udp_decide sha c sch buf cfg f = do {
     r \<leftarrow> parse buf;
     case r of
       Inr h \<Rightarrow>
         (let addr = synthesize sha sch h;
              (permitted, cfg') = permits_unscoped sha c (to_u128 addr) cfg in
          if permitted then do {
            rest \<leftarrow> slice buf (hdr_len h) (length buf);
            Some (Forward, f\<lparr>uf_payload := rest\<rparr>, cfg')
          }
          else Some (Denied, f, cfg'))
     | Inl _ \<Rightarrow> Some (Not_Ppv2, f, cfg)
   }"

definition udp_finish :: "udp_envoy \<Rightarrow> udp_decision \<Rightarrow> udp_filter \<Rightarrow> status \<times> udp_filter \<times> effect list" where
  "udp_finish e d f =
     (case d of
        Forward \<Rightarrow>
          (if set_datagram_data e (uf_payload f) then Continue else Stop_Iteration, f,
           bump (ctr_allowed (uf_counters f)) @ [Set_Datagram (uf_payload f)])
      | Denied \<Rightarrow> (Stop_Iteration, f, bump (ctr_denied (uf_counters f)))
      | Not_Ppv2 \<Rightarrow> (Stop_Iteration, f, bump (ctr_not_ppv2 (uf_counters f))))"

definition udp_on_data :: "(bytes \<Rightarrow> bytes) \<Rightarrow> cell \<times> cell \<Rightarrow> udp_envoy \<Rightarrow> config \<Rightarrow> udp_filter
    \<Rightarrow> ((status \<times> udp_filter \<times> effect list) \<times> config) option" where
  "udp_on_data sha cells e cfg f =
     (case snd (fst cells) of
        None \<Rightarrow> Some ((Stop_Iteration, f, []), cfg)
      | Some table \<Rightarrow> do {
          buf \<leftarrow> datagram (fst (get_datagram_data e));
          (d, f', cfg') \<leftarrow> udp_decide sha (snd cells) (tbl_scheme table) buf cfg f;
          Some (udp_finish e d f', cfg')
        })"

section \<open>Outcomes\<close>

lemma datagram_concat: "datagram chunks = Some (concat chunks)"
proof -
  have "foldl (\<lambda>v c. v @ c) v cs = v @ concat cs" for v :: bytes and cs
    by (induction cs arbitrary: v) auto
  then show ?thesis by (cases chunks; cases "tl chunks") (auto simp: datagram_def)
qed

definition payload_of :: "udp_envoy \<Rightarrow> bytes" where
  "payload_of e = concat (fst (get_datagram_data e))"

lemma slice_after_header:
  "parse buf = Some (Inr h) \<Longrightarrow> slice buf (hdr_len h) (length buf) = Some (drop (hdr_len h) buf)"
  using parse_Inr_len [of buf h] by (simp add: slice_def)

lemma udp_on_data_cases:
  assumes "snd (fst cells) = Some t"
  shows "parse (payload_of e) = Some (Inl err) \<Longrightarrow>
      udp_on_data sha cells e cfg f = Some ((Stop_Iteration, f, bump (ctr_not_ppv2 (uf_counters f))), cfg)"
    and "parse (payload_of e) = Some (Inr h) \<Longrightarrow> permits_unscoped sha (snd cells) (identity_of sha t h) cfg = (False, cfg') \<Longrightarrow>
      udp_on_data sha cells e cfg f = Some ((Stop_Iteration, f, bump (ctr_denied (uf_counters f))), cfg')"
    and "parse (payload_of e) = Some (Inr h) \<Longrightarrow> permits_unscoped sha (snd cells) (identity_of sha t h) cfg = (True, cfg') \<Longrightarrow>
      udp_on_data sha cells e cfg f =
        Some ((if set_datagram_data e (drop (hdr_len h) (payload_of e)) then Continue else Stop_Iteration,
               f\<lparr>uf_payload := drop (hdr_len h) (payload_of e)\<rparr>,
               bump (ctr_allowed (uf_counters f)) @ [Set_Datagram (drop (hdr_len h) (payload_of e))]), cfg')"
  using assms slice_after_header [of "payload_of e" h]
  by (simp_all add: udp_on_data_def datagram_concat payload_of_def [symmetric] udp_decide_def udp_finish_def
      identity_of_def Let_def)

section \<open>Properties\<close>

text \<open>
  C24. A datagram never panics the filter and is judged on its own: with a table published, and
  whatever earlier datagrams left in the staging buffer, a datagram that holds a well-formed
  header followed by a payload, in one chunk or several, is either passed on with exactly the
  payload as its new content, when the allowlist covers the header's identity and the host takes
  it, or stopped with its content untouched.
\<close>

theorem datagram_forwarded_stripped:
  assumes "cache_ok sha (hist @ [t]) cfg" and "published_ok (hist @ [t])" and "sha256_ok sha"
    and "cfg_scopes cfg = None" and "wire_ok w" and "payload_of e = encode_wire w @ payload"
  shows "\<exists>f' cfg' c. udp_on_data sha (cell_of (hist @ [t]), cell_of (hist @ [t])) e cfg f = Some
    (if entries_cover sha t (cfg_allow cfg) (identity_of sha t (header_of w))
     then ((if set_datagram_data e payload then Continue else Stop_Iteration, f',
            bump (ctr_allowed (uf_counters f)) @ [Set_Datagram payload]), cfg')
     else ((Stop_Iteration, f', bump (ctr_denied (uf_counters f))), cfg')) \<and>
    cache_ok sha (hist @ [t]) cfg' \<and> same_rules cfg' cfg"
proof -
  let ?c = "cell_of (hist @ [t])"
  have parsed: "parse (payload_of e) = Some (Inr (header_of w))"
    using parse_encode_wire [OF assms(5)] assms(6) by simp
  have rest: "drop (hdr_len (header_of w)) (payload_of e) = payload"
    by (simp add: assms(6) header_of_def wire_nth(5))
  have table: "snd (fst (?c, ?c)) = Some t" by (simp add: cell_of_def)
  obtain b cfg' where permits: "permits_unscoped sha (snd (?c, ?c)) (identity_of sha t (header_of w)) cfg = (b, cfg')"
    by (cases "permits_unscoped sha (snd (?c, ?c)) (identity_of sha t (header_of w)) cfg") auto
  then have "b \<longleftrightarrow> entries_cover sha t (cfg_allow cfg) (identity_of sha t (header_of w))"
    and "cache_ok sha (hist @ [t]) cfg'" and "same_rules cfg' cfg"
    using permits_current [OF assms(1-3), of "[]" "identity_of sha t (header_of w)"] assms(4)
    by (simp_all add: permits_unscoped_def rules_cover_def)
  then show ?thesis
    using udp_on_data_cases(2,3) [OF table parsed, of sha cfg cfg' f] permits by (cases b) (auto simp: rest)
qed

definition demo_datagram :: udp_envoy where
  "demo_datagram = \<lparr>get_datagram_data = ([take 20 (encode_wire demo_wire), drop 20 (encode_wire demo_wire), [1, 2, 3]], 41),
     set_datagram_data = (\<lambda>_. True)\<rparr>"

theorem datagram_forwarded_stripped_witness:
  "\<exists>f' cfg'. udp_on_data demo_sha (demo_cell, demo_cell) demo_datagram demo_flat (new_udp_filter demo_counters) =
    Some ((Continue, f', [Increment_Counter 0 1, Set_Datagram [1, 2, 3]]), cfg')"
proof -
  have "payload_of demo_datagram = encode_wire demo_wire @ [1, 2, 3]"
    by (simp add: payload_of_def demo_datagram_def)
  moreover have "entries_cover demo_sha demo_table (cfg_allow demo_flat) (identity_of demo_sha demo_table (header_of demo_wire))"
    using entries_cover_identity [OF demo_table_ok demo_sha_ok demo_header_ok] demo_entries_admit
    by (simp add: demo_wire_header demo_flat_def)
  ultimately show ?thesis
    using datagram_forwarded_stripped [of demo_sha "[]" demo_table demo_flat demo_wire demo_datagram "[1, 2, 3]"
        "new_udp_filter demo_counters"] demo_wire_ok
    by (simp add: demo_sha_ok demo_datagram_def new_udp_filter_def demo_counters_def bump_def) (auto simp: demo_flat_def)
qed

text \<open>A datagram without a whole header, or before any table, is stopped and not written to.\<close>

lemma headerless_datagram_stopped:
  assumes "snd (fst cells) = None \<or> \<not> (\<exists>h. parse (payload_of e) = Some (Inr h))"
  shows "\<exists>fx. udp_on_data sha cells e cfg f = Some ((Stop_Iteration, f, fx), cfg) \<and>
    (fx = [] \<or> fx = bump (ctr_not_ppv2 (uf_counters f)))"
proof (cases "snd (fst cells)")
  case None
  then show ?thesis by (simp add: udp_on_data_def)
next
  case (Some t)
  then obtain err where "parse (payload_of e) = Some (Inl err)"
    using assms parse_total [of "payload_of e"] by (metis option.distinct(1) sum.exhaust)
  then show ?thesis using udp_on_data_cases(1) [OF Some] by blast
qed

end
