(* ===== verification/Entry.thy ===== *)
theory Entry
  imports Udp
begin

text \<open>
  lib.rs: the factories Envoy calls when a listener is built, the loading and validation of a
  config, and the publication of a carrier's table. The JSON parser and the host's
  \<open>define_counter\<close> are parameters; the host's own state is threaded through, and the published
  cell is passed and returned. What the code only writes to stderr is left out.
\<close>

section \<open>The code\<close>

definition validate_ppv2 :: "config \<Rightarrow> string + unit" where
  "validate_ppv2 cfg =
     (if has_allow cfg \<or> has_scopes cfg
      then Inl ''`ppv2` takes no rules; use `ppv2_auth` to also enforce'' else Inr ())"

definition validate_ppv2_auth :: "config \<Rightarrow> string + unit" where
  "validate_ppv2_auth cfg =
     (if has_scopes cfg
      then Inl ''`ppv2_auth` runs before tls_inspector, so there is no SNI yet; use `auth`'' else Inr ())"

definition validate_auth :: "config \<Rightarrow> string + unit" where
  "validate_auth cfg =
     (if \<not> has_scopes cfg then Inl ''`auth` needs `scopes`''
      else if has_allow cfg then Inl ''`auth` ignores a top-level `allow`; put those rules in a scope''
      else if has_nameless_scope cfg then Inl ''a scope needs at least one `sni`''
      else Inr ())"

definition text_of :: "bytes \<Rightarrow> string + string" where
  "text_of bs =
     and_then (ok_or ''filter_config is not valid UTF-8'' (from_utf8 bs)) (\<lambda>text.
     if trim text = [] then Inl ''filter_config is missing'' else Inr text)"

definition load :: "(string \<Rightarrow> string + raw_rules) \<Rightarrow> bytes \<Rightarrow> (config \<Rightarrow> string + unit) \<Rightarrow> config option" where
  "load from_json bs check =
     ok (and_then (and_then (text_of bs) (parse_rules from_json)) (\<lambda>c. and_then (check c) (\<lambda>_. Inr c)))"

definition load_table :: "(string \<Rightarrow> string + raw_table) \<Rightarrow> bytes \<Rightarrow> cell \<Rightarrow> bool \<times> cell" where
  "load_table from_json bs c =
     (case and_then (text_of bs) (parse_table from_json) of
        Inr t \<Rightarrow> (True, publish t c)
      | Inl e \<Rightarrow> (False, c))"

text \<open>The host defines a counter or fails to, and goes on.\<close>

type_synonym 's definer = "string \<Rightarrow> ('s, string + counter_id) state"

definition counters_for :: "'s definer \<Rightarrow> string \<Rightarrow> ('s, counters) state" where
  "counters_for define_counter name =
     register name (\<lambda>n. do { r \<leftarrow> define_counter n; State_Monad.return (ok r) })"

datatype listener_config =
    Ppv2_Listener ppv2_config config
  | Auth_Listener counters config
  | Table_Listener

datatype udp_listener_config =
    Udp_Auth_Listener counters config
  | Udp_Table_Listener
  | Udp_Deny_All

definition new_listener_filter_config :: "(string \<Rightarrow> string + raw_rules) \<Rightarrow> (string \<Rightarrow> string + raw_table) \<Rightarrow> 's definer \<Rightarrow>
    string \<Rightarrow> bytes \<Rightarrow> cell \<times> 's \<Rightarrow> listener_config option \<times> cell \<times> 's" where
  "new_listener_filter_config rules_json table_json define_counter name bs = (\<lambda>(c, s).
     if name = ''ppv2_auth'' then
       (case load rules_json bs validate_ppv2_auth of
          None \<Rightarrow> (None, c, s)
        | Some cfg \<Rightarrow>
            (case run_state (counters_for define_counter name) s of
               (counters, s') \<Rightarrow> (Some (Ppv2_Listener (enforcing counters) cfg), c, s')))
     else if name = ''ppv2'' then
       (case load rules_json bs validate_ppv2 of
          None \<Rightarrow> (None, c, s)
        | Some cfg \<Rightarrow>
            (case run_state (counters_for define_counter name) s of
               (counters, s') \<Rightarrow> (Some (Ppv2_Listener (labelling counters) cfg), c, s')))
     else if name = ''auth'' then
       (case load rules_json bs validate_auth of
          None \<Rightarrow> (None, c, s)
        | Some cfg \<Rightarrow>
            (case run_state (counters_for define_counter name) s of
               (counters, s') \<Rightarrow> (Some (Auth_Listener counters cfg), c, s')))
     else if name = ''table'' then
       (case load_table table_json bs c of
          (loaded, c') \<Rightarrow> (if loaded then Some Table_Listener else None, c', s))
     else (None, c, s))"

definition new_udp_listener_filter_config :: "(string \<Rightarrow> string + raw_rules) \<Rightarrow> (string \<Rightarrow> string + raw_table) \<Rightarrow> 's definer \<Rightarrow>
    string \<Rightarrow> bytes \<Rightarrow> cell \<times> 's \<Rightarrow> udp_listener_config option \<times> cell \<times> 's" where
  "new_udp_listener_filter_config rules_json table_json define_counter name bs = (\<lambda>(c, s).
     let (built, c', s') =
       (if name = ''ppv2_auth'' then
          (case load rules_json bs validate_ppv2_auth of
             None \<Rightarrow> (None, c, s)
           | Some cfg \<Rightarrow>
               (case run_state (counters_for define_counter name) s of
                  (counters, s') \<Rightarrow> (Some (Udp_Auth_Listener counters cfg), c, s')))
        else if name = ''table'' then
          (case load_table table_json bs c of
             (loaded, c') \<Rightarrow> (if loaded then Some Udp_Table_Listener else None, c', s))
        else (None, c, s))
     in (Some (case built of Some l \<Rightarrow> l | None \<Rightarrow> Udp_Deny_All), c', s'))"

text \<open>The callback a UDP listener runs on a datagram, by what the factory built.\<close>

definition udp_callback :: "(bytes \<Rightarrow> bytes) \<Rightarrow> udp_listener_config \<Rightarrow> cell \<times> cell \<Rightarrow> udp_envoy \<Rightarrow> udp_filter
    \<Rightarrow> (status \<times> effect list) option" where
  "udp_callback sha l cells e f =
     (case l of
        Udp_Auth_Listener counters cfg \<Rightarrow>
          map_option (\<lambda>((st, f', fx), cfg'). (st, fx)) (udp_on_data sha cells e cfg f)
      | Udp_Table_Listener \<Rightarrow> Some (udp_table_on_data e, [])
      | Udp_Deny_All \<Rightarrow> Some (udp_deny_all_on_data e, []))"

section \<open>Loading\<close>

lemma load_Some:
  "load from_json bs check = Some cfg \<longleftrightarrow>
    (\<exists>text. text_of bs = Inr text \<and> parse_rules from_json text = Inr cfg \<and> check cfg = Inr ())"
  by (auto simp: load_def)

lemma load_table_cases:
  obtains (published) src t where "text_of bs = Inr src" "parse_table from_json src = Inr t"
      "load_table from_json bs c = (True, publish t c)"
  | (rejected) "load_table from_json bs c = (False, c)"
proof (cases "and_then (text_of bs) (parse_table from_json)")
  case (Inl e)
  then show thesis using rejected by (simp add: load_table_def)
next
  case (Inr t)
  then show thesis using published by (auto simp: load_table_def)
qed

lemma text_of_Inr: "text_of bs = Inr text \<longleftrightarrow> from_utf8 bs = Some text \<and> trim text \<noteq> []"
  by (auto simp: text_of_def)

lemma validated:
  "validate_ppv2 cfg = Inr () \<longleftrightarrow> cfg_allow cfg = [] \<and> cfg_scopes cfg = None"
  "validate_ppv2_auth cfg = Inr () \<longleftrightarrow> cfg_scopes cfg = None"
  "validate_auth cfg = Inr () \<longleftrightarrow> cfg_allow cfg = [] \<and>
     (\<exists>list. cfg_scopes cfg = Some list \<and> list_all (\<lambda>r. fst r \<noteq> []) list)"
  by (auto simp: validate_ppv2_def validate_ppv2_auth_def validate_auth_def has_allow_def has_scopes_def
      has_nameless_scope_def list_ex_iff list_all_iff split_beta)

text \<open>Only a parsed table is ever published, by either factory.\<close>

definition cell_ok :: "table list \<Rightarrow> cell \<Rightarrow> bool" where
  "cell_ok hist c \<longleftrightarrow> c = cell_of hist \<and> list_all table_ok hist"

lemma load_table_ok:
  "cell_ok hist c \<Longrightarrow> \<exists>hist'. cell_ok hist' (snd (load_table from_json bs c)) \<and>
    (hist' = hist \<or> (\<exists>t. hist' = hist @ [t]))"
proof (cases rule: load_table_cases [of bs from_json c])
  case (published src t)
  assume "cell_ok hist c"
  then have "cell_ok (hist @ [t]) (publish t c)"
    using parse_table_ok [OF published(2)] by (simp add: cell_ok_def publish_cell)
  then show ?thesis using published(3) by auto
next
  case rejected
  assume "cell_ok hist c"
  then show ?thesis using rejected by auto
qed

definition factory_step :: "(string \<Rightarrow> string + raw_rules) \<Rightarrow> (string \<Rightarrow> string + raw_table) \<Rightarrow> 's definer \<Rightarrow>
    bool \<times> string \<times> bytes \<Rightarrow> cell \<times> 's \<Rightarrow> cell \<times> 's" where
  "factory_step rj tj d = (\<lambda>(udp, name, bs) w.
     if udp then snd (new_udp_listener_filter_config rj tj d name bs w)
     else snd (new_listener_filter_config rj tj d name bs w))"

lemma factory_cell:
  "fst (factory_step rj tj d (udp, name, bs) w) = (if name = ''table'' then snd (load_table tj bs (fst w)) else fst w)"
  by (cases w) (auto simp: factory_step_def new_listener_filter_config_def new_udp_listener_filter_config_def
      split: option.split prod.splits)

lemma factory_step_ok:
  assumes "cell_ok hist (fst w)"
  shows "\<exists>hist'. cell_ok hist' (fst (factory_step rj tj d x w)) \<and> length hist' \<le> Suc (length hist)"
proof -
  obtain udp name bs where x: "x = (udp, name, bs)" by (cases x)
  show ?thesis
    using load_table_ok [OF assms, of tj bs] assms unfolding x factory_cell
    by (cases "name = ''table''") (auto intro: le_SucI)
qed

section \<open>What is accepted\<close>

text \<open>What a listener of a name may be configured with, and the rules it starts with.\<close>

definition rules_of :: "raw_rules \<Rightarrow> config" where
  "rules_of raw = \<lparr>cfg_allow = raw_rules_allow raw,
     cfg_scopes = map_option (map (\<lambda>sc. (map pattern_parse (raw_sni sc), raw_scope_allow sc))) (raw_rules_scopes raw),
     cfg_cache = (- 1, deny_all (raw_rules_scopes raw \<noteq> None))\<rparr>"

lemma parse_rules_of: "parse_rules rj src = Inr cfg \<longleftrightarrow> (\<exists>raw. rj src = Inr raw \<and> cfg = rules_of raw)"
  by (auto simp: parse_rules_def rules_of_def Let_def)

lemma rules_of_validated:
  "validate_ppv2 (rules_of raw) = Inr () \<longleftrightarrow> raw_rules_allow raw = [] \<and> raw_rules_scopes raw = None"
  "validate_ppv2_auth (rules_of raw) = Inr () \<longleftrightarrow> raw_rules_scopes raw = None"
  "validate_auth (rules_of raw) = Inr () \<longleftrightarrow> raw_rules_allow raw = [] \<and>
     (\<exists>scs. raw_rules_scopes raw = Some scs \<and> list_all (\<lambda>sc. raw_sni sc \<noteq> []) scs)"
  by (auto simp: validated rules_of_def list_all_iff)

lemma load_rules_of:
  "load rj bs check = Some cfg \<longleftrightarrow> (\<exists>src raw. from_utf8 bs = Some src \<and> trim src \<noteq> [] \<and> rj src = Inr raw \<and>
    cfg = rules_of raw \<and> check cfg = Inr ())"
  by (auto simp: load_Some text_of_Inr parse_rules_of)

lemma load_table_True:
  "load_table tj bs c = (True, c') \<longleftrightarrow>
    (\<exists>src t. from_utf8 bs = Some src \<and> trim src \<noteq> [] \<and> parse_table tj src = Inr t \<and> c' = publish t c)"
proof -
  have "load_table tj bs c = (True, c') \<longleftrightarrow> (\<exists>t. and_then (text_of bs) (parse_table tj) = Inr t \<and> c' = publish t c)"
    by (auto simp: load_table_def split: sum.split)
  then show ?thesis by (auto simp: text_of_Inr)
qed

lemma load_table_False: "fst (load_table tj bs c) = False \<longleftrightarrow> load_table tj bs c = (False, c)"
  by (auto simp: load_table_def split: sum.split)

lemma factory_Some:
  "new_listener_filter_config rj tj d name bs (c, s) = (Some l, c', s') \<longleftrightarrow>
    (\<exists>cfg counters. run_state (counters_for d name) s = (counters, s') \<and> c' = c \<and>
      (name = ''ppv2_auth'' \<and> load rj bs validate_ppv2_auth = Some cfg \<and> l = Ppv2_Listener (enforcing counters) cfg \<or>
       name = ''ppv2'' \<and> load rj bs validate_ppv2 = Some cfg \<and> l = Ppv2_Listener (labelling counters) cfg \<or>
       name = ''auth'' \<and> load rj bs validate_auth = Some cfg \<and> l = Auth_Listener counters cfg)) \<or>
    name = ''table'' \<and> load_table tj bs c = (True, c') \<and> l = Table_Listener \<and> s' = s"
  by (auto simp: new_listener_filter_config_def split: option.splits prod.splits if_splits)

lemma factory_None:
  "fst (new_listener_filter_config rj tj d name bs (c, s)) = None \<longleftrightarrow>
    new_listener_filter_config rj tj d name bs (c, s) = (None, c, s)"
  by (auto simp: new_listener_filter_config_def load_table_def split: option.splits prod.splits sum.splits)

section \<open>Example listener\<close>

definition demo_rules :: "string \<Rightarrow> string + raw_rules" where
  "demo_rules src = Inr \<lparr>raw_rules_allow = [''@seven''], raw_rules_scopes = None\<rparr>"

definition demo_define :: "unit definer" where
  "demo_define n = State_Monad.return (Inr 3)"

definition demo_ids :: counters where
  "demo_ids = \<lparr>ctr_allowed = Some 3, ctr_denied = Some 3, ctr_not_ppv2 = Some 3\<rparr>"

lemma demo_listener:
  "new_listener_filter_config demo_rules (\<lambda>_. Inl []) demo_define ''ppv2_auth'' (as_bytes ''{}'') (unpublished, ()) =
    (Some (Ppv2_Listener (enforcing demo_ids) demo_flat), unpublished, ())"
proof -
  have "text_of (as_bytes ''{}'') = Inr ''{}''" by code_simp
  then have "load demo_rules (as_bytes ''{}'') validate_ppv2_auth = Some demo_flat"
    by (simp add: load_Some validated parse_rules_def demo_flat_def demo_rules_def)
  moreover have "run_state (counters_for demo_define ''ppv2_auth'') () = (demo_ids, ())"
    by (simp add: counters_for_def register_def demo_define_def demo_ids_def State_Monad.bind_def State_Monad.return_def)
  ultimately show ?thesis by (simp add: new_listener_filter_config_def)
qed

section \<open>Properties\<close>

text \<open>
  C25. Exactly which configs become TCP listeners, and which listener with which rules. The text
  must be UTF-8 and not blank, and parse. Its rules become a \<open>ppv2_auth\<close> listener, which enforces,
  when they have no scopes; a \<open>ppv2\<close> listener, which does not, when they are empty; an \<open>auth\<close>
  listener when they are scopes, each with a name, and no list beside them. The listener holds
  the rules of the text and the counters the host defined, and its cache fits whatever was
  published. A carrier is accepted exactly when its table parses, and publishes it. Anything else
  is rejected, defines no counter and publishes nothing.
\<close>

theorem accepted_listeners:
  "(new_listener_filter_config rj tj d name bs (c, s) = (Some l, c', s') \<longleftrightarrow>
    (\<exists>src. from_utf8 bs = Some src \<and> trim src \<noteq> [] \<and>
      ((\<exists>raw counters. rj src = Inr raw \<and> run_state (counters_for d name) s = (counters, s') \<and> c' = c \<and>
          cache_ok sha hist (rules_of raw) \<and>
          (name = ''ppv2_auth'' \<and> raw_rules_scopes raw = None \<and> l = Ppv2_Listener (enforcing counters) (rules_of raw) \<or>
           name = ''ppv2'' \<and> raw_rules_allow raw = [] \<and> raw_rules_scopes raw = None \<and>
             l = Ppv2_Listener (labelling counters) (rules_of raw) \<or>
           name = ''auth'' \<and> raw_rules_allow raw = [] \<and>
             (\<exists>scs. raw_rules_scopes raw = Some scs \<and> list_all (\<lambda>sc. raw_sni sc \<noteq> []) scs) \<and>
             l = Auth_Listener counters (rules_of raw))) \<or>
       name = ''table'' \<and> l = Table_Listener \<and> s' = s \<and>
         (\<exists>t. parse_table tj src = Inr t \<and> table_ok t \<and> c' = publish t c)))) \<and>
   (fst (new_listener_filter_config rj tj d name bs (c, s)) = None \<longleftrightarrow>
     new_listener_filter_config rj tj d name bs (c, s) = (None, c, s))"
proof -
  have "cache_ok sha hist (rules_of raw)" for raw by (simp add: cache_ok_def rules_of_def)
  then show ?thesis
    unfolding factory_Some factory_None load_rules_of load_table_True
    by (auto simp: rules_of_validated dest: parse_table_ok)
qed

theorem accepted_listeners_witness:
  "\<exists>raw. demo_rules ''{}'' = Inr raw \<and> raw_rules_scopes raw = None \<and> demo_flat = rules_of raw"
proof -
  have "from_utf8 (as_bytes ''{}'') = Some ''{}''" by code_simp
  then show ?thesis
    using accepted_listeners [of demo_rules "\<lambda>_. Inl []" demo_define "''ppv2_auth''" "as_bytes ''{}''" unpublished "()"
        "Ppv2_Listener (enforcing demo_ids) demo_flat" unpublished "()" demo_sha "[]"] demo_listener by auto
qed

text \<open>
  Whatever the factories are asked to build, in any order, TCP or UDP, the published cell is
  always that of a sequence of well-formed tables, one for each carrier accepted, and nothing but
  a carrier changes it; so what the filters rely on of the table always holds.
\<close>

lemma published_tables_wellformed:
  "\<exists>hist. fst (foldl (\<lambda>w x. factory_step rj tj d x w) (unpublished, s) xs) = cell_of hist \<and>
    list_all table_ok hist \<and> length hist \<le> length (filter (\<lambda>(udp, name, bs). name = ''table'') xs)"
proof (induction xs rule: rev_induct)
  case Nil
  then show ?case by (auto simp: cell_of_Nil intro: exI [of _ "[]"])
next
  case (snoc x xs)
  then obtain hist where hist: "cell_ok hist (fst (foldl (\<lambda>w x. factory_step rj tj d x w) (unpublished, s) xs))"
    "length hist \<le> length (filter (\<lambda>(udp, name, bs). name = ''table'') xs)"
    by (auto simp: cell_ok_def)
  obtain udp name bs where x: "x = (udp, name, bs)" by (cases x)
  show ?case
  proof (cases "name = ''table''")
    case True
    then show ?thesis
      using factory_step_ok [OF hist(1), of rj tj d x] hist(2) by (fastforce simp: x cell_ok_def)
  next
    case False
    then show ?thesis using hist by (auto simp: x factory_cell cell_ok_def)
  qed
qed

text \<open>
  C26. A UDP factory never returns nothing. A config it rejects, of whatever name, becomes the
  filter that stops every datagram and touches none; it publishes nothing and defines no counter.
\<close>

theorem udp_rejection_denies:
  "\<exists>l c' s'. new_udp_listener_filter_config rj tj d name bs (c, s) = (Some l, c', s') \<and>
    (l = Udp_Deny_All \<longleftrightarrow> \<not> ((name = ''ppv2_auth'' \<and> load rj bs validate_ppv2_auth \<noteq> None) \<or>
       (name = ''table'' \<and> fst (load_table tj bs c)))) \<and>
    (l \<noteq> Udp_Deny_All \<or> c' = c \<and> s' = s \<and> (\<forall>sha cells e f. udp_callback sha l cells e f = Some (Stop_Iteration, [])))"
  by (cases rule: load_table_cases [of bs tj c])
    (auto simp del: split_paired_Ex simp: new_udp_listener_filter_config_def udp_callback_def udp_deny_all_on_data_def
      split: option.split prod.split)

theorem udp_rejection_denies_witness:
  "fst (new_udp_listener_filter_config (\<lambda>_. Inl ''no'') (\<lambda>_. Inl ''no'') (\<lambda>n. State_Monad.return (Inr 3)) ''ppv2_auth''
      [] (unpublished, ())) = Some Udp_Deny_All"
proof -
  have "load (\<lambda>_. Inl ''no'') [] validate_ppv2_auth = None"
    by (cases "load (\<lambda>_. Inl ''no'') [] validate_ppv2_auth") (auto simp: load_Some parse_rules_def)
  then show ?thesis
    using udp_rejection_denies [of "\<lambda>_. Inl ''no''" "\<lambda>_. Inl ''no''" "\<lambda>n. State_Monad.return (Inr 3)"
        "''ppv2_auth''" "[]" unpublished "()"] by auto
qed

text \<open>A config that is not UTF-8, or blank, is rejected before any JSON is read.\<close>

lemma blank_config_rejected:
  assumes "\<not> (\<exists>src. from_utf8 bs = Some src \<and> trim src \<noteq> [])"
  shows "new_listener_filter_config rj tj d name bs (c, s) = (None, c, s) \<and>
    new_udp_listener_filter_config rj tj d name bs (c, s) = (Some Udp_Deny_All, c, s)"
proof -
  have bad: "\<not> (\<exists>src. text_of bs = Inr src)" using assms by (simp add: text_of_Inr)
  then have "load rj bs check = None" for check
    using load_Some [of rj bs check] by (cases "load rj bs check") auto
  moreover have "load_table tj bs c = (False, c)" using bad by (cases rule: load_table_cases [of bs tj c]) auto
  ultimately show ?thesis by (simp add: new_listener_filter_config_def new_udp_listener_filter_config_def)
qed

end
