(* ===== verification/Chain.thy ===== *)
theory Chain
  imports Entry
begin

text \<open>
  The filters of a listener together: what each concludes about the same header under the same
  table, stated so that the conclusions can be compared, and the label between two of them.
\<close>

section \<open>The filters of a chain together\<close>

text \<open>What the enforcing filter concludes about a whole header.\<close>

lemma enforcing_call:
  assumes "waiting f" and "pf_enforce f" and "parse (chunk e) = Some (Inr h)" and "remote_set sha e t h"
    and "cache_ok sha (hist @ [t]) cfg" and "published_ok (hist @ [t])" and "sha256_ok sha" and "cfg_scopes cfg = None"
  shows "fst (data_call sha ((cell_of (hist @ [t]), cell_of (hist @ [t])), e, cfg) f) = Continue \<longleftrightarrow>
    entries_cover sha t (cfg_allow cfg) (identity_of sha t h)"
proof -
  have t: "table_ok t" using assms(6) by (simp add: published_ok_def)
  have "snd (fst (cell_of (hist @ [t]), cell_of (hist @ [t]))) = Some t" by (simp add: cell_of_def)
  from data_call_label [OF assms(1) this assms(3) t assms(7)] show ?thesis
    using assms(2,4) permits_current(1) [OF assms(5-7)] assms(8)
    by (simp add: judged_ok_def refuse_def permits_unscoped_def rules_cover_def)
qed

lemma data_call_no_header:
  assumes "waiting f" and "snd (fst cells) = Some t" and "parse (chunk e) = Some (Inl err)"
  shows "fst (data_call sha (cells, e, cfg) f) = Stop_Iteration"
  using on_data_waiting(1,2) [OF assms(1,2)] assms(3)
  by (cases err) (auto simp: data_call_def refuse_def)

lemma udp_call:
  assumes "cache_ok sha (hist @ [t]) cfg" and "published_ok (hist @ [t])" and "sha256_ok sha" and "cfg_scopes cfg = None"
    and "set_datagram_data e = (\<lambda>_. True)"
  shows "\<exists>f' fx cfg'. udp_on_data sha (cell_of (hist @ [t]), cell_of (hist @ [t])) e cfg f =
    Some ((if \<exists>h. parse (payload_of e) = Some (Inr h) \<and> entries_cover sha t (cfg_allow cfg) (identity_of sha t h)
       then Continue else Stop_Iteration, f', fx), cfg')"
proof -
  let ?c = "(cell_of (hist @ [t]), cell_of (hist @ [t]))"
  have table: "snd (fst ?c) = Some t" by (simp add: cell_of_def)
  obtain r where r: "parse (payload_of e) = Some r" using parse_total by blast
  show ?thesis
  proof (cases r)
    case (Inl err)
    then show ?thesis using udp_on_data_cases(1) [OF table] r by simp
  next
    case (Inr h)
    obtain b cfg' where permits: "permits_unscoped sha (snd ?c) (identity_of sha t h) cfg = (b, cfg')"
      by (cases "permits_unscoped sha (snd ?c) (identity_of sha t h) cfg") auto
    then have "b \<longleftrightarrow> entries_cover sha t (cfg_allow cfg) (identity_of sha t h)"
      using permits_current(1) [OF assms(1-3), of "[]" "identity_of sha t h"] assms(4)
      by (simp add: permits_unscoped_def rules_cover_def)
    then show ?thesis
      using udp_on_data_cases(2,3) [OF table, where e = e and h = h and cfg = cfg and cfg' = cfg' and f = f and sha = sha]
        permits r Inr assms(5) by (cases b) auto
  qed
qed

text \<open>The filter that judges a label.\<close>

definition sni_of :: "envoy \<Rightarrow> bytes" where
  "sni_of e = (case get_requested_server_name e of Some b \<Rightarrow> b | None \<Rightarrow> [])"

lemma auth_call:
  "labelled_identity e = Some i \<Longrightarrow> fst (auth_on_accept sha c e cfg g) =
    (if fst (permits sha c (sni_of e) i cfg)
     then (Continue, g\<lparr>af_settled := True\<rparr>, bump (ctr_allowed (af_counters g)))
     else auth_refuse (g\<lparr>af_settled := True\<rparr>) ''denied_by_allowlist'' (bump (ctr_denied (af_counters g))))"
  "labelled_identity e = None \<Longrightarrow> fst (auth_on_accept sha c e cfg g) =
    auth_refuse (g\<lparr>af_settled := True\<rparr>) ''no_identity_label'' (bump (ctr_denied (af_counters g)))"
  by (simp_all add: auth_on_accept_def sni_of_def split_beta Let_def)

lemma label_read_back:
  assumes "waiting f" and "data_call sha (cells, e, cfg) f = (Continue, f', fx)" and "snd (fst cells) = Some t"
    and "table_ok t" and "sha256_ok sha" and "parse (chunk e) = Some (Inr h)"
    and "Set_Remote_Address label port b \<in> set fx"
    and "get_remote_address e' = Some (peer, port')" and "parse_ipv6 peer = parse_ipv6 label"
  shows "labelled_identity e' = Some (identity_of sha t h)"
proof -
  have len: "length (synthesize sha (tbl_scheme t) h) = 16"
    using assms(4) parsed_header_ok [OF assms(6)] by (intro synthesize_length assms(5)) (simp_all add: table_ok_def)
  have "fx = label_effects sha t h @ bump (ctr_allowed (pf_counters f))"
    using data_call_label [OF assms(1,3,6,4,5), of cfg] assms(2) by (auto simp: refuse_def split: if_splits)
  then have "label = show_ipv6 (synthesize sha (tbl_scheme t) h)"
    using assms(7) by (auto simp: label_effects_def)
  then show ?thesis
    using assms(8,9) v6_text.read_print [OF len] by (simp add: labelled_identity_def identity_of_def)
qed

lemma data_call_enforce: "data_call sha x f = (st, f', fx) \<Longrightarrow> pf_enforce f' = pf_enforce f"
proof (cases "waiting f")
  case True
  assume "data_call sha x f = (st, f', fx)"
  then show ?thesis by (cases rule: data_call_waiting [OF True, of sha x]) (auto simp: refuse_def)
next
  case False
  then obtain st' where "ppv2_settled f = Some st'" using settled_waiting by (metis option.exhaust)
  moreover assume "data_call sha x f = (st, f', fx)"
  ultimately show ?thesis using ppv2_verdict.settled_call [of f st' sha x] by simp
qed

lemma data_calls_enforce: "data_calls sha es f = (rs, f') \<Longrightarrow> pf_enforce f' = pf_enforce f"
  by (induction es arbitrary: f rs) (auto split: prod.splits dest: data_call_enforce)

section \<open>Two tables that renumber a site\<close>

text \<open>
  Two sites swap their endpoints from one table to the next, and the group \<open>seven\<close> follows the
  other endpoint: each table denies the example peer to that group.
\<close>

definition swapped :: "u16 \<Rightarrow> u16 \<Rightarrow> string \<Rightarrow> table" where
  "swapped i j member = \<lparr>tbl_scheme = scheme_new [0xfd, 0x0b, 0x10, 0x03, 0x5e, 0xc0]
     [\<lparr>site_id = i, site_vpce = [as_bytes ''vpce-1''], site_cidrs = empty_set\<rparr>,
      \<lparr>site_id = j, site_vpce = [as_bytes ''vpce-2''], site_cidrs = empty_set\<rparr>],
    tbl_groups = \<lparr>groups = [(''seven'', [member])]\<rparr>\<rparr>"

definition demo_before :: table where "demo_before = swapped 7 9 ''!9''"
definition demo_after :: table where "demo_after = swapped 9 7 ''!7''"

lemma empty_set_invar [simp]: "set_invar empty_set"
  by (simp add: set_invar_def empty_set_def disjoint_ranges_def)

lemma swapped_ok: "i \<noteq> 0 \<Longrightarrow> j \<noteq> 0 \<Longrightarrow> table_ok (swapped i j m)"
  using demo_prefix_ok
  by (simp add: table_ok_def swapped_def scheme_new_segs(1) sites_ok_def demo_prefix)

lemma demo_across_ok: "published_ok [demo_before, demo_after]"
  by (simp add: published_ok_def demo_before_def demo_after_def swapped_ok)

lemma swapped_entries:
  assumes "expands (tbl_groups t) ''@seven'' = Some (''seven'', [m])" and "expands (tbl_groups t) m = None"
  shows "entries_admit sha t [''@seven''] h \<longleftrightarrow> entry_admits sha (tbl_scheme t) m h"
proof -
  have "reaches (tbl_groups t) ''@seven'' l \<longleftrightarrow> l = m" for l
    using assms by (subst reaches.simps) (auto simp: reaches.simps [of _ m])
  then show ?thesis by (simp add: entries_admit_def)
qed

lemma demo_across_entries:
  "entries_admit sha demo_before [''@seven''] h \<longleftrightarrow> entry_admits sha (tbl_scheme demo_before) ''!9'' h"
  "entries_admit sha demo_after [''@seven''] h \<longleftrightarrow> entry_admits sha (tbl_scheme demo_after) ''!7'' h"
  by (rule swapped_entries; simp add: demo_before_def demo_after_def swapped_def expands_def)+

lemma demo_before_denies: "\<not> entries_admit demo_sha demo_before [''@seven''] demo_header"
proof -
  have "\<not> admits demo_sha (tbl_scheme demo_before) ''!9'' demo_header" by code_simp
  then show ?thesis by (simp add: demo_across_entries entry_admits_def)
qed

lemma demo_after_denies: "\<not> entries_admit demo_sha demo_after [''@seven''] demo_header"
proof -
  have "\<not> admits demo_sha (tbl_scheme demo_after) ''!7'' demo_header" by code_simp
  then show ?thesis by (simp add: demo_across_entries entry_admits_def)
qed

text \<open>The identity made under the first table is one the second gives another endpoint.\<close>

lemma demo_cover_across: "entries_cover demo_sha demo_after [''@seven''] (identity_of demo_sha demo_before demo_header)"
proof -
  let ?h = "v4_header [192, 168, 0, 1] (as_bytes ''vpce-2'')"
  have "admits demo_sha (tbl_scheme demo_after) ''!7'' ?h" by code_simp
  then have "entries_admit demo_sha demo_after [''@seven''] ?h"
    by (simp add: demo_across_entries entry_admits_def)
  moreover have "synthesize demo_sha (tbl_scheme demo_before) demo_header = synthesize demo_sha (tbl_scheme demo_after) ?h"
    by code_simp
  moreover have "table_ok demo_after" by (simp add: demo_after_def swapped_ok)
  ultimately show ?thesis
    using entries_cover_identity [of demo_after demo_sha ?h "[''@seven'']"]
    by (simp add: demo_sha_ok v4_header_ok v4_header_genuine identity_of_def)
qed

end
