(* ===== verification/Process.thy ===== *)
theory Process
  imports Sharing Chain
begin

text \<open>
  The module as a process. Listeners are built at any time, each owns a config whose cache its
  filters share; filters are created, called back by the host and meanwhile wait in
  \<open>Config::permits\<close>; carriers publish tables between any two of these steps. A callback is split
  at the question it puts to \<open>permits\<close>, which runs in the critical sections of Sharing. Shown are
  the agreement of the split callbacks with those of Tcp and Udp, that every config of a process
  is in a state Sharing describes, and what a verdict of the whole process rests on.
\<close>

section \<open>Callbacks up to their question\<close>

text \<open>A callback is over, or asks whether a server name and an address are permitted.\<close>

datatype 'r call = Done 'r | Asks bytes u128 "bool \<Rightarrow> 'r"

definition resolve_call :: "(bytes \<Rightarrow> bytes) \<Rightarrow> cell \<Rightarrow> config \<Rightarrow> 'r call \<Rightarrow> 'r \<times> config" where
  "resolve_call sha c cfg q =
     (case q of
        Done r \<Rightarrow> (r, cfg)
      | Asks sni a k \<Rightarrow> (case permits sha c sni a cfg of (b, cfg') \<Rightarrow> (k b, cfg')))"

definition after_verdict :: "ppv2_filter \<Rightarrow> effect list \<Rightarrow> bool \<Rightarrow> status \<times> ppv2_filter \<times> effect list" where
  "after_verdict f fx permitted =
     (if \<not> permitted then refuse f ''denied_by_allowlist'' (fx @ bump (ctr_denied (pf_counters f)))
      else (Continue, f\<lparr>pf_done := True\<rparr>, fx @ bump (ctr_allowed (pf_counters f))))"

definition label_begin :: "envoy \<Rightarrow> ppv2_filter \<Rightarrow> u128 \<Rightarrow> addr_text \<Rightarrow> u32 \<Rightarrow> nat \<Rightarrow> attested
    \<Rightarrow> (status \<times> ppv2_filter \<times> effect list) call" where
  "label_begin e f ident text port len said =
     (let label = [Set_Remote_Address (as_str text) port True] in
      if \<not> set_remote_address e (as_str text) port True
      then Done (refuse f ''set_remote_address_failed'' label)
      else
        (let fx = label @
           [Set_Metadata META_NS ''vpce_id'' (attested_vpce said),
            Set_Metadata META_NS ''src'' (as_str (attested_src said)),
            Drain_Buffer len] in
         if pf_enforce f then Asks [] ident (after_verdict f fx) else Done (after_verdict f fx True)))"

definition ppv2_begin :: "(bytes \<Rightarrow> bytes) \<Rightarrow> table option \<Rightarrow> envoy \<Rightarrow> ppv2_filter
    \<Rightarrow> (status \<times> ppv2_filter \<times> effect list) call option" where
  "ppv2_begin sha tab e f =
     (if pf_refused f then Some (Done (Stop_Iteration, f, []))
      else if pf_done f then Some (Done (Continue, f, []))
      else (case tab of
        None \<Rightarrow> Some (Done (refuse f ''no_identity_table'' []))
      | Some table \<Rightarrow>
          map_option (\<lambda>d. case d of
              Need_More n \<Rightarrow> Done (Stop_Iteration, f\<lparr>pf_want := n\<rparr>, [])
            | Not_Proxy_Protocol \<Rightarrow> Done (refuse f ''not_proxy_protocol'' (bump (ctr_not_ppv2 (pf_counters f))))
            | Labelled ident text port len said \<Rightarrow> label_begin e f ident text port len said)
            (inspect sha e (tbl_scheme table))))"

definition auth_begin :: "envoy \<Rightarrow> auth_filter \<Rightarrow> (status \<times> auth_filter \<times> effect list) call" where
  "auth_begin e f =
     (let f = f\<lparr>af_settled := True\<rparr> in
      case labelled_identity e of
        None \<Rightarrow> Done (auth_refuse f ''no_identity_label'' (bump (ctr_denied (af_counters f))))
      | Some ident \<Rightarrow>
          Asks (sni_of e) ident (\<lambda>permitted.
            if permitted then (Continue, f, bump (ctr_allowed (af_counters f)))
            else auth_refuse f ''denied_by_allowlist'' (bump (ctr_denied (af_counters f)))))"

definition udp_begin :: "(bytes \<Rightarrow> bytes) \<Rightarrow> table option \<Rightarrow> udp_envoy \<Rightarrow> udp_filter
    \<Rightarrow> (status \<times> udp_filter \<times> effect list) call option" where
  "udp_begin sha tab e f =
     (case tab of
        None \<Rightarrow> Some (Done (Stop_Iteration, f, []))
      | Some table \<Rightarrow> do {
          buf \<leftarrow> datagram (fst (get_datagram_data e));
          r \<leftarrow> parse buf;
          Some (case r of
            Inr h \<Rightarrow>
              Asks [] (to_u128 (synthesize sha (tbl_scheme table) h)) (\<lambda>permitted.
                if permitted then udp_finish e Forward (f\<lparr>uf_payload := drop (hdr_len h) buf\<rparr>)
                else udp_finish e Denied f)
          | Inl _ \<Rightarrow> Done (udp_finish e Not_Ppv2 f))
        })"

lemmas auth_steps = auth_begin_def auth_refuse_def Let_def
lemmas udp_steps = udp_begin_def udp_finish_def Let_def
lemmas call_splits = option.splits sum.splits if_splits Option.bind_splits prod.splits

text \<open>Asked and answered at once, the split callbacks are those of Tcp and Udp.\<close>

lemma resolve_call_simps [simp]:
  "resolve_call sha c cfg (Done r) = (r, cfg)"
  "resolve_call sha c cfg (Asks sni a k) = (case permits sha c sni a cfg of (b, cfg') \<Rightarrow> (k b, cfg'))"
  by (simp_all add: resolve_call_def)

lemma label_resolves:
  "resolve_call sha c cfg (label_begin e f ident txt port len said) = on_label sha c e cfg f ident txt port len said"
  by (simp add: label_begin_def on_label_def after_verdict_def permits_unscoped_def Let_def split: prod.split)

lemma ppv2_resolves:
  "ppv2_on_data sha cells e cfg f =
    map_option (resolve_call sha (snd cells) cfg) (ppv2_begin sha (snd (fst cells)) e f)"
proof (cases "snd (fst cells)")
  case (Some t)
  have "(case d of
        Need_More n \<Rightarrow> ((Stop_Iteration, f\<lparr>pf_want := n\<rparr>, []), cfg)
      | Not_Proxy_Protocol \<Rightarrow> (refuse f ''not_proxy_protocol'' (bump (ctr_not_ppv2 (pf_counters f))), cfg)
      | Labelled ident txt port len said \<Rightarrow> on_label sha (snd cells) e cfg f ident txt port len said) =
    resolve_call sha (snd cells) cfg (case d of
        Need_More n \<Rightarrow> Done (Stop_Iteration, f\<lparr>pf_want := n\<rparr>, [])
      | Not_Proxy_Protocol \<Rightarrow> Done (refuse f ''not_proxy_protocol'' (bump (ctr_not_ppv2 (pf_counters f))))
      | Labelled ident txt port len said \<Rightarrow> label_begin e f ident txt port len said)" for d
    by (cases d) (simp_all add: label_resolves)
  then show ?thesis
    using Some by (cases "inspect sha e (tbl_scheme t)") (simp_all add: ppv2_on_data_def ppv2_begin_def)
qed (simp add: ppv2_on_data_def ppv2_begin_def)

lemma auth_resolves: "auth_on_accept sha c e cfg f = resolve_call sha c cfg (auth_begin e f)"
  by (auto simp: auth_on_accept_def auth_begin_def resolve_call_def sni_of_def Let_def split: option.split prod.split)

lemma udp_resolves:
  "udp_on_data sha cells e cfg f =
    map_option (resolve_call sha (snd cells) cfg) (udp_begin sha (snd (fst cells)) e f)"
proof (cases "snd (fst cells)")
  case None
  then show ?thesis by (simp add: udp_on_data_def udp_begin_def resolve_call_def)
next
  case (Some t)
  have buf: "datagram (fst (get_datagram_data e)) = Some (payload_of e)"
    by (simp add: datagram_concat payload_of_def)
  obtain r where r: "parse (payload_of e) = Some r" using parse_total by blast
  show ?thesis
  proof (cases r)
    case (Inl err)
    then show ?thesis
      using udp_on_data_cases(1) [OF Some] r Some by (simp add: udp_begin_def buf resolve_call_def udp_finish_def)
  next
    case (Inr h)
    then show ?thesis
      using r Some slice_after_header [of "payload_of e" h]
      by (auto simp: udp_begin_def udp_on_data_def udp_decide_def buf resolve_call_def permits_unscoped_def Let_def split: prod.split)
  qed
qed

section \<open>Listeners and their filters\<close>

datatype listener = Tcp_Listener listener_config | Udp_Listener udp_listener_config

datatype filter_object =
    Ppv2_Filter ppv2_filter
  | Auth_Filter auth_filter
  | Table_Filter
  | Udp_Filter udp_filter
  | Udp_Table_Filter
  | Udp_Deny_All_Filter

text \<open>\<open>new_listener_filter\<close> and \<open>new_udp_listener_filter\<close> of every config; the carriers and the
  filter of a rejected UDP config have no state.\<close>

definition new_table_filter :: filter_object where
  [simp]: "new_table_filter = Table_Filter"

definition new_udp_table_filter :: filter_object where
  [simp]: "new_udp_table_filter = Udp_Table_Filter"

definition new_udp_deny_all_filter :: filter_object where
  [simp]: "new_udp_deny_all_filter = Udp_Deny_All_Filter"

fun new_filter :: "listener \<Rightarrow> filter_object" where
  "new_filter (Tcp_Listener (Ppv2_Listener pc cfg)) = Ppv2_Filter (new_ppv2_filter pc)"
| "new_filter (Tcp_Listener (Auth_Listener counters cfg)) = Auth_Filter (new_auth_filter counters)"
| "new_filter (Tcp_Listener Table_Listener) = new_table_filter"
| "new_filter (Udp_Listener (Udp_Auth_Listener counters cfg)) = Udp_Filter (new_udp_filter counters)"
| "new_filter (Udp_Listener Udp_Table_Listener) = new_udp_table_filter"
| "new_filter (Udp_Listener Udp_Deny_All) = new_udp_deny_all_filter"

text \<open>The config a listener shares with its filters.\<close>

fun config_of :: "listener \<Rightarrow> config option" where
  "config_of (Tcp_Listener (Ppv2_Listener pc cfg)) = Some cfg"
| "config_of (Tcp_Listener (Auth_Listener counters cfg)) = Some cfg"
| "config_of (Udp_Listener (Udp_Auth_Listener counters cfg)) = Some cfg"
| "config_of _ = None"

fun with_config :: "config \<Rightarrow> listener \<Rightarrow> listener" where
  "with_config cfg (Tcp_Listener (Ppv2_Listener pc _)) = Tcp_Listener (Ppv2_Listener pc cfg)"
| "with_config cfg (Tcp_Listener (Auth_Listener counters _)) = Tcp_Listener (Auth_Listener counters cfg)"
| "with_config cfg (Udp_Listener (Udp_Auth_Listener counters _)) = Udp_Listener (Udp_Auth_Listener counters cfg)"
| "with_config cfg l = l"

text \<open>A callback of the host, and what a filter of either interface does up to its question.\<close>

datatype callback = On_Accept envoy | On_Data envoy | On_Datagram udp_envoy

type_synonym outcome = "status \<times> filter_object \<times> effect list"

definition as_filter :: "('f \<Rightarrow> filter_object) \<Rightarrow> status \<times> 'f \<times> effect list \<Rightarrow> outcome" where
  "as_filter C = (\<lambda>(st, f, fx). (st, C f, fx))"

fun callback_begin :: "(bytes \<Rightarrow> bytes) \<Rightarrow> table option \<Rightarrow> filter_object \<Rightarrow> callback \<Rightarrow> outcome call option" where
  "callback_begin sha tab (Ppv2_Filter f) (On_Accept e) = Some (Done (ppv2_on_accept f, Ppv2_Filter f, []))"
| "callback_begin sha tab (Ppv2_Filter f) (On_Data e) = map_option (map_call (as_filter Ppv2_Filter)) (ppv2_begin sha tab e f)"
| "callback_begin sha tab (Auth_Filter f) (On_Accept e) = Some (map_call (as_filter Auth_Filter) (auth_begin e f))"
| "callback_begin sha tab (Auth_Filter f) (On_Data e) = Some (Done (as_filter Auth_Filter (auth_on_data f)))"
| "callback_begin sha tab Table_Filter (On_Accept e) = Some (Done (table_on_accept, Table_Filter, []))"
| "callback_begin sha tab Table_Filter (On_Data e) = Some (Done (as_filter (\<lambda>_. Table_Filter) (table_on_data ())))"
| "callback_begin sha tab (Udp_Filter f) (On_Datagram u) = map_option (map_call (as_filter Udp_Filter)) (udp_begin sha tab u f)"
| "callback_begin sha tab Udp_Table_Filter (On_Datagram u) = Some (Done (udp_table_on_data u, Udp_Table_Filter, []))"
| "callback_begin sha tab Udp_Deny_All_Filter (On_Datagram u) = Some (Done (udp_deny_all_on_data u, Udp_Deny_All_Filter, []))"
| "callback_begin sha tab _ _ = None"

section \<open>The process\<close>

text \<open>
  A filter object with the listener it was made for, whether its \<open>on_accept\<close> has run, and the
  question its callback waits on with the phase of \<open>permits\<close>. The callback holds the object
  exclusively, so there is at most one.
\<close>

record filter_slot =
  ob_listener :: nat
  ob_filter :: filter_object
  ob_accepted :: bool
  ob_call :: "(bytes \<times> u128 \<times> (bool \<Rightarrow> outcome)) option"
  ob_phase :: phase

record 's process =
  pr_cell :: cell
  pr_host :: 's
  pr_listeners :: "listener list"
  pr_slots :: "filter_slot list"

definition fresh_process :: "'s \<Rightarrow> 's process" where
  "fresh_process s = \<lparr>pr_cell = unpublished, pr_host = s, pr_listeners = [], pr_slots = []\<rparr>"

datatype event =
    Load bool string bytes
  | Create nat
  | Invoke nat callback
  | Advance nat

text \<open>Whatever a filter answered, with its place.\<close>

type_synonym reply = "nat \<times> status \<times> effect list"

definition load_listener :: "(string \<Rightarrow> string + raw_rules) \<Rightarrow> (string \<Rightarrow> string + raw_table) \<Rightarrow> 's definer \<Rightarrow>
    bool \<Rightarrow> string \<Rightarrow> bytes \<Rightarrow> 's process \<Rightarrow> 's process" where
  "load_listener rj tj d udp name bs p =
     (if udp
      then (case new_udp_listener_filter_config rj tj d name bs (pr_cell p, pr_host p) of
        (built, c, s) \<Rightarrow> p\<lparr>pr_cell := c, pr_host := s,
          pr_listeners := pr_listeners p @ (case built of Some l \<Rightarrow> [Udp_Listener l] | None \<Rightarrow> [])\<rparr>)
      else (case new_listener_filter_config rj tj d name bs (pr_cell p, pr_host p) of
        (built, c, s) \<Rightarrow> p\<lparr>pr_cell := c, pr_host := s,
          pr_listeners := pr_listeners p @ (case built of Some l \<Rightarrow> [Tcp_Listener l] | None \<Rightarrow> [])\<rparr>))"

definition create :: "nat \<Rightarrow> 's process \<Rightarrow> 's process option" where
  "create l p = do {
     lst \<leftarrow> idx (pr_listeners p) l;
     Some (p\<lparr>pr_slots := pr_slots p @
       [\<lparr>ob_listener = l, ob_filter = new_filter lst, ob_accepted = False, ob_call = None, ob_phase = Idle\<rparr>]\<rparr>)
   }"

text \<open>The host calls \<open>on_accept\<close> once, before any data.\<close>

definition in_order :: "filter_slot \<Rightarrow> callback \<Rightarrow> bool" where
  "in_order ob cb = (case cb of On_Accept _ \<Rightarrow> \<not> ob_accepted ob | On_Data _ \<Rightarrow> ob_accepted ob | On_Datagram _ \<Rightarrow> True)"

definition set_slot :: "nat \<Rightarrow> filter_slot \<Rightarrow> 's process \<Rightarrow> 's process" where
  "set_slot i ob p = p\<lparr>pr_slots := (pr_slots p)[i := ob]\<rparr>"

definition invoke :: "(bytes \<Rightarrow> bytes) \<Rightarrow> nat \<Rightarrow> callback \<Rightarrow> 's process \<Rightarrow> ('s process \<times> reply list) option" where
  "invoke sha i cb p = do {
     ob \<leftarrow> idx (pr_slots p) i;
     c \<leftarrow> (if Option.is_none (ob_call ob) \<and> in_order ob cb
           then callback_begin sha (snd (pr_cell p)) (ob_filter ob) cb else None);
     let ob' = ob\<lparr>ob_accepted := True\<rparr>;
     Some (case c of
       Done (st, flt, fx) \<Rightarrow> (set_slot i (ob'\<lparr>ob_filter := flt\<rparr>) p, [(i, st, fx)])
     | Asks sni a k \<Rightarrow> (set_slot i (ob'\<lparr>ob_call := Some (sni, a, k)\<rparr>) p, []))
   }"

text \<open>The next critical section of a call, on the config of its listener.\<close>

fun next_section :: "nat \<Rightarrow> bytes \<Rightarrow> u128 \<Rightarrow> phase \<Rightarrow> action" where
  "next_section i sni a Idle = Snapshot i sni a"
| "next_section i sni a (Snapped _ _ _) = Check i"
| "next_section i sni a (Stale _ _ _) = Rebuild i"
| "next_section i sni a (Ready _ _) = Answer i"
| "next_section i sni a (Answered _ _ _) = Return i"

definition phase_at :: "nat \<Rightarrow> filter_slot list \<Rightarrow> nat \<Rightarrow> phase" where
  "phase_at l obs i = (if i < length obs \<and> ob_listener (obs ! i) = l then ob_phase (obs ! i) else Idle)"

definition pool_of :: "nat \<Rightarrow> config \<Rightarrow> 's process \<Rightarrow> pool" where
  "pool_of l cfg p = \<lparr>published = pr_cell p, shared = cfg, phase_of = phase_at l (pr_slots p)\<rparr>"

definition config_at :: "nat \<Rightarrow> 's process \<Rightarrow> config option" where
  "config_at l p = Option.bind (idx (pr_listeners p) l) config_of"

definition set_config :: "nat \<Rightarrow> config \<Rightarrow> 's process \<Rightarrow> 's process" where
  "set_config l cfg p = p\<lparr>pr_listeners := (pr_listeners p)[l := with_config cfg (pr_listeners p ! l)]\<rparr>"

definition advance :: "(bytes \<Rightarrow> bytes) \<Rightarrow> nat \<Rightarrow> 's process \<Rightarrow> ('s process \<times> reply list) option" where
  "advance sha i p = do {
     ob \<leftarrow> idx (pr_slots p) i;
     (sni, a, k) \<leftarrow> ob_call ob;
     cfg \<leftarrow> config_at (ob_listener ob) p;
     q \<leftarrow> exec sha (next_section i sni a (ob_phase ob)) (pool_of (ob_listener ob) cfg p);
     let p' = set_config (ob_listener ob) (shared q) p;
     let ob' = ob\<lparr>ob_phase := phase_of q i\<rparr>;
     Some (case ob_phase ob of
       Answered _ _ b \<Rightarrow>
         (case k b of (st, flt, fx) \<Rightarrow> (set_slot i (ob'\<lparr>ob_filter := flt, ob_call := None\<rparr>) p', [(i, st, fx)]))
     | _ \<Rightarrow> (set_slot i ob' p', []))
   }"

fun step :: "(bytes \<Rightarrow> bytes) \<Rightarrow> (string \<Rightarrow> string + raw_rules) \<Rightarrow> (string \<Rightarrow> string + raw_table) \<Rightarrow> 's definer \<Rightarrow>
    event \<Rightarrow> 's process \<Rightarrow> ('s process \<times> reply list) option" where
  "step sha rj tj d (Load udp name bs) p = Some (load_listener rj tj d udp name bs p, [])"
| "step sha rj tj d (Create l) p = map_option (\<lambda>q. (q, [])) (create l p)"
| "step sha rj tj d (Invoke i cb) p = invoke sha i cb p"
| "step sha rj tj d (Advance i) p = advance sha i p"

fun run :: "(bytes \<Rightarrow> bytes) \<Rightarrow> (string \<Rightarrow> string + raw_rules) \<Rightarrow> (string \<Rightarrow> string + raw_table) \<Rightarrow> 's definer \<Rightarrow>
    event list \<Rightarrow> 's process \<Rightarrow> ('s process \<times> reply list) option" where
  "run sha rj tj d [] p = Some (p, [])"
| "run sha rj tj d (x # xs) p = do {
     (q, os) \<leftarrow> step sha rj tj d x p;
     (r, os') \<leftarrow> run sha rj tj d xs q;
     Some (r, os @ os')
   }"

text \<open>The tables a sequence of events publishes.\<close>

definition tables_of :: "(string \<Rightarrow> string + raw_table) \<Rightarrow> event \<Rightarrow> table list" where
  "tables_of tj x =
     (case x of
        Load udp name bs \<Rightarrow>
          (if name = ''table'' then (case and_then (text_of bs) (parse_table tj) of Inr t \<Rightarrow> [t] | Inl _ \<Rightarrow> []) else [])
      | _ \<Rightarrow> [])"

definition history :: "(string \<Rightarrow> string + raw_table) \<Rightarrow> event list \<Rightarrow> table list" where
  "history tj xs = concat (map (tables_of tj) xs)"

section \<open>Runs\<close>

lemma history_simps [simp]:
  "history tj [] = []" "history tj (xs @ ys) = history tj xs @ history tj ys" "history tj [x] = tables_of tj x"
  by (simp_all add: history_def)

lemma tables_of_simps [simp]:
  "tables_of tj (Create l) = []" "tables_of tj (Invoke i cb) = []" "tables_of tj (Advance i) = []"
  by (simp_all add: tables_of_def)

lemma run_append:
  "run sha rj tj d (xs @ ys) p = do {
     (q, os) \<leftarrow> run sha rj tj d xs p;
     (r, os') \<leftarrow> run sha rj tj d ys q;
     Some (r, os @ os')
   }"
  by (induction xs arbitrary: p) (auto split: option.split Option.bind_split)

lemma run_snoc:
  "run sha rj tj d (xs @ [x]) p = Some (q, os) \<longleftrightarrow>
    (\<exists>r os1 os2. run sha rj tj d xs p = Some (r, os1) \<and> step sha rj tj d x r = Some (q, os2) \<and> os = os1 @ os2)"
  by (auto simp: run_append split: Option.bind_splits)

text \<open>What holds at the start and is kept by every step of a run holds at its end.\<close>

lemma run_invariant [consumes 1, case_names start step]:
  assumes "run sha rj tj d xs (fresh_process s) = Some (p, os)" and "I [] (fresh_process s) []"
    and "\<And>xs p os x q os'. run sha rj tj d xs (fresh_process s) = Some (p, os) \<Longrightarrow> I xs p os \<Longrightarrow>
      step sha rj tj d x p = Some (q, os') \<Longrightarrow> I (xs @ [x]) q (os @ os')"
  shows "I xs p os"
  using assms(1)
proof (induction xs arbitrary: p os rule: rev_induct)
  case Nil
  then show ?case using assms(2) by simp
next
  case (snoc x xs)
  then show ?case using assms(3) unfolding run_snoc by blast
qed

section \<open>Pools within the process\<close>

lemma pool_of_sel [simp]:
  "published (pool_of l cfg p) = pr_cell p" "shared (pool_of l cfg p) = cfg"
  "phase_of (pool_of l cfg p) = phase_at l (pr_slots p)"
  by (simp_all add: pool_of_def)

lemma set_sel [simp]:
  "pr_cell (set_slot i ob p) = pr_cell p" "pr_listeners (set_slot i ob p) = pr_listeners p"
  "pr_slots (set_slot i ob p) = (pr_slots p)[i := ob]"
  "pr_cell (set_config l cfg p) = pr_cell p" "pr_slots (set_config l cfg p) = pr_slots p"
  "pr_listeners (set_config l cfg p) = (pr_listeners p)[l := with_config cfg (pr_listeners p ! l)]"
  by (simp_all add: set_slot_def set_config_def)

lemma pool_eqI: "published p = published q \<Longrightarrow> shared p = shared q \<Longrightarrow> phase_of p = phase_of q \<Longrightarrow> p = (q :: pool)"
  by simp

lemma config_with_config [simp]: "config_of (with_config cfg l) = map_option (\<lambda>_. cfg) (config_of l)"
  by (cases "(cfg, l)" rule: with_config.cases) auto

lemma config_at_Some: "config_at l p = Some cfg \<longleftrightarrow> l < length (pr_listeners p) \<and> config_of (pr_listeners p ! l) = Some cfg"
  by (auto simp: config_at_def idx_def)

lemma config_at_set_slot [simp]: "config_at l (set_slot i ob p) = config_at l p"
  by (simp add: config_at_def)

lemma config_at_set_config: "config_at l' (set_config l cfg p) =
    (if l' = l then map_option (\<lambda>_. cfg) (config_at l p) else config_at l' p)"
  by (auto simp: config_at_def idx_def set_config_def)

lemma phase_at_update: "ob_listener ob = ob_listener (obs ! i) \<Longrightarrow> i < length obs \<Longrightarrow>
    phase_at l (obs[i := ob]) j = (if j = i \<and> ob_listener ob = l then ob_phase ob else phase_at l obs j)"
  by (auto simp: phase_at_def nth_list_update)

lemma exec_local:
  assumes "exec sha (next_section i sni a ph) p = Some q"
  shows "published q = published p \<and> (\<forall>j. j \<noteq> i \<longrightarrow> phase_of q j = phase_of p j)"
  using assms by (cases ph) (auto split: phase.splits)

lemma next_section_not_publish: "next_section i sni a ph \<noteq> Publish t"
  by (cases ph) auto

text \<open>A pool takes part in every publication, and a config loaded late starts under the present table.\<close>

lemma publish_all: "fold publish ts (cell_of hist) = cell_of (hist @ ts)"
  by (induction ts arbitrary: hist) (simp_all add: publish_cell)

lemma reached_publish_all:
  "reached sha cfg hist p \<Longrightarrow> reached sha cfg (hist @ ts) (p\<lparr>published := fold publish ts (published p)\<rparr>)"
proof (induction ts arbitrary: hist p)
  case (Cons t ts)
  have "reached sha cfg (hist @ [t]) (p\<lparr>published := publish t (published p)\<rparr>)"
    using Cons.prems by (rule reached.publish) simp
  from Cons.IH [OF this] show ?case by simp
qed simp

lemma reached_fresh: "reached sha cfg hist ((fresh_pool cfg)\<lparr>published := cell_of hist\<rparr>)"
  using reached_publish_all [OF reached.start, of sha cfg hist] publish_all [of hist "[]"] by (simp add: cell_of_Nil)

section \<open>The invariant of the process\<close>

definition loaded :: "(string \<Rightarrow> string + raw_rules) \<Rightarrow> config \<Rightarrow> bool" where
  "loaded rj cfg \<longleftrightarrow> (\<exists>src. parse_rules rj src = Inr cfg)"

lemma loaded_cache: "loaded rj cfg \<Longrightarrow> cache_ok sha hist cfg"
  by (auto simp: loaded_def intro: parse_rules_cache)

text \<open>A filter object is of its listener's kind and keeps what it took from it.\<close>

fun fits :: "listener \<Rightarrow> filter_object \<Rightarrow> bool" where
  "fits (Tcp_Listener (Ppv2_Listener pc cfg)) (Ppv2_Filter f) \<longleftrightarrow>
     pf_enforce f = pc_enforce pc \<and> pf_counters f = pc_counters pc \<and> filter_ok f"
| "fits (Tcp_Listener (Auth_Listener counters cfg)) (Auth_Filter f) \<longleftrightarrow> af_counters f = counters"
| "fits (Tcp_Listener Table_Listener) Table_Filter \<longleftrightarrow> True"
| "fits (Udp_Listener (Udp_Auth_Listener counters cfg)) (Udp_Filter f) \<longleftrightarrow> uf_counters f = counters"
| "fits (Udp_Listener Udp_Table_Listener) Udp_Table_Filter \<longleftrightarrow> True"
| "fits (Udp_Listener Udp_Deny_All) Udp_Deny_All_Filter \<longleftrightarrow> True"
| "fits _ _ \<longleftrightarrow> False"

fun_cases fits_Ppv2: "fits l (Ppv2_Filter f)"
fun_cases fits_Auth: "fits l (Auth_Filter f)"
fun_cases fits_Udp: "fits l (Udp_Filter f)"

fun asks :: "bytes \<Rightarrow> u128 \<Rightarrow> phase \<Rightarrow> bool" where
  "asks sni a Idle \<longleftrightarrow> True"
| "asks sni a (Snapped c sni' a') \<longleftrightarrow> sni' = sni \<and> a' = a"
| "asks sni a (Stale c sni' a') \<longleftrightarrow> sni' = sni \<and> a' = a"
| "asks sni a (Ready sni' a') \<longleftrightarrow> sni' = sni \<and> a' = a"
| "asks sni a (Answered sni' a' b) \<longleftrightarrow> sni' = sni \<and> a' = a"

text \<open>The question of a call is the one its callback put, under the table published when it began.\<close>

definition asked :: "(bytes \<Rightarrow> bytes) \<Rightarrow> (string \<Rightarrow> string + raw_table) \<Rightarrow> event list \<Rightarrow> nat \<Rightarrow> filter_object \<Rightarrow>
    bytes \<Rightarrow> u128 \<Rightarrow> (bool \<Rightarrow> outcome) \<Rightarrow> bool" where
  "asked sha tj xs i flt sni a k \<longleftrightarrow> (\<exists>ys cb zs. xs = ys @ Invoke i cb # zs \<and>
     callback_begin sha (snd (cell_of (history tj ys))) flt cb = Some (Asks sni a k))"

definition slot_ok :: "(bytes \<Rightarrow> bytes) \<Rightarrow> (string \<Rightarrow> string + raw_table) \<Rightarrow> event list \<Rightarrow> listener list \<Rightarrow> nat \<Rightarrow> filter_slot \<Rightarrow> bool" where
  "slot_ok sha tj xs ls i ob \<longleftrightarrow>
     ob_listener ob < length ls \<and> fits (ls ! ob_listener ob) (ob_filter ob) \<and>
     (case ob_call ob of
        None \<Rightarrow> ob_phase ob = Idle
      | Some (sni, a, k) \<Rightarrow> asks sni a (ob_phase ob) \<and> asked sha tj xs i (ob_filter ob) sni a k)"

definition process_ok :: "(bytes \<Rightarrow> bytes) \<Rightarrow> (string \<Rightarrow> string + raw_rules) \<Rightarrow> (string \<Rightarrow> string + raw_table) \<Rightarrow>
    event list \<Rightarrow> 's process \<Rightarrow> bool" where
  "process_ok sha rj tj xs p \<longleftrightarrow>
     cell_ok (history tj xs) (pr_cell p) \<and>
     (\<forall>l cfg. config_at l p = Some cfg \<longrightarrow>
        (\<exists>cfg0. loaded rj cfg0 \<and> reached sha cfg0 (history tj xs) (pool_of l cfg p))) \<and>
     (\<forall>i < length (pr_slots p). slot_ok sha tj xs (pr_listeners p) i (pr_slots p ! i))"

lemma fits_with_config [simp]: "fits (with_config cfg l) f = fits l f"
  by (cases "(cfg, l)" rule: with_config.cases; cases f) auto

lemma fits_new: "fits l (new_filter l)"
  by (cases l rule: new_filter.cases) (auto simp: new_filter_ok, auto simp: new_ppv2_filter_def new_auth_filter_def new_udp_filter_def)

lemma asked_more: "asked sha tj xs i flt sni a k \<Longrightarrow> asked sha tj (xs @ ys) i flt sni a k"
  unfolding asked_def by (metis append.assoc append_Cons)

lemma slot_ok_more:
  "slot_ok sha tj xs ls i ob \<Longrightarrow> slot_ok sha tj (xs @ ys) (ls @ ls') i ob"
  by (auto simp: slot_ok_def nth_append intro: asked_more split: option.splits)

lemma slot_ok_config:
  "slot_ok sha tj xs ls i ob \<Longrightarrow> slot_ok sha tj (xs @ ys) (ls[l := with_config cfg (ls ! l)]) i ob"
  by (cases "l < length ls") (auto simp: slot_ok_def nth_list_update intro: asked_more split: option.splits)

text \<open>Every callback of a fitting filter leaves a fitting one, at once or after its verdict.\<close>

lemma label_begin_keeps:
  assumes "r \<in> set_call (label_begin e f i txt port len said)" and "waiting f" and "filter_ok f"
  shows "pf_enforce (fst (snd r)) = pf_enforce f \<and> pf_counters (fst (snd r)) = pf_counters f \<and> filter_ok (fst (snd r))"
  using assms by (auto simp: label_begin_def after_verdict_def refuse_def filter_ok_def waiting_def Let_def split: if_splits)

lemma as_filter_sel [simp]:
  "fst (as_filter C r) = fst r" "fst (snd (as_filter C r)) = C (fst (snd r))" "snd (snd (as_filter C r)) = snd (snd r)"
  by (simp_all add: as_filter_def split_beta)

lemma ppv2_begin_cases:
  assumes "waiting f" and "ppv2_begin sha tab e f = Some c"
  obtains (no_table) "tab = None" "c = Done (refuse f ''no_identity_table'' [])"
  | (invalid) t where "tab = Some t" "parse (chunk e) = Some (Inl Invalid)"
      "c = Done (refuse f ''not_proxy_protocol'' (bump (ctr_not_ppv2 (pf_counters f))))"
  | (need) t n where "tab = Some t" "parse (chunk e) = Some (Inl (Need n))"
      "c = Done (Stop_Iteration, f\<lparr>pf_want := n\<rparr>, [])"
  | (label) t h where "tab = Some t" "parse (chunk e) = Some (Inr h)"
      "c = label_begin e f (identity_of sha t h) (format (synthesize sha (tbl_scheme t) h)) (ucast (hdr_port h))
        (hdr_len h) (attested_of h)"
proof (cases tab)
  case None
  then show thesis using assms no_table by (simp add: ppv2_begin_def waiting_def)
next
  case (Some t)
  obtain r where r: "parse (chunk e) = Some r" using parse_total by blast
  show thesis
  proof (cases r)
    case (Inl err)
    then show thesis
      using assms r Some invalid need by (cases err) (auto simp: ppv2_begin_def waiting_def inspect_cases)
  next
    case (Inr h)
    then show thesis
      using assms r Some label by (auto simp: ppv2_begin_def waiting_def inspect_cases identity_of_def)
  qed
qed

lemma ppv2_begin_keeps:
  assumes "ppv2_begin sha tab e f = Some c" and "r \<in> set_call c" and "filter_ok f"
  shows "pf_enforce (fst (snd r)) = pf_enforce f \<and> pf_counters (fst (snd r)) = pf_counters f \<and> filter_ok (fst (snd r))"
proof (cases "waiting f")
  case True
  from True assms(1) show ?thesis
  proof (cases rule: ppv2_begin_cases)
    case (need t n)
    then show ?thesis using assms parse_need_bound [OF need(2)] by (simp add: filter_ok_def)
  next
    case (label t h)
    then show ?thesis using assms label_begin_keeps [OF _ True assms(3)] by simp
  qed (use assms True in \<open>auto simp: refuse_def filter_ok_def waiting_def\<close>)
next
  case False
  then show ?thesis using assms by (auto simp: ppv2_begin_def waiting_def split: if_splits)
qed

lemma udp_begin_keeps:
  "udp_begin sha tab e f = Some c \<Longrightarrow> r \<in> set_call c \<Longrightarrow> uf_counters (fst (snd r)) = uf_counters f"
  by (auto simp: udp_steps split: call_splits)

lemma auth_begin_keeps:
  "r \<in> set_call (auth_begin e f) \<Longrightarrow> af_counters (fst (snd r)) = af_counters f"
  by (auto simp: auth_steps split: call_splits)

lemma callback_fits:
  assumes "fits l flt" and "callback_begin sha tab flt cb = Some c" and "r \<in> set_call c"
  shows "fits l (fst (snd r))"
  using assms
proof (cases "(sha, tab, flt, cb)" rule: callback_begin.cases)
  case (2 sha' tab' f e)
  then show ?thesis using assms ppv2_begin_keeps
    by (auto simp: call.set_map elim!: fits_Ppv2)
next
  case (3 sha' tab' f e)
  then show ?thesis using assms auth_begin_keeps
    by (auto simp: call.set_map elim!: fits_Auth)
next
  case (7 sha' tab' f e)
  then show ?thesis using assms udp_begin_keeps
    by (auto simp: call.set_map elim!: fits_Udp)
next
  case (4 sha' tab' f e)
  then show ?thesis using assms
    by (auto simp: auth_on_data_def auth_refuse_def elim!: fits_Auth)
qed (auto simp: as_filter_def table_on_data_def)

lemma load_table_published: "snd (load_table tj bs c) = fold publish (tables_of tj (Load udp ''table'' bs)) c"
  by (auto simp: load_table_def tables_of_def split: sum.split)

lemma factory_builds:
  "new_listener_filter_config rj tj d name bs w = (Some l, w') \<Longrightarrow> config_of (Tcp_Listener l) = Some cfg \<Longrightarrow> loaded rj cfg"
  "new_udp_listener_filter_config rj tj d name bs w = (Some u, w') \<Longrightarrow> config_of (Udp_Listener u) = Some cfg \<Longrightarrow> loaded rj cfg"
  by (cases w; auto simp: new_listener_filter_config_def new_udp_listener_filter_config_def loaded_def load_Some split: option.splits prod.splits if_splits)+

lemma load_listener_effect:
  obtains new where "pr_listeners (load_listener rj tj d udp name bs p) = pr_listeners p @ new"
    and "\<And>l cfg. l \<in> set new \<Longrightarrow> config_of l = Some cfg \<Longrightarrow> loaded rj cfg"
    and "pr_cell (load_listener rj tj d udp name bs p) = fold publish (tables_of tj (Load udp name bs)) (pr_cell p)"
    and "pr_slots (load_listener rj tj d udp name bs p) = pr_slots p"
proof -
  let ?w = "(pr_cell p, pr_host p)"
  have cell: "fst (factory_step rj tj d (udp, name, bs) ?w) = fold publish (tables_of tj (Load udp name bs)) (pr_cell p)"
  proof (cases "name = ''table''")
    case True
    then show ?thesis using load_table_published [of tj bs "pr_cell p" udp] by (simp add: factory_cell)
  next
    case False
    then show ?thesis by (simp add: factory_cell tables_of_def)
  qed
  show thesis
  proof (cases udp)
    case True
    obtain built c s where b: "new_udp_listener_filter_config rj tj d name bs ?w = (built, c, s)"
      by (cases "new_udp_listener_filter_config rj tj d name bs ?w") auto
    then show thesis
      using that [of "case built of Some l \<Rightarrow> [Udp_Listener l] | None \<Rightarrow> []"] cell True factory_builds(2) [of rj tj d name bs ?w]
      by (auto simp: load_listener_def factory_step_def split: option.splits)
  next
    case False
    obtain built c s where b: "new_listener_filter_config rj tj d name bs ?w = (built, c, s)"
      by (cases "new_listener_filter_config rj tj d name bs ?w") auto
    then show thesis
      using that [of "case built of Some l \<Rightarrow> [Tcp_Listener l] | None \<Rightarrow> []"] cell False factory_builds(1) [of rj tj d name bs ?w]
      by (auto simp: load_listener_def factory_step_def split: option.splits)
  qed
qed

lemma fresh_process_sel [simp]:
  "pr_cell (fresh_process s) = unpublished" "pr_listeners (fresh_process s) = []" "pr_slots (fresh_process s) = []"
  by (simp_all add: fresh_process_def)

text \<open>What an invocation and an advance do to the slot, in terms of the call.\<close>

lemma invoke_Some:
  assumes "invoke sha i cb p = Some (q, os)"
  obtains (over) st flt fx where "i < length (pr_slots p)" "ob_call (pr_slots p ! i) = None" "in_order (pr_slots p ! i) cb"
      "callback_begin sha (snd (pr_cell p)) (ob_filter (pr_slots p ! i)) cb = Some (Done (st, flt, fx))"
      "q = set_slot i ((pr_slots p ! i)\<lparr>ob_accepted := True, ob_filter := flt\<rparr>) p" "os = [(i, st, fx)]"
  | (asks) sni a k where "i < length (pr_slots p)" "ob_call (pr_slots p ! i) = None" "in_order (pr_slots p ! i) cb"
      "callback_begin sha (snd (pr_cell p)) (ob_filter (pr_slots p ! i)) cb = Some (Asks sni a k)"
      "q = set_slot i ((pr_slots p ! i)\<lparr>ob_accepted := True, ob_call := Some (sni, a, k)\<rparr>) p" "os = []"
  using assms
  by (auto simp: invoke_def idx_def Let_def Option.is_none_def split: Option.bind_splits if_splits call.splits prod.splits)

lemma advance_Some:
  assumes "advance sha i p = Some (q, os)"
  obtains (moves) ob sni a k cfg r where "i < length (pr_slots p)" "ob = pr_slots p ! i" "ob_call ob = Some (sni, a, k)"
      "config_at (ob_listener ob) p = Some cfg"
      "exec sha (next_section i sni a (ob_phase ob)) (pool_of (ob_listener ob) cfg p) = Some r"
      "\<And>sni a b. ob_phase ob \<noteq> Answered sni a b"
      "q = set_slot i (ob\<lparr>ob_phase := phase_of r i\<rparr>) (set_config (ob_listener ob) (shared r) p)" "os = []"
  | (answers) ob sni a k cfg r b sni' a' st flt fx where "i < length (pr_slots p)" "ob = pr_slots p ! i" "ob_call ob = Some (sni, a, k)"
      "config_at (ob_listener ob) p = Some cfg"
      "exec sha (next_section i sni a (ob_phase ob)) (pool_of (ob_listener ob) cfg p) = Some r"
      "ob_phase ob = Answered sni' a' b" "k b = (st, flt, fx)"
      "q = set_slot i (ob\<lparr>ob_phase := phase_of r i, ob_filter := flt, ob_call := None\<rparr>) (set_config (ob_listener ob) (shared r) p)"
      "os = [(i, st, fx)]"
proof -
  obtain ob sni a k cfg r where c: "i < length (pr_slots p)" "ob = pr_slots p ! i" "ob_call ob = Some (sni, a, k)"
      "config_at (ob_listener ob) p = Some cfg"
      "exec sha (next_section i sni a (ob_phase ob)) (pool_of (ob_listener ob) cfg p) = Some r"
    and q: "Some (q, os) = Some (case ob_phase ob of
       Answered _ _ b \<Rightarrow>
         (case k b of (st, flt, fx) \<Rightarrow>
           (set_slot i (ob\<lparr>ob_phase := phase_of r i, ob_filter := flt, ob_call := None\<rparr>)
             (set_config (ob_listener ob) (shared r) p), [(i, st, fx)]))
     | _ \<Rightarrow> (set_slot i (ob\<lparr>ob_phase := phase_of r i\<rparr>) (set_config (ob_listener ob) (shared r) p), []))"
    using assms by (auto simp: advance_def idx_def Let_def split: Option.bind_splits if_splits)
  show thesis
  proof (cases "\<exists>sni a b. ob_phase ob = Answered sni a b")
    case True
    then obtain sni' a' b where ph: "ob_phase ob = Answered sni' a' b" by blast
    moreover obtain st flt fx where "k b = (st, flt, fx)" by (cases "k b") auto
    ultimately show thesis using c q answers [of ob sni a k cfg r sni' a' b] by (auto split: phase.splits)
  next
    case False
    then show thesis using c q moves by (cases "ob_phase ob") auto
  qed
qed

text \<open>A step in one case rule; each proof about steps is one case distinction by it.\<close>

lemma step_Some [consumes 1, case_names load create over asks moves answers]:
  assumes "step sha rj tj d x p = Some (q, os)"
  obtains (load) udp name bs new where "x = Load udp name bs" "pr_listeners q = pr_listeners p @ new" "pr_slots q = pr_slots p"
      "os = []" "pr_cell q = fold publish (tables_of tj x) (pr_cell p)"
      "\<And>l cfg. l \<in> set new \<Longrightarrow> config_of l = Some cfg \<Longrightarrow> loaded rj cfg"
  | (create) l where "x = Create l" "l < length (pr_listeners p)" "os = []"
      "q = p\<lparr>pr_slots := pr_slots p @ [\<lparr>ob_listener = l, ob_filter = new_filter (pr_listeners p ! l), ob_accepted = False,
        ob_call = None, ob_phase = Idle\<rparr>]\<rparr>"
  | (over) i cb st flt fx where "i < length (pr_slots p)" "ob_call (pr_slots p ! i) = None" "in_order (pr_slots p ! i) cb"
      "callback_begin sha (snd (pr_cell p)) (ob_filter (pr_slots p ! i)) cb = Some (Done (st, flt, fx))"
      "q = set_slot i ((pr_slots p ! i)\<lparr>ob_accepted := True, ob_filter := flt\<rparr>) p" "os = [(i, st, fx)]" "x = Invoke i cb"
  | (asks) i cb sni a k where "i < length (pr_slots p)" "ob_call (pr_slots p ! i) = None" "in_order (pr_slots p ! i) cb"
      "callback_begin sha (snd (pr_cell p)) (ob_filter (pr_slots p ! i)) cb = Some (Asks sni a k)"
      "q = set_slot i ((pr_slots p ! i)\<lparr>ob_accepted := True, ob_call := Some (sni, a, k)\<rparr>) p" "os = []" "x = Invoke i cb"
  | (moves) i ob sni a k cfg r where "i < length (pr_slots p)" "ob = pr_slots p ! i" "ob_call ob = Some (sni, a, k)"
      "config_at (ob_listener ob) p = Some cfg"
      "exec sha (next_section i sni a (ob_phase ob)) (pool_of (ob_listener ob) cfg p) = Some r"
      "\<And>sni a b. ob_phase ob \<noteq> Answered sni a b"
      "q = set_slot i (ob\<lparr>ob_phase := phase_of r i\<rparr>) (set_config (ob_listener ob) (shared r) p)" "os = []" "x = Advance i"
  | (answers) i ob sni a k cfg r b sni' a' st flt fx where "i < length (pr_slots p)" "ob = pr_slots p ! i" "ob_call ob = Some (sni, a, k)"
      "config_at (ob_listener ob) p = Some cfg"
      "exec sha (next_section i sni a (ob_phase ob)) (pool_of (ob_listener ob) cfg p) = Some r"
      "ob_phase ob = Answered sni' a' b" "k b = (st, flt, fx)"
      "q = set_slot i (ob\<lparr>ob_phase := phase_of r i, ob_filter := flt, ob_call := None\<rparr>) (set_config (ob_listener ob) (shared r) p)"
      "os = [(i, st, fx)]" "x = Advance i"
proof (cases x)
  case (Load udp name bs)
  then have q: "q = load_listener rj tj d udp name bs p" "os = []" using assms by simp_all
  show thesis
    by (rule load_listener_effect [of rj tj d udp name bs p]) (rule load [of udp name bs], simp_all add: Load q)
next
  case (Create l)
  then show thesis using assms create by (auto simp: create_def idx_def split: if_splits)
next
  case (Invoke i cb)
  then have "invoke sha i cb p = Some (q, os)" using assms by simp
  then show thesis
  proof (cases rule: invoke_Some)
    case (over st flt fx)
    from that(3) [OF this Invoke] show thesis .
  next
    case (asks sni a k)
    from that(4) [OF this Invoke] show thesis .
  qed
next
  case (Advance i)
  then have "advance sha i p = Some (q, os)" using assms by simp
  then show thesis
  proof (cases rule: advance_Some)
    case (moves ob sni a k cfg r)
    from that(5) [OF this Advance] show thesis .
  next
    case (answers ob sni a k cfg r b sni' a' st flt fx)
    from that(6) [OF this Advance] show thesis .
  qed
qed

subsection \<open>Every step of the process is a step of every pool\<close>

definition pool_moves :: "(bytes \<Rightarrow> bytes) \<Rightarrow> table list \<Rightarrow> pool \<Rightarrow> pool \<Rightarrow> bool" where
  "pool_moves sha ts u v \<longleftrightarrow> v = u\<lparr>published := fold publish ts (published u)\<rparr> \<or>
     ts = [] \<and> (\<exists>x. (\<forall>t. x \<noteq> Publish t) \<and> exec sha x u = Some v)"

lemma step_cell:
  assumes "step sha rj tj d x p = Some (q, os)"
  shows "pr_cell q = fold publish (tables_of tj x) (pr_cell p)"
  using assms by (cases rule: step_Some) simp_all

lemma phases_kept:
  "ob_listener ob = ob_listener (obs ! i) \<Longrightarrow> ob_phase ob = ob_phase (obs ! i) \<Longrightarrow> phase_at l (obs[i := ob]) = phase_at l obs"
  by (cases "i < length obs") (auto simp: phase_at_def nth_list_update list_update_beyond)

lemma phases_extended: "ob_phase ob = Idle \<Longrightarrow> phase_at l (obs @ [ob]) = phase_at l obs"
  by (rule ext) (auto simp: phase_at_def nth_append less_Suc_eq)

text \<open>The section of one call is a section of its config's pool and leaves the other pools alone.\<close>

lemma section_pools:
  assumes "i < length (pr_slots p)" and "ob_listener (pr_slots p ! i) = l"
    and "exec sha (next_section i sni a ph) (pool_of l cfg p) = Some r"
    and "ob_listener ob = l" and "ob_phase ob = phase_of r i" and "config_at l p = Some cfg"
    and "config_at l' p = Some cfg'"
  shows "\<exists>c. config_at l' (set_slot i ob (set_config l (shared r) p)) = Some c \<and>
    pool_moves sha [] (pool_of l' cfg' p) (pool_of l' c (set_slot i ob (set_config l (shared r) p)))"
proof -
  let ?q = "set_slot i ob (set_config l (shared r) p)"
  note kept = exec_local [OF assms(3)]
  have phases: "phase_at m ((pr_slots p)[i := ob]) = (if m = l then phase_of r else phase_at m (pr_slots p))" for m
    using assms(1,2,4,5) kept by (intro ext) (auto simp: phase_at_update)
  show ?thesis
  proof (cases "l' = l")
    case True
    then have "pool_of l' (shared r) ?q = r" using kept by (intro pool_eqI) (simp_all add: phases)
    moreover have "cfg' = cfg" using True assms(6,7) by simp
    moreover have "pool_moves sha [] (pool_of l cfg p) r"
      using assms(3) next_section_not_publish unfolding pool_moves_def by blast
    ultimately show ?thesis using True assms(6) by (simp add: config_at_set_config)
  next
    case False
    then have "pool_of l' cfg' ?q = pool_of l' cfg' p" by (intro pool_eqI) (simp_all add: phases)
    then show ?thesis using False assms(7) by (auto simp: pool_moves_def config_at_set_config)
  qed
qed

lemma pool_step:
  assumes "step sha rj tj d x p = Some (q, os)" and "config_at l p = Some cfg"
  shows "\<exists>cfg'. config_at l q = Some cfg' \<and> pool_moves sha (tables_of tj x) (pool_of l cfg p) (pool_of l cfg' q)"
  using assms(1)
proof (cases rule: step_Some)
  case (load udp name bs new)
  then have "config_at l q = Some cfg" using assms(2) by (auto simp: config_at_Some nth_append)
  moreover have "pool_of l cfg q = (pool_of l cfg p)\<lparr>published := fold publish (tables_of tj x) (published (pool_of l cfg p))\<rparr>"
    using load by (intro pool_eqI) simp_all
  ultimately show ?thesis by (auto simp: pool_moves_def)
next
  case (create m)
  then have "pool_of l cfg q = pool_of l cfg p" and "config_at l q = config_at l p"
    by (simp_all add: pool_of_def config_at_def phases_extended)
  then show ?thesis using assms(2) create by (simp add: pool_moves_def)
next
  case (over i cb st flt fx)
  then show ?thesis using assms(2) by (auto simp: pool_of_def phases_kept pool_moves_def)
next
  case (asks i cb sni a k)
  then show ?thesis using assms(2) by (auto simp: pool_of_def phases_kept pool_moves_def)
next
  case (moves i ob sni a k cfg' r)
  then show ?thesis
    using section_pools [OF moves(1) _ moves(5) _ _ moves(4) assms(2), where ob = "ob\<lparr>ob_phase := phase_of r i\<rparr>"]
    by simp
next
  case (answers i ob sni a k cfg' r b sni' a' st flt fx)
  then show ?thesis
    using section_pools [OF answers(1) _ answers(5) _ _ answers(4) assms(2),
        where ob = "ob\<lparr>ob_phase := phase_of r i, ob_filter := flt, ob_call := None\<rparr>"] by simp
qed

lemma reached_moves:
  "reached sha cfg0 hist u \<Longrightarrow> pool_moves sha ts u v \<Longrightarrow> reached sha cfg0 (hist @ ts) v"
  by (auto simp: pool_moves_def intro: reached_publish_all reached.step)

subsection \<open>The invariant is kept\<close>

lemma process_ok_fresh: "process_ok sha rj tj [] (fresh_process s)"
  by (simp add: process_ok_def cell_ok_def cell_of_Nil config_at_Some)

lemma tables_of_ok: "list_all table_ok (tables_of tj x)"
  by (auto simp: tables_of_def parse_table_ok split: event.split sum.split)

lemma asks_advance:
  "exec sha (next_section i sni a ph) p = Some r \<Longrightarrow> phase_of p i = ph \<Longrightarrow> asks sni a ph \<Longrightarrow>
    asks sni a (phase_of r i) \<and> (\<forall>sni a b. ph = Answered sni a b \<longrightarrow> phase_of r i = Idle \<and> shared r = shared p)"
  by (cases ph) auto

lemma slot_phase: "i < length (pr_slots p) \<Longrightarrow> phase_at (ob_listener (pr_slots p ! i)) (pr_slots p) i = ob_phase (pr_slots p ! i)"
  by (simp add: phase_at_def)

lemma slots_ok: "process_ok sha rj tj xs p \<Longrightarrow> i < length (pr_slots p) \<Longrightarrow> slot_ok sha tj xs (pr_listeners p) i (pr_slots p ! i)"
  by (simp add: process_ok_def)

lemma process_cell: "process_ok sha rj tj xs p \<Longrightarrow> pr_cell p = cell_of (history tj xs)"
  by (simp add: process_ok_def cell_ok_def)

text \<open>What the four kinds of slot update need.\<close>

lemma slot_ok_over:
  assumes "slot_ok sha tj xs ls i ob" and "ob_call ob = None"
    and "callback_begin sha tab (ob_filter ob) cb = Some (Done (st, flt, fx))"
  shows "slot_ok sha tj xs ls i (ob\<lparr>ob_accepted := True, ob_filter := flt\<rparr>)"
  using assms callback_fits [OF _ assms(3), of "ls ! ob_listener ob" "(st, flt, fx)"] by (simp add: slot_ok_def)

lemma slot_ok_asks:
  assumes "slot_ok sha tj xs ls i ob" and "ob_call ob = None"
    and "callback_begin sha (snd (cell_of (history tj xs))) (ob_filter ob) cb = Some (Asks sni a k)"
  shows "slot_ok sha tj (xs @ [Invoke i cb]) ls i (ob\<lparr>ob_accepted := True, ob_call := Some (sni, a, k)\<rparr>)"
proof -
  have "asked sha tj (xs @ [Invoke i cb]) i (ob_filter ob) sni a k" using assms(3) unfolding asked_def by blast
  then show ?thesis using assms by (simp add: slot_ok_def)
qed

lemma slot_ok_moves:
  assumes "slot_ok sha tj xs ls i ob" and "ob_call ob = Some (sni, a, k)"
    and "exec sha (next_section i sni a (ob_phase ob)) pool = Some r" and "phase_of pool i = ob_phase ob"
  shows "slot_ok sha tj xs ls i (ob\<lparr>ob_phase := phase_of r i\<rparr>)"
  using assms asks_advance [OF assms(3,4)] by (simp add: slot_ok_def)

lemma slot_ok_answers:
  assumes "slot_ok sha tj xs ls i ob" and "ob_call ob = Some (sni, a, k)"
    and "exec sha (next_section i sni a (ob_phase ob)) pool = Some r" and "phase_of pool i = ob_phase ob"
    and "ob_phase ob = Answered sni' a' b" and "k b = (st, flt, fx)"
  shows "slot_ok sha tj xs ls i (ob\<lparr>ob_phase := phase_of r i, ob_filter := flt, ob_call := None\<rparr>)"
proof -
  obtain ys cb where cb: "callback_begin sha (snd (cell_of (history tj ys))) (ob_filter ob) cb = Some (Asks sni a k)"
    using assms(1,2) by (auto simp: slot_ok_def asked_def)
  have "k b \<in> range k" by simp
  then have "fits (ls ! ob_listener ob) flt"
    using callback_fits [OF _ cb, of "ls ! ob_listener ob" "k b"] assms(1,6) by (simp add: slot_ok_def)
  moreover have "phase_of r i = Idle" using asks_advance [OF assms(3,4)] assms(1,2,5) by (simp add: slot_ok_def)
  ultimately show ?thesis using assms(1) by (simp add: slot_ok_def)
qed

lemma slots_update:
  assumes "process_ok sha rj tj xs p" and "slot_ok sha tj (xs @ ys) (pr_listeners p) i ob" and "j < length (pr_slots p)"
  shows "slot_ok sha tj (xs @ ys) (pr_listeners p) j ((pr_slots p)[i := ob] ! j)"
  using assms slot_ok_more [OF slots_ok [OF assms(1,3)], of ys "[]"] by (cases "i = j") auto

lemma step_slots:
  assumes "process_ok sha rj tj xs p" and "step sha rj tj d x p = Some (q, os)" and "j < length (pr_slots q)"
  shows "slot_ok sha tj (xs @ [x]) (pr_listeners q) j (pr_slots q ! j)"
  using assms(2)
proof (cases rule: step_Some)
  case (load udp name bs new)
  then show ?thesis using slot_ok_more [OF slots_ok [OF assms(1)], of j "[x]" new] assms(3) by simp
next
  case (create l)
  then show ?thesis
    using slot_ok_more [OF slots_ok [OF assms(1)], of j "[x]" "[]"] assms(3) fits_new
    by (auto simp: nth_append slot_ok_def less_Suc_eq)
next
  case (over i cb st flt fx)
  note ok = slot_ok_more [OF slot_ok_over [OF slots_ok [OF assms(1) over(1)] over(2,4)], of "[x]" "[]"]
  show ?thesis using slots_update [OF assms(1) ok [simplified]] assms(3) by (simp add: over(5))
next
  case (asks i cb sni a k)
  note ok = slot_ok_asks [OF slots_ok [OF assms(1) asks(1)] asks(2) asks(4) [unfolded process_cell [OF assms(1)]]]
  show ?thesis using slots_update [OF assms(1) ok] assms(3) by (simp add: asks(5,7))
next
  case (moves i ob sni a k cfg r)
  have "slot_ok sha tj xs (pr_listeners p) i ob" using slots_ok [OF assms(1) moves(1)] moves(2) by simp
  from slot_ok_more [OF slot_ok_moves [OF this moves(3,5)], of "[x]" "[]"]
  have ok: "slot_ok sha tj (xs @ [x]) (pr_listeners p) i (ob\<lparr>ob_phase := phase_of r i\<rparr>)"
    using moves(1,2) by (simp add: slot_phase)
  show ?thesis
    using slot_ok_config [OF slots_update [OF assms(1) ok], of j "[]"] assms(3) by (simp add: moves(7))
next
  case (answers i ob sni a k cfg r b sni' a' st flt fx)
  have "slot_ok sha tj xs (pr_listeners p) i ob" using slots_ok [OF assms(1) answers(1)] answers(2) by simp
  from slot_ok_more [OF slot_ok_answers [OF this answers(3,5) _ answers(6,7)], of "[x]" "[]"]
  have ok: "slot_ok sha tj (xs @ [x]) (pr_listeners p) i (ob\<lparr>ob_phase := phase_of r i, ob_filter := flt, ob_call := None\<rparr>)"
    using answers(1,2) by (simp add: slot_phase)
  show ?thesis
    using slot_ok_config [OF slots_update [OF assms(1) ok], of j "[]"] assms(3) by (simp add: answers(8))
qed

text \<open>A config loaded late starts as one no caller has touched.\<close>

lemma late_pool:
  assumes "process_ok sha rj tj xs p" and "pr_slots q = pr_slots p" and "\<not> l < length (pr_listeners p)"
    and "pr_cell q = cell_of hist"
  shows "pool_of l cfg q = (fresh_pool cfg)\<lparr>published := cell_of hist\<rparr>"
proof -
  have "ob_listener (pr_slots p ! i) < length (pr_listeners p)" if "i < length (pr_slots p)" for i
    using slots_ok [OF assms(1) that] by (simp add: slot_ok_def)
  then have "phase_at l (pr_slots p) i = Idle" for i using assms(3) by (auto simp: phase_at_def)
  then show ?thesis using assms(2,4) by (intro pool_eqI) (auto simp: fresh_pool_def)
qed

lemma step_pools:
  assumes "process_ok sha rj tj xs p" and "step sha rj tj d x p = Some (q, os)" and "config_at l q = Some cfg"
  shows "\<exists>cfg0. loaded rj cfg0 \<and> reached sha cfg0 (history tj (xs @ [x])) (pool_of l cfg q)"
proof (cases "config_at l p")
  case (Some c)
  then obtain cfg0 where "loaded rj cfg0" "reached sha cfg0 (history tj xs) (pool_of l c p)"
    using assms(1) unfolding process_ok_def by blast
  then show ?thesis using pool_step [OF assms(2) Some] assms(3) reached_moves by auto
next
  case None
  from assms(2) show ?thesis
  proof (cases rule: step_Some)
    case (load udp name bs new)
    have late: "\<not> l < length (pr_listeners p)"
      using None assms(3) load(2) by (auto simp: config_at_Some nth_append config_at_def idx_def)
    have "pr_cell q = cell_of (history tj (xs @ [x]))"
      using load(5) process_cell [OF assms(1)] by (simp add: publish_all)
    from late_pool [OF assms(1) load(3) late this, of cfg] have "reached sha cfg (history tj (xs @ [x])) (pool_of l cfg q)"
      using reached_fresh by metis
    moreover have "loaded rj cfg"
      using late assms(3) load(6) [of "pr_listeners q ! l" cfg] load(2) by (auto simp: config_at_Some nth_append)
    ultimately show ?thesis by blast
  next
    case (create m)
    then have "config_at l q = config_at l p" by (simp add: config_at_def)
    then show ?thesis using None assms(3) by simp
  qed (use None assms(3) in \<open>auto simp: config_at_set_config split: if_splits\<close>)
qed

lemma process_ok_step:
  assumes "process_ok sha rj tj xs p" and "step sha rj tj d x p = Some (q, os)"
  shows "process_ok sha rj tj (xs @ [x]) q"
proof -
  have "cell_ok (history tj (xs @ [x])) (pr_cell q)"
    using step_cell [OF assms(2)] assms(1) tables_of_ok by (simp add: process_ok_def cell_ok_def publish_all)
  then show ?thesis
    using step_pools [OF assms] step_slots [OF assms] by (simp add: process_ok_def)
qed

lemma process_ok_run:
  assumes "run sha rj tj d xs (fresh_process s) = Some (p, os)"
  shows "process_ok sha rj tj xs p"
  using assms
  by (induction rule: run_invariant) (auto intro: process_ok_fresh process_ok_step)

end
