(* ===== verification/Guarantees.thy ===== *)
theory Guarantees
  imports Process
begin

text \<open>
  What the process guarantees, whatever is loaded, called back and interleaved: what a reply rests
  on, when something passes, that verdicts do not change, that between publications the caches do
  not matter, that every callback is answered, and what the TLS chain's verdict goes back to.
\<close>

section \<open>What a reply rests on\<close>

text \<open>
  A reply comes from one callback of its filter, begun under the table published last at that
  time; one that asked was answered by the rules against the \<open>n\<close>-th published table, or denied
  before the first.
\<close>

definition answer_at :: "(bytes \<Rightarrow> bytes) \<Rightarrow> table list \<Rightarrow> nat \<Rightarrow> config \<Rightarrow> bytes \<Rightarrow> u128 \<Rightarrow> bool" where
  "answer_at sha hist n cfg sni a \<longleftrightarrow> 0 < n \<and> rules_cover sha (hist ! (n - 1)) cfg sni a"

definition rests_on :: "(bytes \<Rightarrow> bytes) \<Rightarrow> table list \<Rightarrow> nat \<Rightarrow> config option \<Rightarrow> outcome call \<Rightarrow> outcome \<Rightarrow> bool" where
  "rests_on sha hist n rules c r \<longleftrightarrow>
     (case c of
        Done r' \<Rightarrow> r = r'
      | Asks sni a k \<Rightarrow> (\<exists>cfg. rules = Some cfg \<and> r = k (answer_at sha hist n cfg sni a)))"

lemma answered_verdict:
  assumes "process_ok sha rj tj xs p" and "length (history tj xs) < 2 ^ 64 - 1" and "sha256_ok sha"
    and "i < length (pr_slots p)" and "config_at (ob_listener (pr_slots p ! i)) p = Some cfg"
    and "ob_phase (pr_slots p ! i) = Answered sni a b"
  shows "\<exists>n \<le> length (history tj xs). b \<longleftrightarrow> answer_at sha (history tj xs) n cfg sni a"
proof -
  let ?pool = "pool_of (ob_listener (pr_slots p ! i)) cfg p"
  obtain cfg0 where "loaded rj cfg0" and reached: "reached sha cfg0 (history tj xs) ?pool"
    using assms(1,5) unfolding process_ok_def by blast
  then have ok: "pool_ok sha cfg0 (history tj xs) ?pool" using reached_ok [OF reached] loaded_cache by blast
  moreover have "phase_of ?pool i = Answered sni a b" using assms(4,6) by (simp add: slot_phase)
  ultimately obtain n where "n \<le> length (history tj xs)" "b \<longleftrightarrow> verdict_at sha cfg0 (history tj xs) n sni a"
    by (metis phase_ok.simps(3) pool_ok_def)
  moreover have "published_ok (history tj xs)"
    using assms(1,2) by (simp add: published_ok_def process_ok_def cell_ok_def)
  moreover have "rules_cover sha t cfg = rules_cover sha t cfg0" for t
    using ok rules_cover_same by (auto simp: pool_ok_def)
  ultimately show ?thesis using verdict_at_table [OF _ assms(3)] by (auto simp: answer_at_def)
qed

lemma reply_origin:
  assumes "process_ok sha rj tj xs p" and "step sha rj tj d x p = Some (q, os)" and "(i, st, fx) \<in> set os"
    and "length (history tj xs) < 2 ^ 64 - 1" and "sha256_ok sha"
  obtains ys cb zs c n where "xs @ [x] = ys @ Invoke i cb # zs" and "i < length (pr_slots p)"
    and "callback_begin sha (snd (cell_of (history tj ys))) (ob_filter (pr_slots p ! i)) cb = Some c"
    and "n \<le> length (history tj xs)"
    and "rests_on sha (history tj xs) n (config_at (ob_listener (pr_slots p ! i)) p) c (st, ob_filter (pr_slots q ! i), fx)"
  using assms(2)
proof (cases rule: step_Some)
  case (over j cb st' flt fx')
  then show thesis
    using that [of xs cb "[]" "Done (st', flt, fx')" 0] assms(3) process_cell [OF assms(1)] by (auto simp: rests_on_def)
next
  case (answers j ob sni a k cfg r b sni' a' st' flt fx')
  then have i: "i = j" "st = st'" "fx = fx'" using assms(3) by auto
  have ok: "slot_ok sha tj xs (pr_listeners p) i ob" using slots_ok [OF assms(1) answers(1)] answers(2) i by simp
  then obtain ys cb zs where xs: "xs = ys @ Invoke i cb # zs"
    and cb: "callback_begin sha (snd (cell_of (history tj ys))) (ob_filter ob) cb = Some (Asks sni a k)"
    using answers(3) by (auto simp: slot_ok_def asked_def)
  have "sni' = sni" "a' = a" using ok answers(3,6) by (simp_all add: slot_ok_def)
  then obtain n where "n \<le> length (history tj xs)" "b \<longleftrightarrow> answer_at sha (history tj xs) n cfg sni a"
    using answered_verdict [OF assms(1,4,5), of i cfg sni a b] answers i by auto
  then show thesis
    using that [of ys cb "zs @ [x]" "Asks sni a k" n] answers i xs cb by (simp add: rests_on_def)
qed (use assms(3) in simp_all)

section \<open>What passes\<close>

text \<open>What a filter that has given no verdict needs to let a connection or datagram pass.\<close>

fun unsettled :: "filter_object \<Rightarrow> bool" where
  "unsettled (Ppv2_Filter f) \<longleftrightarrow> waiting f"
| "unsettled _ \<longleftrightarrow> True"

definition covered :: "(bytes \<Rightarrow> bytes) \<Rightarrow> table list \<Rightarrow> config option \<Rightarrow> bytes \<Rightarrow> u128 \<Rightarrow> bool" where
  "covered sha hist rules sni a \<longleftrightarrow> (\<exists>cfg. rules = Some cfg \<and> (\<exists>t \<in> set hist. rules_cover sha t cfg sni a))"

fun justified :: "(bytes \<Rightarrow> bytes) \<Rightarrow> table option \<Rightarrow> table list \<Rightarrow> config option \<Rightarrow> filter_object \<Rightarrow> callback \<Rightarrow> effect list \<Rightarrow> bool" where
  "justified sha tab hist rules (Ppv2_Filter f) (On_Data e) fx \<longleftrightarrow>
     (\<exists>t h. tab = Some t \<and> parse (chunk e) = Some (Inr h) \<and> remote_set sha e t h \<and>
        fx = label_effects sha t h @ bump (ctr_allowed (pf_counters f)) \<and>
        (\<not> pf_enforce f \<or> covered sha hist rules [] (identity_of sha t h)))"
| "justified sha tab hist rules (Auth_Filter f) (On_Accept e) fx \<longleftrightarrow>
     (\<exists>a. labelled_identity e = Some a \<and> fx = bump (ctr_allowed (af_counters f)) \<and> covered sha hist rules (sni_of e) a)"
| "justified sha tab hist rules (Udp_Filter f) (On_Datagram u) fx \<longleftrightarrow>
     (\<exists>t h. tab = Some t \<and> parse (payload_of u) = Some (Inr h) \<and>
        fx = bump (ctr_allowed (uf_counters f)) @ [Set_Datagram (drop (hdr_len h) (payload_of u))] \<and>
        set_datagram_data u (drop (hdr_len h) (payload_of u)) \<and> covered sha hist rules [] (identity_of sha t h))"
| "justified sha tab hist rules Table_Filter cb fx \<longleftrightarrow> fx = []"
| "justified sha tab hist rules Udp_Table_Filter cb fx \<longleftrightarrow> fx = []"
| "justified sha tab hist rules _ _ fx \<longleftrightarrow> False"

fun_cases justified_cases: "justified sha tab hist rules flt cb fx"

lemma answer_covered: "n \<le> length hist \<Longrightarrow> answer_at sha hist n cfg sni a \<Longrightarrow> covered sha hist (Some cfg) sni a"
  by (auto simp: answer_at_def covered_def intro!: bexI [of _ "hist ! (n - 1)"])

lemma label_begin_effects:
  assumes "table_ok t" and "sha256_ok sha" and "parse (chunk e) = Some (Inr h)"
  shows "label_begin e f (identity_of sha t h) (format (synthesize sha (tbl_scheme t) h)) (ucast (hdr_port h)) (hdr_len h) (attested_of h) =
    (if \<not> remote_set sha e t h then Done (refuse f ''set_remote_address_failed'' (take 1 (label_effects sha t h)))
     else if pf_enforce f then Asks [] (identity_of sha t h) (after_verdict f (label_effects sha t h))
     else Done (after_verdict f (label_effects sha t h) True))"
proof -
  have "length (synthesize sha (tbl_scheme t) h) = 16"
    using assms(1) parsed_header_ok [OF assms(3)] by (intro synthesize_length assms(2)) (simp_all add: table_ok_def)
  then have "as_str (format (synthesize sha (tbl_scheme t) h)) = show_ipv6 (synthesize sha (tbl_scheme t) h)"
    by (rule as_str_format)
  then show ?thesis by (simp add: label_begin_def Let_def remote_set_def label_effects_def attested_src_of META_NS_def)
qed

lemma rests_on_map:
  "rests_on sha hist n rules (map_call (as_filter C) c) (st, flt, fx) \<longleftrightarrow>
    (\<exists>f. flt = C f \<and> (case c of Done r \<Rightarrow> r = (st, f, fx)
      | Asks sni a k \<Rightarrow> (\<exists>cfg. rules = Some cfg \<and> k (answer_at sha hist n cfg sni a) = (st, f, fx))))"
  by (cases c) (auto simp: rests_on_def as_filter_def split_beta prod_eq_iff)

lemma passes_justified:
  assumes "callback_begin sha tab flt cb = Some c" and "rests_on sha hist n rules c (Continue, flt', fx)"
    and "n \<le> length hist" and "unsettled flt" and "\<And>t. tab = Some t \<Longrightarrow> table_ok t" and "sha256_ok sha"
  shows "justified sha tab hist rules flt cb fx"
  using assms(1)
proof (cases "(sha, tab, flt, cb)" rule: callback_begin.cases)
  case (1 sha' tab' f e)
  then show ?thesis using assms by (auto simp: rests_on_def ppv2_on_accept_def)
next
  case (2 sha' tab' f e)
  then obtain c0 f' where c0: "ppv2_begin sha tab e f = Some c0" "c = map_call (as_filter Ppv2_Filter) c0"
    using assms(1) by auto
  have w: "waiting f" using assms(4) 2 by simp
  note rests = assms(2) [unfolded c0(2) rests_on_map]
  from w c0(1) show ?thesis
  proof (cases rule: ppv2_begin_cases)
    case (label t h)
    then show ?thesis
      using rests assms(3) 2 label_begin_effects [OF assms(5) [OF label(1)] assms(6) label(2), of f]
      by (auto simp: label after_verdict_def refuse_def split: if_splits dest: answer_covered)
  qed (use rests in \<open>auto simp: refuse_def\<close>)
next
  case (3 sha' tab' f e)
  then have c: "c = map_call (as_filter Auth_Filter) (auth_begin e f)" using assms(1) by auto
  note rests = assms(2) [unfolded c rests_on_map]
  show ?thesis using rests assms(3) 3
    by (auto simp: auth_steps split: call_splits dest: answer_covered)
next
  case (4 sha' tab' f e)
  then show ?thesis using assms by (auto simp: rests_on_def as_filter_def auth_on_data_def auth_refuse_def split: if_splits)
next
  case (7 sha' tab' f u)
  then obtain c0 where c0: "udp_begin sha tab u f = Some c0" "c = map_call (as_filter Udp_Filter) c0"
    using assms(1) by auto
  note rests = assms(2) [unfolded c0(2) rests_on_map]
  show ?thesis using rests c0(1) assms(3) 7
    by (auto simp: udp_steps datagram_concat payload_of_def [symmetric] identity_of_def split: call_splits dest: answer_covered)
next
  case (9 sha' tab' u)
  then show ?thesis using assms by (auto simp: rests_on_def udp_deny_all_on_data_def)
qed (use assms(1,2) in \<open>auto simp: rests_on_def as_filter_def table_on_data_def\<close>)

lemma begun_table:
  assumes "process_ok sha rj tj xs p" and "xs @ [x] = ys @ Invoke i cb # zs" and "snd (cell_of (history tj ys)) = Some t"
  shows "t \<in> set (history tj xs) \<and> table_ok t"
proof -
  have "xs = ys @ butlast (Invoke i cb # zs)"
    using assms(2) by (metis butlast_append butlast_snoc list.distinct(1))
  then have "set (history tj ys) \<subseteq> set (history tj xs)" by (metis history_simps(2) set_append sup_ge1)
  moreover have "t \<in> set (history tj ys)" using assms(3) by (auto simp: cell_of_def split: if_splits)
  ultimately show ?thesis using assms(1) by (auto simp: process_ok_def cell_ok_def list_all_iff)
qed

lemma reply_justified:
  assumes "run sha rj tj d xs (fresh_process s) = Some (p, os)" and "step sha rj tj d x p = Some (q, os')"
    and "(i, Continue, fx) \<in> set os'" and "length (history tj xs) < 2 ^ 64 - 1" and "sha256_ok sha"
    and "unsettled (ob_filter (pr_slots p ! i))"
  shows "\<exists>ys cb zs. xs @ [x] = ys @ Invoke i cb # zs \<and>
    justified sha (snd (cell_of (history tj ys))) (history tj xs) (config_at (ob_listener (pr_slots p ! i)) p)
      (ob_filter (pr_slots p ! i)) cb fx"
proof -
  have ok: "process_ok sha rj tj xs p" using process_ok_run [OF assms(1)] .
  obtain ys cb zs c n where c: "xs @ [x] = ys @ Invoke i cb # zs" "i < length (pr_slots p)"
    "callback_begin sha (snd (cell_of (history tj ys))) (ob_filter (pr_slots p ! i)) cb = Some c"
    "n \<le> length (history tj xs)"
    "rests_on sha (history tj xs) n (config_at (ob_listener (pr_slots p ! i)) p) c (Continue, ob_filter (pr_slots q ! i), fx)"
    by (rule reply_origin [OF ok assms(2-5)])
  have "table_ok t" if "snd (cell_of (history tj ys)) = Some t" for t
    using begun_table [OF ok c(1) that] by simp
  from passes_justified [OF c(3,5,4) assms(6) this assms(5)] show ?thesis using c(1) by blast
qed

section \<open>One verdict\<close>

definition passes :: "nat \<Rightarrow> reply list \<Rightarrow> bool" where
  "passes i os \<longleftrightarrow> (\<exists>fx. (i, Continue, fx) \<in> set os)"

definition cuts :: "nat \<Rightarrow> reply list \<Rightarrow> bool" where
  "cuts i os \<longleftrightarrow> (\<exists>st fx. (i, st, fx) \<in> set os \<and> closes fx)"

lemma verdict_simps [simp]:
  "\<not> passes i []" "\<not> cuts i []" "passes i (os @ os') \<longleftrightarrow> passes i os \<or> passes i os'" "cuts i (os @ os') \<longleftrightarrow> cuts i os \<or> cuts i os'"
  "passes i [(j, st, fx)] \<longleftrightarrow> j = i \<and> st = Continue" "cuts i [(j, st, fx)] \<longleftrightarrow> j = i \<and> closes fx"
  by (auto simp: passes_def cuts_def)

text \<open>The state of a slot fits the verdicts it gave.\<close>

definition consistent :: "filter_slot \<Rightarrow> bool \<Rightarrow> bool \<Rightarrow> bool" where
  "consistent ob passed severed \<longleftrightarrow> (ob_call ob \<noteq> None \<longrightarrow> ob_accepted ob) \<and>
     (case ob_filter ob of
        Ppv2_Filter f \<Rightarrow> (passed \<longrightarrow> ppv2_settled f = Some Continue) \<and> (severed \<longrightarrow> ppv2_settled f = Some Stop_Iteration)
      | Auth_Filter f \<Rightarrow>
          if ob_accepted ob \<and> ob_call ob = None then af_settled f \<and> \<not> (passed \<and> severed) else \<not> passed \<and> \<not> severed
      | _ \<Rightarrow> \<not> severed)"

lemma consistent_one: "consistent ob passed severed \<Longrightarrow> \<not> (passed \<and> severed)"
  by (auto simp: consistent_def split: filter_object.splits if_splits)

lemma ppv2_begin_settled:
  "ppv2_settled f = Some v \<Longrightarrow> ppv2_begin sha tab e f = Some c \<Longrightarrow> c = Done (v, f, [])"
  by (auto simp: ppv2_settled_def ppv2_begin_def split: if_splits)

lemma ppv2_begin_verdict:
  assumes "waiting f" and "ppv2_begin sha tab e f = Some c" and "(st, f', fx) \<in> set_call c"
  shows "(st = Continue \<longrightarrow> ppv2_settled f' = Some Continue \<and> \<not> closes fx) \<and>
    (closes fx \<longrightarrow> ppv2_settled f' = Some Stop_Iteration \<and> st = Stop_Iteration)"
  using assms(1,2)
proof (cases rule: ppv2_begin_cases)
  case (label t h)
  then show ?thesis
    using assms(1,3)
    by (auto simp: label_begin_def after_verdict_def refuse_def ppv2_settled_def waiting_def Let_def split: if_splits)
qed (use assms(1,3) in \<open>auto simp: refuse_def ppv2_settled_def waiting_def\<close>)

lemma status_distinct: "st \<noteq> Continue \<longleftrightarrow> st = Stop_Iteration"
  by (cases st) auto

lemma consistent_ppv2:
  assumes "consistent ob passed severed" and "ob_filter ob = Ppv2_Filter f"
    and "ppv2_begin sha tab e f = Some c" and "(st, f', fx) \<in> set_call c"
    and "ob_filter ob' = Ppv2_Filter f'" and "ob_call ob' = None"
  shows "consistent ob' (passed \<or> st = Continue) (severed \<or> closes fx)"
proof (cases "waiting f")
  case True
  then have "\<not> passed" "\<not> severed" using assms(1,2) by (auto simp: consistent_def ppv2_settled_def waiting_def)
  then show ?thesis using ppv2_begin_verdict [OF True assms(3,4)] assms(5,6) by (auto simp: consistent_def)
next
  case False
  then obtain v where v: "ppv2_settled f = Some v" using settled_waiting by (metis option.exhaust)
  then have "st = v" "f' = f" "fx = []" using ppv2_begin_settled [OF v assms(3)] assms(4) by auto
  then show ?thesis using assms v by (auto simp: consistent_def)
qed

lemma consistent_reply:
  assumes "consistent ob passed severed" and "callback_begin sha tab (ob_filter ob) cb = Some c" and "(st, flt, fx) \<in> set_call c"
    and "(ob_call ob = None \<and> in_order ob cb) \<or> (ob_call ob \<noteq> None \<and> c \<noteq> Done (st, flt, fx))"
    and "ob_filter ob' = flt" and "ob_accepted ob'" and "ob_call ob' = None"
  shows "consistent ob' (passed \<or> st = Continue) (severed \<or> closes fx)"
proof (cases "(sha, tab, ob_filter ob, cb)" rule: callback_begin.cases)
  case (1 sha' tab' f e)
  then show ?thesis using assms by (auto simp: consistent_def ppv2_on_accept_def)
next
  case (2 sha' tab' f e)
  then obtain c0 f' where "ppv2_begin sha tab e f = Some c0" "flt = Ppv2_Filter f'" "(st, f', fx) \<in> set_call c0"
    using assms(2,3) by (auto simp: call.set_map as_filter_def split: prod.splits)
  then show ?thesis using consistent_ppv2 [OF assms(1)] 2 assms(5,7) by simp
next
  case (3 sha' tab' f e)
  then have c: "c = map_call (as_filter Auth_Filter) (auth_begin e f)" using assms(2) by auto
  then obtain f' where f': "flt = Auth_Filter f'" "(st, f', fx) \<in> set_call (auth_begin e f)"
    using assms(3) by (auto simp: call.set_map as_filter_def split: prod.splits)
  then have new: "af_settled f'" "\<not> (st = Continue \<and> closes fx)"
    by (auto simp: auth_steps split: call_splits)
  moreover have "\<not> passed" "\<not> severed" using assms(1,4) 3 by (auto simp: consistent_def in_order_def split: if_splits)
  ultimately show ?thesis using assms(5-7) f' by (auto simp: consistent_def)
next
  case (4 sha' tab' f e)
  then have c: "c = Done (as_filter Auth_Filter (auth_on_data f))" using assms(2) by simp
  have "ob_call ob = None \<and> ob_accepted ob"
    using assms(3,4) 4 by (auto simp: c in_order_def)
  then have "af_settled f" "\<not> (passed \<and> severed)" using assms(1) 4 by (auto simp: consistent_def)
  then show ?thesis using assms 4 by (auto simp: consistent_def c as_filter_def auth_on_data_def)
next
  case (7 sha' tab' f u)
  then have "\<exists>f'. flt = Udp_Filter f' \<and> \<not> closes fx"
    using assms(2,3) by (auto simp: call.set_map as_filter_def udp_steps split: call_splits)
  then show ?thesis using assms 7 by (auto simp: consistent_def)
qed (use assms in \<open>auto simp: consistent_def as_filter_def table_on_data_def\<close>)

definition verdicts_ok :: "'s process \<Rightarrow> reply list \<Rightarrow> bool" where
  "verdicts_ok p os \<longleftrightarrow> (\<forall>i. if i < length (pr_slots p) then consistent (pr_slots p ! i) (passes i os) (cuts i os)
     else \<not> passes i os \<and> \<not> cuts i os)"

lemma consistent_phase [simp]: "consistent (ob\<lparr>ob_phase := ph\<rparr>) passed severed = consistent ob passed severed"
  by (simp add: consistent_def cong: filter_object.case_cong)

lemma consistent_fresh: "ob_call ob = None \<Longrightarrow> \<not> ob_accepted ob \<Longrightarrow> consistent ob False False"
  by (auto simp: consistent_def split: filter_object.split)

lemma verdicts_ok_update:
  assumes "verdicts_ok p os" and "i < length (pr_slots p)" and "pr_slots q = (pr_slots p)[i := ob]"
    and "consistent ob (passes i (os @ os')) (cuts i (os @ os'))" and "\<And>j. j \<noteq> i \<Longrightarrow> \<not> passes j os' \<and> \<not> cuts j os'"
  shows "verdicts_ok q (os @ os')"
  using assms by (auto simp: verdicts_ok_def nth_list_update)

lemma verdicts_at: "verdicts_ok p os \<Longrightarrow> i < length (pr_slots p) \<Longrightarrow> consistent (pr_slots p ! i) (passes i os) (cuts i os)"
  by (auto simp: verdicts_ok_def)

lemma consistent_asks:
  assumes "consistent ob passed severed" and "ob_call ob = None" and "in_order ob cb"
    and "callback_begin sha tab (ob_filter ob) cb = Some (Asks sni a k)"
  shows "consistent (ob\<lparr>ob_accepted := True, ob_call := Some (sni, a, k)\<rparr>) passed severed"
  using assms by (cases "(sha, tab, ob_filter ob, cb)" rule: callback_begin.cases) (auto simp: consistent_def in_order_def)

lemma step_verdicts:
  assumes "process_ok sha rj tj xs p" and "verdicts_ok p os" and "step sha rj tj d x p = Some (q, os')"
  shows "verdicts_ok q (os @ os')"
  using assms(3)
proof (cases rule: step_Some)
  case (load udp name bs new)
  then show ?thesis using assms(2) by (simp add: verdicts_ok_def)
next
  case (create l)
  then show ?thesis using assms(2) consistent_fresh by (auto simp: verdicts_ok_def nth_append)
next
  case (over i cb st flt fx)
  from consistent_reply [OF verdicts_at [OF assms(2) over(1)] over(4), of st flt fx]
  have "consistent ((pr_slots p ! i)\<lparr>ob_accepted := True, ob_filter := flt\<rparr>) (passes i (os @ os')) (cuts i (os @ os'))"
    using over(2,3,6) by simp
  then show ?thesis by (rule verdicts_ok_update [OF assms(2) over(1), rotated]) (auto simp: over(5,6))
next
  case (asks i cb sni a k)
  show ?thesis
    using verdicts_ok_update [OF assms(2) asks(1), where os' = "[]" and q = q]
      consistent_asks [OF verdicts_at [OF assms(2) asks(1)] asks(2-4)] asks(5,6) by simp
next
  case (moves i ob sni a k cfg r)
  then show ?thesis
    using verdicts_ok_update [OF assms(2) moves(1), where os' = "[]" and q = q] verdicts_at [OF assms(2) moves(1)] by simp
next
  case (answers i ob sni a k cfg r b sni' a' st flt fx)
  have c: "consistent ob (passes i os) (cuts i os)" using verdicts_at [OF assms(2) answers(1)] answers(2) by simp
  obtain ys cb where cb: "callback_begin sha (snd (cell_of (history tj ys))) (ob_filter ob) cb = Some (Asks sni a k)"
    using slots_ok [OF assms(1) answers(1)] answers(2,3) by (auto simp: slot_ok_def asked_def)
  have "(st, flt, fx) \<in> set_call (Asks sni a k)" using answers(7) by (metis call.set_intros(2) rangeI)
  from consistent_reply [OF c cb this, of "ob\<lparr>ob_phase := phase_of r i, ob_filter := flt, ob_call := None\<rparr>"]
  have "consistent (ob\<lparr>ob_phase := phase_of r i, ob_filter := flt, ob_call := None\<rparr>) (passes i (os @ os')) (cuts i (os @ os'))"
    using c answers(3,9) by (simp add: consistent_def [of ob])
  then show ?thesis by (rule verdicts_ok_update [OF assms(2) answers(1), rotated]) (auto simp: answers(8,9))
qed

lemma run_verdicts:
  assumes "run sha rj tj d xs (fresh_process s) = Some (p, os)"
  shows "verdicts_ok p os"
  using assms
proof (induction rule: run_invariant)
  case (step xs p os x q os')
  then show ?case using step_verdicts [OF process_ok_run [OF step(1)] step(3,2)] by blast
qed (simp add: verdicts_ok_def)

section \<open>Between publications\<close>

text \<open>The reply of a filter without cache or concurrency, against the tables published so far.\<close>

definition reference_reply :: "(bytes \<Rightarrow> bytes) \<Rightarrow> table list \<Rightarrow> config option \<Rightarrow> filter_object \<Rightarrow> callback \<Rightarrow> outcome option" where
  "reference_reply sha hist rules flt cb = do {
     c \<leftarrow> callback_begin sha (snd (cell_of hist)) flt cb;
     case c of
       Done r \<Rightarrow> Some r
     | Asks sni a k \<Rightarrow> map_option (\<lambda>cfg. k (hist \<noteq> [] \<and> rules_cover sha (last hist) cfg sni a)) rules
   }"

definition resting :: "nat \<Rightarrow> 's process \<Rightarrow> bool" where
  "resting l p \<longleftrightarrow> (\<forall>i < length (pr_slots p). ob_listener (pr_slots p ! i) = l \<longrightarrow> ob_call (pr_slots p ! i) = None)"

definition current :: "(bytes \<Rightarrow> bytes) \<Rightarrow> table list \<Rightarrow> nat \<Rightarrow> 's process \<Rightarrow> bool" where
  "current sha hist l p \<longleftrightarrow> (\<forall>cfg. config_at l p = Some cfg \<longrightarrow> (\<exists>cfg0. pool_now sha cfg0 hist (pool_of l cfg p)))"

lemma resting_current:
  assumes "process_ok sha rj tj xs p" and "resting l p"
  shows "current sha (history tj xs) l p"
  unfolding current_def
proof (intro allI impI)
  fix cfg
  assume "config_at l p = Some cfg"
  then obtain cfg0 where "loaded rj cfg0" and reached: "reached sha cfg0 (history tj xs) (pool_of l cfg p)"
    using assms(1) unfolding process_ok_def by blast
  then have "pool_ok sha cfg0 (history tj xs) (pool_of l cfg p)" using reached_ok [OF reached] loaded_cache by blast
  moreover have "phase_at l (pr_slots p) i = Idle" for i
    using assms by (auto simp: phase_at_def process_ok_def slot_ok_def resting_def)
  ultimately show "\<exists>cfg0. pool_now sha cfg0 (history tj xs) (pool_of l cfg p)" by (auto simp: pool_now_def)
qed

lemma current_step:
  assumes "current sha hist l p" and "step sha rj tj d x p = Some (q, os)" and "tables_of tj x = []"
    and "config_at l p = Some cfg" and "length hist < 2 ^ 64 - 1"
  shows "current sha hist l q \<and> config_at l q \<noteq> None"
proof -
  obtain cfg0 where now: "pool_now sha cfg0 hist (pool_of l cfg p)" using assms(1,4) by (auto simp: current_def)
  obtain cfg' where q: "config_at l q = Some cfg'" and moves: "pool_moves sha [] (pool_of l cfg p) (pool_of l cfg' q)"
    using pool_step [OF assms(2,4)] assms(3) by auto
  have still: "pool_of l cfg p\<lparr>published := pr_cell p\<rparr> = pool_of l cfg p" by (intro pool_eqI) simp_all
  from moves have "pool_now sha cfg0 hist (pool_of l cfg' q)"
    using now exec_now [OF now _ _ assms(5)] by (auto simp: pool_moves_def still)
  then show ?thesis using q by (auto simp: current_def)
qed

text \<open>In a current pool an answer is the present one.\<close>

lemma current_answer:
  assumes "current sha hist l p" and "config_at l p = Some cfg" and "i < length (pr_slots p)" and "ob_listener (pr_slots p ! i) = l"
    and "ob_phase (pr_slots p ! i) = Answered sni a b" and "published_ok hist" and "sha256_ok sha"
  shows "b \<longleftrightarrow> hist \<noteq> [] \<and> rules_cover sha (last hist) cfg sni a"
proof -
  obtain cfg0 where now: "pool_now sha cfg0 hist (pool_of l cfg p)" using assms(1,2) by (auto simp: current_def)
  moreover have "phase_of (pool_of l cfg p) i = Answered sni a b" using assms(3-5) by (simp add: phase_at_def)
  ultimately have "b \<longleftrightarrow> verdict_at sha cfg0 hist (length hist) sni a" by (metis phase_now.simps(4) pool_now_def)
  moreover have "rules_cover sha t cfg = rules_cover sha t cfg0" for t
    using now rules_cover_same by (auto simp: pool_now_def pool_ok_def)
  ultimately show ?thesis
    using verdict_at_table [OF assms(6,7) order_refl] by (cases hist rule: rev_cases) auto
qed

text \<open>A call that began since the pool came to rest, and the reply it gets.\<close>

definition begun_after :: "(bytes \<Rightarrow> bytes) \<Rightarrow> table list \<Rightarrow> event list \<Rightarrow> nat \<Rightarrow> 's process \<Rightarrow> bool" where
  "begun_after sha hist ys l p \<longleftrightarrow> (\<forall>i < length (pr_slots p). ob_listener (pr_slots p ! i) = l \<longrightarrow>
     (\<forall>sni a k. ob_call (pr_slots p ! i) = Some (sni, a, k) \<longrightarrow> asks sni a (ob_phase (pr_slots p ! i)) \<and>
       (\<exists>cb. Invoke i cb \<in> set ys \<and> callback_begin sha (snd (cell_of hist)) (ob_filter (pr_slots p ! i)) cb = Some (Asks sni a k))))"


lemma begun_more: "begun_after sha hist ys l p \<Longrightarrow> begun_after sha hist (ys @ zs) l p"
  unfolding begun_after_def by (metis UnI1 set_append)

lemma begun_update:
  assumes "begun_after sha hist ys l p" and "pr_slots q = (pr_slots p)[i := ob]" and "ob_listener ob = ob_listener (pr_slots p ! i)"
    and "\<And>sni a k. ob_listener ob = l \<Longrightarrow> ob_call ob = Some (sni, a, k) \<Longrightarrow> asks sni a (ob_phase ob) \<and>
       (\<exists>cb. Invoke i cb \<in> set ys \<and> callback_begin sha (snd (cell_of hist)) (ob_filter ob) cb = Some (Asks sni a k))"
  shows "begun_after sha hist ys l q"
  unfolding begun_after_def assms(2)
proof (intro allI impI)
  fix j sni a k
  assume j: "j < length ((pr_slots p)[i := ob])" "ob_listener ((pr_slots p)[i := ob] ! j) = l"
    "ob_call ((pr_slots p)[i := ob] ! j) = Some (sni, a, k)"
  show "asks sni a (ob_phase ((pr_slots p)[i := ob] ! j)) \<and> (\<exists>cb. Invoke j cb \<in> set ys \<and>
      callback_begin sha (snd (cell_of hist)) (ob_filter ((pr_slots p)[i := ob] ! j)) cb = Some (Asks sni a k))"
  proof (cases "j = i")
    case True
    then show ?thesis using j assms(4) by simp
  next
    case False
    then show ?thesis using j assms(1) unfolding begun_after_def by simp
  qed
qed

lemma begun_step:
  assumes "begun_after sha hist ys l p" and "step sha rj tj d x p = Some (q, os)" and "pr_cell p = cell_of hist"
    and "\<And>i. i < length (pr_slots p) \<Longrightarrow> ob_call (pr_slots p ! i) = None \<Longrightarrow> ob_phase (pr_slots p ! i) = Idle"
  shows "begun_after sha hist (ys @ [x]) l q"
  using assms(2)
proof (cases rule: step_Some)
  case (load udp name bs new)
  then show ?thesis using begun_more [OF assms(1), of "[x]"] by (simp add: begun_after_def)
next
  case (create m)
  then show ?thesis using begun_more [OF assms(1), of "[x]"] unfolding begun_after_def by (auto simp: nth_append)
next
  case (over i cb st flt fx)
  then show ?thesis by (intro begun_update [OF begun_more [OF assms(1)], where i = i
      and ob = "(pr_slots p ! i)\<lparr>ob_accepted := True, ob_filter := flt\<rparr>"]) auto
next
  case (asks i cb sni a k)
  then show ?thesis
    using assms(3,4) by (intro begun_update [OF begun_more [OF assms(1)], where i = i
      and ob = "(pr_slots p ! i)\<lparr>ob_accepted := True, ob_call := Some (sni, a, k)\<rparr>"]) auto
next
  case (moves i ob sni a k cfg r)
  let ?ob = "ob\<lparr>ob_phase := phase_of r i\<rparr>"
  have "asks sni' a' (ob_phase ?ob) \<and> (\<exists>cb. Invoke i cb \<in> set (ys @ [x]) \<and>
      callback_begin sha (snd (cell_of hist)) (ob_filter ?ob) cb = Some (Asks sni' a' k'))"
    if "ob_listener ob = l" "ob_call ob = Some (sni', a', k')" for sni' a' k'
  proof -
    have "asks sni a (ob_phase ob)" "\<exists>cb. Invoke i cb \<in> set (ys @ [x]) \<and>
        callback_begin sha (snd (cell_of hist)) (ob_filter ob) cb = Some (Asks sni a k)"
      using begun_more [OF assms(1), of "[x]"] moves(1-3) that(1) unfolding begun_after_def by blast+
    then show ?thesis using asks_advance [OF moves(5)] moves(1-3) that by (simp add: slot_phase)
  qed
  then show ?thesis
    using moves(2) by (intro begun_update [OF begun_more [OF assms(1)], where ob = ?ob and i = i]) (simp_all add: moves(7))
next
  case (answers i ob sni a k cfg r b sni' a' st flt fx)
  then show ?thesis by (intro begun_update [OF begun_more [OF assms(1)], where i = i
      and ob = "ob\<lparr>ob_phase := phase_of r i, ob_filter := flt, ob_call := None\<rparr>"]) auto
qed

definition settled_down :: "(bytes \<Rightarrow> bytes) \<Rightarrow> table list \<Rightarrow> event list \<Rightarrow> nat \<Rightarrow> 's process \<Rightarrow> bool" where
  "settled_down sha hist ys l p \<longleftrightarrow> pr_cell p = cell_of hist \<and> config_at l p \<noteq> None \<and> current sha hist l p \<and> begun_after sha hist ys l p"

lemma settled_down_step:
  assumes "process_ok sha rj tj xs p" and "settled_down sha hist ys l p" and "step sha rj tj d x p = Some (q, os)"
    and "tables_of tj x = []" and "length hist < 2 ^ 64 - 1"
  shows "settled_down sha hist (ys @ [x]) l q"
proof -
  have "ob_phase (pr_slots p ! i) = Idle" if "i < length (pr_slots p)" "ob_call (pr_slots p ! i) = None" for i
    using assms(1) that by (auto simp: process_ok_def slot_ok_def)
  then show ?thesis
    using assms(2,4) current_step [OF _ assms(3,4) _ assms(5)] begun_step [OF _ assms(3)] step_cell [OF assms(3)]
    by (auto simp: settled_down_def)
qed

lemma run_settled_down:
  assumes "process_ok sha rj tj xs p" and "settled_down sha hist zs l p" and "run sha rj tj d ys p = Some (q, os)"
    and "history tj ys = []" and "length hist < 2 ^ 64 - 1"
  shows "process_ok sha rj tj (xs @ ys) q \<and> settled_down sha hist (zs @ ys) l q"
  using assms(1-4)
proof (induction ys arbitrary: xs zs p os)
  case (Cons y ys)
  obtain r os1 os2 where y: "step sha rj tj d y p = Some (r, os1)" and ys: "run sha rj tj d ys r = Some (q, os2)"
    using Cons.prems(3) by (auto split: Option.bind_splits)
  have none: "tables_of tj y = []" "history tj ys = []" using Cons.prems(4) by (simp_all add: history_def)
  from Cons.IH [OF process_ok_step [OF Cons.prems(1) y] settled_down_step [OF Cons.prems(1,2) y none(1) assms(5)] ys none(2)]
  show ?case by simp
qed simp

lemma resting_settled_down:
  "process_ok sha rj tj xs p \<Longrightarrow> resting l p \<Longrightarrow> config_at l p \<noteq> None \<Longrightarrow> settled_down sha (history tj xs) [] l p"
  using resting_current [of sha rj tj xs p l]
  by (auto simp: settled_down_def begun_after_def resting_def process_ok_def cell_ok_def)

lemma quiet_reply:
  assumes "process_ok sha rj tj xs p" and "settled_down sha hist ys l p" and "step sha rj tj d x p = Some (q, os)"
    and "published_ok hist" and "sha256_ok sha" and "(i, st, fx) \<in> set os" and "ob_listener (pr_slots p ! i) = l"
  shows "\<exists>cb. Invoke i cb \<in> set (ys @ [x]) \<and>
    reference_reply sha hist (config_at l p) (ob_filter (pr_slots p ! i)) cb = Some (st, ob_filter (pr_slots q ! i), fx)"
  using assms(3)
proof (cases rule: step_Some)
  case (over j cb st' flt fx')
  then show ?thesis using assms(2,6) by (auto simp: reference_reply_def settled_down_def intro!: exI [of _ cb])
next
  case (answers j ob sni a k cfg r b sni' a' st' flt fx')
  then have i: "i = j" "st = st'" "fx = fx'" and l: "ob_listener ob = l" using assms(6,7) by auto
  obtain cb where cb: "Invoke i cb \<in> set ys" "callback_begin sha (snd (cell_of hist)) (ob_filter ob) cb = Some (Asks sni a k)"
    and "asks sni a (ob_phase ob)"
    using assms(2) answers(1-3) l unfolding settled_down_def begun_after_def i by blast
  then have "sni' = sni" "a' = a" using answers(6) by simp_all
  then have "b \<longleftrightarrow> hist \<noteq> [] \<and> rules_cover sha (last hist) cfg sni a"
    using current_answer [of sha hist l p cfg j sni a b] assms(2,4,5) answers l by (simp add: settled_down_def)
  then show ?thesis
    using cb answers i l by (intro exI [of _ cb]) (simp add: reference_reply_def)
qed (use assms(6) in simp_all)

section \<open>Every callback is answered\<close>

fun serves :: "filter_object \<Rightarrow> callback \<Rightarrow> bool" where
  "serves (Udp_Filter f) cb \<longleftrightarrow> (\<exists>u. cb = On_Datagram u)"
| "serves Udp_Table_Filter cb \<longleftrightarrow> (\<exists>u. cb = On_Datagram u)"
| "serves Udp_Deny_All_Filter cb \<longleftrightarrow> (\<exists>u. cb = On_Datagram u)"
| "serves _ cb \<longleftrightarrow> (\<nexists>u. cb = On_Datagram u)"

lemma callback_total: "serves flt cb \<Longrightarrow> callback_begin sha tab flt cb \<noteq> None"
proof (cases "(sha, tab, flt, cb)" rule: callback_begin.cases)
  case (2 sha' tab' f e)
  have "ppv2_begin sha tab e f \<noteq> None"
    using inspect_total [of sha e] by (auto simp: ppv2_begin_def split: option.splits)
  then show ?thesis using 2 by auto
next
  case (7 sha' tab' f u)
  have "udp_begin sha tab u f \<noteq> None"
    using parse_total [of "payload_of u"]
    by (auto simp: udp_begin_def datagram_concat payload_of_def split: option.splits Option.bind_splits)
  then show ?thesis using 7 by auto
qed auto

lemma asks_config: "fits l flt \<Longrightarrow> callback_begin sha tab flt cb = Some (Asks sni a k) \<Longrightarrow> config_of l \<noteq> None"
  by (cases "(sha, tab, flt, cb)" rule: callback_begin.cases; cases "(l, flt)" rule: fits.cases) auto

fun remaining :: "phase \<Rightarrow> nat" where
  "remaining Idle = 4"
| "remaining (Snapped c sni a) = 3"
| "remaining (Stale c sni a) = 2"
| "remaining (Ready sni a) = 1"
| "remaining (Answered sni a b) = 0"

lemma section_enabled:
  assumes "phase_of p i = ph"
  shows "\<exists>r. exec sha (next_section i sni a ph) p = Some r \<and> (remaining ph > 0 \<longrightarrow> remaining (phase_of r i) < remaining ph)"
  using assms by (cases ph) (auto split: phase.splits)

lemma advance_enabled:
  assumes "process_ok sha rj tj xs p" and "i < length (pr_slots p)" and "ob_call (pr_slots p ! i) \<noteq> None"
  obtains (answered) q st fx where "advance sha i p = Some (q, [(i, st, fx)])"
  | (moved) q where "advance sha i p = Some (q, [])" "i < length (pr_slots q)" "ob_call (pr_slots q ! i) \<noteq> None"
      "remaining (ob_phase (pr_slots q ! i)) < remaining (ob_phase (pr_slots p ! i))"
proof -
  let ?ob = "pr_slots p ! i" and ?ls = "pr_listeners p"
  obtain sni a k where call: "ob_call ?ob = Some (sni, a, k)" using assms(3) by auto
  have slot: "slot_ok sha tj xs ?ls i ?ob" using assms(1,2) by (simp add: process_ok_def)
  then have "fits (?ls ! ob_listener ?ob) (ob_filter ?ob)" "asked sha tj xs i (ob_filter ?ob) sni a k"
    using call by (simp_all add: slot_ok_def)
  then have "config_of (?ls ! ob_listener ?ob) \<noteq> None" using asks_config unfolding asked_def by blast
  then obtain cfg where "config_of (?ls ! ob_listener ?ob) = Some cfg" by blast
  moreover have "ob_listener ?ob < length ?ls" using slot unfolding slot_ok_def by (rule conjunct1)
  ultimately have cfg: "config_at (ob_listener ?ob) p = Some cfg" unfolding config_at_Some by blast
  have "phase_of (pool_of (ob_listener ?ob) cfg p) i = ob_phase ?ob" using assms(2) by (simp add: slot_phase)
  from section_enabled [OF this, of sha sni a] obtain r
    where r: "exec sha (next_section i sni a (ob_phase ?ob)) (pool_of (ob_listener ?ob) cfg p) = Some r \<and>
      (remaining (ob_phase ?ob) > 0 \<longrightarrow> remaining (phase_of r i) < remaining (ob_phase ?ob))" by (rule exE)
  have step: "advance sha i p = (let p' = set_config (ob_listener ?ob) (shared r) p; ob' = ?ob\<lparr>ob_phase := phase_of r i\<rparr> in
      Some (case ob_phase ?ob of
        Answered _ _ b \<Rightarrow>
          (case k b of (st, flt, fx) \<Rightarrow> (set_slot i (ob'\<lparr>ob_filter := flt, ob_call := None\<rparr>) p', [(i, st, fx)]))
      | _ \<Rightarrow> (set_slot i ob' p', [])))"
    using assms(2) call cfg conjunct1 [OF r] by (simp add: advance_def)
  show thesis
  proof (cases "ob_phase ?ob")
    case (Answered sni' a' b)
    then show thesis using step answered by (auto simp: Let_def split: prod.splits)
  qed (use step conjunct2 [OF r] call assms(2) moved in \<open>simp_all add: Let_def\<close>)
qed

lemma pending_answered:
  assumes "process_ok sha rj tj xs p" and "i < length (pr_slots p)" and "ob_call (pr_slots p ! i) \<noteq> None"
  shows "\<exists>n q st fx. n \<le> Suc (remaining (ob_phase (pr_slots p ! i))) \<and>
    run sha rj tj d (replicate n (Advance i)) p = Some (q, [(i, st, fx)])"
  using assms
proof (induction "remaining (ob_phase (pr_slots p ! i))" arbitrary: p xs rule: less_induct)
  case less
  from less.prems show ?case
  proof (cases rule: advance_enabled)
    case (answered q st fx)
    then have "run sha rj tj d (replicate 1 (Advance i)) p = Some (q, [(i, st, fx)])" by simp
    then show ?thesis by (intro exI [of _ 1] exI [of _ q] exI [of _ st] exI [of _ fx]) simp
  next
    case (moved q)
    then have "process_ok sha rj tj (xs @ [Advance i]) q"
      by (intro process_ok_step [OF less.prems(1), where d = d and os = "[]"]) simp
    then obtain n r st fx where "n \<le> Suc (remaining (ob_phase (pr_slots q ! i)))"
      "run sha rj tj d (replicate n (Advance i)) q = Some (r, [(i, st, fx)])"
      using less.hyps [OF moved(4)] moved(2,3) by blast
    then show ?thesis
      using moved(1,4) by (intro exI [of _ "Suc n"] exI [of _ r] exI [of _ st] exI [of _ fx]) simp
  qed
qed

lemma callback_answered:
  assumes "process_ok sha rj tj xs p" and "i < length (pr_slots p)" and "ob_call (pr_slots p ! i) = None"
    and "in_order (pr_slots p ! i) cb" and "serves (ob_filter (pr_slots p ! i)) cb"
  shows "\<exists>n q st fx. n \<le> 5 \<and> run sha rj tj d (Invoke i cb # replicate n (Advance i)) p = Some (q, [(i, st, fx)])"
proof -
  let ?ob = "pr_slots p ! i"
  obtain c where c: "callback_begin sha (snd (pr_cell p)) (ob_filter ?ob) cb = Some c" using callback_total [OF assms(5)] by blast
  show ?thesis
  proof (cases c)
    case (Done r)
    then have "run sha rj tj d (Invoke i cb # replicate 0 (Advance i)) p =
        Some (set_slot i (?ob\<lparr>ob_accepted := True, ob_filter := fst (snd r)\<rparr>) p, [(i, fst r, snd (snd r))])"
      using assms c by (simp add: invoke_def Let_def split_beta)
    then show ?thesis by blast
  next
    case (Asks sni a k)
    let ?q = "set_slot i (?ob\<lparr>ob_accepted := True, ob_call := Some (sni, a, k)\<rparr>) p"
    have step: "step sha rj tj d (Invoke i cb) p = Some (?q, [])" using assms c Asks by (simp add: invoke_def Let_def)
    have "ob_phase ?ob = Idle" using assms(1-3) by (auto simp: process_ok_def slot_ok_def)
    then obtain n q st fx where "n \<le> 5" "run sha rj tj d (replicate n (Advance i)) ?q = Some (q, [(i, st, fx)])"
      using pending_answered [OF process_ok_step [OF assms(1) step], of i d] assms(2) by auto
    then show ?thesis using step by (intro exI [of _ n] exI [of _ q] exI [of _ st] exI [of _ fx]) simp
  qed
qed

section \<open>Labels and who reads them\<close>

lemma reply_step:
  assumes "run sha rj tj d xs p = Some (q, os)" and "r \<in> set os"
  shows "\<exists>ys x zs p' os1 q' os2. xs = ys @ x # zs \<and> run sha rj tj d ys p = Some (p', os1) \<and>
    step sha rj tj d x p' = Some (q', os2) \<and> r \<in> set os2"
  using assms
proof (induction xs arbitrary: q os rule: rev_induct)
  case (snoc x xs)
  obtain p' os1 os2 where run: "run sha rj tj d xs p = Some (p', os1)" "step sha rj tj d x p' = Some (q, os2)" "os = os1 @ os2"
    using snoc.prems(1) unfolding run_snoc by blast
  show ?case
  proof (cases "r \<in> set os1")
    case True
    then obtain ys y zs p1 o1 q1 o2 where "xs = ys @ y # zs" "run sha rj tj d ys p = Some (p1, o1)"
      "step sha rj tj d y p1 = Some (q1, o2)" "r \<in> set o2"
      using snoc.IH [OF run(1)] by blast
    then show ?thesis by (intro exI [of _ ys] exI [of _ y] exI [of _ "zs @ [x]"]) auto
  next
    case False
    then show ?thesis using run snoc.prems(2) by (intro exI [of _ xs] exI [of _ x] exI [of _ "[]"]) auto
  qed
qed simp

lemma settled_reply:
  assumes "callback_begin sha tab flt cb = Some c" and "rests_on sha hist n rules c (st, flt', fx)" and "\<not> unsettled flt"
  shows "fx = []"
proof -
  obtain f where f: "flt = Ppv2_Filter f" "\<not> waiting f" using assms(3) by (cases flt) auto
  then obtain v where v: "ppv2_settled f = Some v" using settled_waiting by (metis option.exhaust)
  show ?thesis
  proof (cases cb)
    case (On_Data e)
    then obtain c0 where "ppv2_begin sha tab e f = Some c0" "c = map_call (as_filter Ppv2_Filter) c0"
      using assms(1) f by auto
    moreover from this(1) have "c0 = Done (v, f, [])" by (rule ppv2_begin_settled [OF v])
    ultimately show ?thesis using assms(2) by (auto simp: rests_on_def as_filter_def)
  qed (use assms(1,2) f in \<open>auto simp: rests_on_def\<close>)
qed

lemma label_provenance:
  assumes "run sha rj tj d xs (fresh_process s) = Some (p, os)" and "(i, Continue, fx) \<in> set os"
    and "Set_Remote_Address label port b \<in> set fx" and "length (history tj xs) < 2 ^ 64 - 1" and "sha256_ok sha"
  shows "\<exists>e h t. Invoke i (On_Data e) \<in> set xs \<and> parse (chunk e) = Some (Inr h) \<and> t \<in> set (history tj xs) \<and> table_ok t \<and>
    label = show_ipv6 (synthesize sha (tbl_scheme t) h)"
proof -
  obtain ys x zs p1 os1 q1 os2 where xs: "xs = ys @ x # zs" and run: "run sha rj tj d ys (fresh_process s) = Some (p1, os1)"
    and step: "step sha rj tj d x p1 = Some (q1, os2)" and reply: "(i, Continue, fx) \<in> set os2"
    using reply_step [OF assms(1,2)] by blast
  have len: "length (history tj ys) < 2 ^ 64 - 1" using assms(4) by (simp add: xs)
  have ok: "process_ok sha rj tj ys p1" using process_ok_run [OF run] .
  have fresh: "unsettled (ob_filter (pr_slots p1 ! i))"
    using settled_reply assms(3) by (rule_tac reply_origin [OF ok step reply len assms(5)]) fastforce
  obtain us cb ws where at: "ys @ [x] = us @ Invoke i cb # ws"
    and just: "justified sha (snd (cell_of (history tj us))) (history tj ys) (config_at (ob_listener (pr_slots p1 ! i)) p1)
      (ob_filter (pr_slots p1 ! i)) cb fx"
    using reply_justified [OF run step reply len assms(5) fresh] by blast
  from just assms(3) have "\<exists>e t h. cb = On_Data e \<and> snd (cell_of (history tj us)) = Some t \<and>
      parse (chunk e) = Some (Inr h) \<and> Set_Remote_Address label port b \<in> set (label_effects sha t h)"
    by (auto elim!: justified_cases)
  then obtain e t h where e: "cb = On_Data e" "snd (cell_of (history tj us)) = Some t" "parse (chunk e) = Some (Inr h)"
    and "label = show_ipv6 (synthesize sha (tbl_scheme t) h)"
    by (auto simp: label_effects_def)
  moreover have "Invoke i cb \<in> set (ys @ [x])" using at by simp
  then have "Invoke i (On_Data e) \<in> set xs" using xs e(1) by auto
  moreover have "t \<in> set (history tj xs)" "table_ok t" using begun_table [OF ok at e(2)] by (simp_all add: xs)
  ultimately show ?thesis by blast
qed

section \<open>An example run\<close>

text \<open>
  A carrier, a \<open>ppv2\<close> and an \<open>auth\<close> listener; a connection passes both filters while the second
  takes its five sections.
\<close>

definition demo_json :: "string \<Rightarrow> string + raw_rules" where
  "demo_json src = Inr (if src = ''auth''
     then \<lparr>raw_rules_allow = [], raw_rules_scopes = Some [\<lparr>raw_sni = [''*.example.com''], raw_scope_allow = [''@seven'']\<rparr>]\<rparr>
     else \<lparr>raw_rules_allow = [], raw_rules_scopes = None\<rparr>)"

definition demo_label :: string where
  "demo_label = show_ipv6 (synthesize demo_sha (tbl_scheme demo_table) demo_header)"

definition demo_tls_envoy :: envoy where
  "demo_tls_envoy = (demo_envoy [])\<lparr>get_remote_address := Some (demo_label, 1),
     get_requested_server_name := Some (as_bytes ''A.Example.com'')\<rparr>"

definition demo_setup :: "event list" where
  "demo_setup = [Load False ''table'' (as_bytes ''table''), Load False ''ppv2'' (as_bytes ''ppv2''),
     Load False ''auth'' (as_bytes ''auth''), Create 2, Create 1, Invoke 1 (On_Accept (demo_envoy [])),
     Invoke 1 (On_Data (demo_envoy (encode_wire demo_wire)))]"

definition demo_events :: "event list" where
  "demo_events = demo_setup @ [Invoke 0 (On_Accept demo_tls_envoy), Advance 0, Advance 0, Advance 0, Advance 0]"

abbreviation demo_run :: "event list \<Rightarrow> (unit process \<times> reply list) option" where
  "demo_run xs \<equiv> run demo_sha demo_json (\<lambda>_. Inr demo_raw) demo_define xs (fresh_process ())"

definition demo_labeller :: ppv2_filter where
  "demo_labeller = new_ppv2_filter (labelling demo_ids)"

definition demo_replies :: "reply list" where
  "demo_replies = [(1, Stop_Iteration, []),
     (1, Continue, label_effects demo_sha demo_table (demo_header\<lparr>hdr_len := 38\<rparr>) @ bump (Some 3))]"

definition demo_slot :: "auth_filter \<Rightarrow> bool \<Rightarrow> (bytes \<times> u128 \<times> (bool \<Rightarrow> outcome)) option \<Rightarrow> phase \<Rightarrow> filter_slot" where
  "demo_slot g accepted call ph = \<lparr>ob_listener = 2, ob_filter = Auth_Filter g, ob_accepted = accepted, ob_call = call, ob_phase = ph\<rparr>"

definition demo_process :: "config \<Rightarrow> filter_slot \<Rightarrow> unit process" where
  "demo_process cfg ob = \<lparr>pr_cell = demo_cell, pr_host = (),
     pr_listeners = [Tcp_Listener Table_Listener,
       Tcp_Listener (Ppv2_Listener (labelling demo_ids) \<lparr>cfg_allow = [], cfg_scopes = None, cfg_cache = (- 1, deny_all False)\<rparr>),
       Tcp_Listener (Auth_Listener demo_ids cfg)],
     pr_slots = [ob, \<lparr>ob_listener = 1, ob_filter = Ppv2_Filter (demo_labeller\<lparr>pf_done := True\<rparr>), ob_accepted = True,
         ob_call = None, ob_phase = Idle\<rparr>]\<rparr>"

lemma demo_texts: "text_of (as_bytes ''table'') = Inr ''table''" "text_of (as_bytes ''ppv2'') = Inr ''ppv2''"
  "text_of (as_bytes ''auth'') = Inr ''auth''"
  by code_simp+

lemma demo_loads:
  "load demo_json (as_bytes ''ppv2'') validate_ppv2 = Some \<lparr>cfg_allow = [], cfg_scopes = None, cfg_cache = (- 1, deny_all False)\<rparr>"
  "load demo_json (as_bytes ''auth'') validate_auth = Some demo_config"
  "load_table (\<lambda>_. Inr demo_raw) (as_bytes ''table'') (cell_of hist) = (True, cell_of (hist @ [demo_table]))"
  "run_state (counters_for demo_define name) () = (demo_ids, ())"
proof -
  have "pattern_parse ''*.example.com'' = Suffix ''example.com''" by code_simp
  then show "load demo_json (as_bytes ''auth'') validate_auth = Some demo_config"
    by (simp add: load_Some demo_texts validated parse_rules_def demo_json_def demo_config_def)
  show "load demo_json (as_bytes ''ppv2'') validate_ppv2 = Some \<lparr>cfg_allow = [], cfg_scopes = None, cfg_cache = (- 1, deny_all False)\<rparr>"
    by (simp add: load_Some demo_texts validated parse_rules_def demo_json_def)
  have "parse_table (\<lambda>_. Inr demo_raw) src = Inr demo_table" for src
    using demo_parse_table by (simp add: parse_table_def)
  then show "load_table (\<lambda>_. Inr demo_raw) (as_bytes ''table'') (cell_of hist) = (True, cell_of (hist @ [demo_table]))"
    by (simp add: load_table_def demo_texts publish_cell)
  show "run_state (counters_for demo_define name) () = (demo_ids, ())"
    by (simp add: counters_for_def register_def demo_define_def demo_ids_def State_Monad.bind_def State_Monad.return_def)
qed

lemma demo_labelled:
  "ppv2_begin demo_sha (Some demo_table) (demo_envoy (encode_wire demo_wire)) demo_labeller =
    Some (Done (Continue, demo_labeller\<lparr>pf_done := True\<rparr>,
      label_effects demo_sha demo_table (demo_header\<lparr>hdr_len := 38\<rparr>) @ bump (Some 3)))"
proof -
  have f: "waiting demo_labeller" "\<not> pf_enforce demo_labeller" "ctr_allowed (pf_counters demo_labeller) = Some 3"
    by (simp_all add: demo_labeller_def new_ppv2_filter_def labelling_def waiting_def demo_ids_def)
  have parsed: "parse (chunk (demo_envoy (encode_wire demo_wire))) = Some (Inr (demo_header\<lparr>hdr_len := 38\<rparr>))"
    using demo_parse [of "[]"] by simp
  obtain c where c: "ppv2_begin demo_sha (Some demo_table) (demo_envoy (encode_wire demo_wire)) demo_labeller = Some c"
    using callback_total [of "Ppv2_Filter demo_labeller" "On_Data (demo_envoy (encode_wire demo_wire))" demo_sha "Some demo_table"] by auto
  from f(1) c show ?thesis
  proof (cases rule: ppv2_begin_cases)
    case (label t h)
    then show ?thesis
      using label_begin_effects [OF demo_table_ok demo_sha_ok parsed] parsed f c by (simp add: after_verdict_def)
  qed (use parsed in auto)
qed

lemma demo_setup_run: "demo_run demo_setup = Some (demo_process demo_config (demo_slot (new_auth_filter demo_ids) False None Idle), demo_replies)"
proof -
  have new: "new_filter (Tcp_Listener (Ppv2_Listener (labelling demo_ids) cfg)) = Ppv2_Filter demo_labeller" for cfg
    by (simp add: demo_labeller_def)
  show ?thesis
    unfolding demo_setup_def
    by (simp add: load_listener_def new_listener_filter_config_def demo_loads(1,2,4) demo_loads(3) [of "[]", unfolded cell_of_Nil, simplified]
      create_def invoke_def in_order_def idx_def fresh_process_def new demo_labelled Let_def ppv2_on_accept_def as_filter_def
      set_slot_def demo_process_def demo_slot_def demo_replies_def cell_of_def del: new_filter.simps(1))
qed

definition demo_sni :: bytes where
  "demo_sni = as_bytes ''A.Example.com''"

definition demo_answer :: "bool \<Rightarrow> outcome" where
  "demo_answer permitted = as_filter Auth_Filter
     (let g = (new_auth_filter demo_ids)\<lparr>af_settled := True\<rparr> in
      if permitted then (Continue, g, bump (Some 3)) else auth_refuse g ''denied_by_allowlist'' (bump (Some 3)))"

lemma demo_sni_of: "sni_of demo_tls_envoy = demo_sni"
  by (simp add: sni_of_def demo_tls_envoy_def demo_sni_def)

lemma demo_labelled_identity: "labelled_identity demo_tls_envoy = Some demo_id"
proof -
  let ?os = "synthesize demo_sha (tbl_scheme demo_table) demo_header"
  have "length ?os = 16"
    using demo_table_ok by (intro synthesize_length demo_sha_ok demo_header_ok) (simp add: table_ok_def)
  then have "parse_ipv6 (show_ipv6 ?os) = Some ?os" by (rule v6_text.read_print)
  then show ?thesis
    by (simp add: labelled_identity_def demo_tls_envoy_def demo_label_def demo_id_def identity_of_def)
qed

lemma demo_asks:
  "auth_begin demo_tls_envoy (new_auth_filter demo_ids) = Asks demo_sni demo_id k \<Longrightarrow> as_filter Auth_Filter (k b) = demo_answer b"
  by (auto simp: auth_begin_def demo_labelled_identity demo_answer_def new_auth_filter_def demo_ids_def Let_def)

lemma demo_begin:
  "callback_begin demo_sha tab (Auth_Filter (new_auth_filter demo_ids)) (On_Accept demo_tls_envoy) = Some (Asks demo_sni demo_id demo_answer)"
proof -
  have "auth_begin demo_tls_envoy (new_auth_filter demo_ids) \<noteq> Done r" for r
    by (simp add: auth_begin_def demo_labelled_identity Let_def)
  moreover have "sni = demo_sni \<and> a = demo_id" if "auth_begin demo_tls_envoy (new_auth_filter demo_ids) = Asks sni a k" for sni a k
    using that by (auto simp: auth_begin_def demo_labelled_identity demo_sni_of Let_def)
  ultimately obtain k where k: "auth_begin demo_tls_envoy (new_auth_filter demo_ids) = Asks demo_sni demo_id k"
    by (metis call.exhaust)
  then have "as_filter Auth_Filter \<circ> k = demo_answer" using demo_asks [OF k] by (simp add: fun_eq_iff)
  then show ?thesis by (simp add: k)
qed

text \<open>The states of the second filter's call, up to its answer.\<close>

definition demo_call_at :: "config \<Rightarrow> phase \<Rightarrow> unit process" where
  "demo_call_at cfg ph = demo_process cfg (demo_slot (new_auth_filter demo_ids) True (Some (demo_sni, demo_id, demo_answer)) ph)"

definition demo_rebuilt :: config where
  "demo_rebuilt = rebuild demo_sha demo_cell demo_config"

lemma demo_rebuilt_permits: "judged_permits (snd (cfg_cache demo_rebuilt)) demo_sni demo_id"
proof -
  let ?list = "[([Suffix ''example.com''], [''@seven''])]"
  have "entries_cover demo_sha demo_table [''@seven''] demo_id"
    using entries_cover_identity [OF demo_table_ok demo_sha_ok demo_header_ok] demo_entries_admit by (simp add: demo_id_def)
  then have "\<exists>i p. best_claim (map fst ?list) demo_sni i p \<and> entries_cover demo_sha demo_table (snd (?list ! i)) demo_id"
    using demo_best_claim by (intro exI [of _ 0] exI [of _ "Suffix ''example.com''"]) (simp add: demo_sni_def)
  then have "rules_cover demo_sha demo_table demo_config demo_sni demo_id"
    unfolding rules_cover_def demo_config_def config.simps option.case .
  then show ?thesis
    using rebuilt_permits [OF demo_table_ok demo_sha_ok] by (simp add: demo_rebuilt_def rebuild_def cell_of_def demo_config_def)
qed

lemma demo_section:
  assumes "exec sha (next_section 0 demo_sni demo_id ph) (pool_of 2 cfg (demo_call_at cfg ph)) = Some r"
    and "\<And>sni a b. ph \<noteq> Answered sni a b"
  shows "advance sha 0 (demo_call_at cfg ph) = Some (demo_call_at (shared r) (phase_of r 0), [])"
proof (cases ph)
  case (Answered sni a b)
  then show ?thesis using assms(2) by blast
qed (use assms(1) in \<open>simp_all add: advance_def idx_def config_at_def set_slot_def set_config_def demo_call_at_def demo_process_def
    demo_slot_def Let_def del: exec.simps next_section.simps\<close>)

lemma demo_phase [simp]: "phase_of (pool_of 2 cfg (demo_call_at cfg ph)) 0 = ph"
  by (simp add: phase_at_def demo_call_at_def demo_process_def demo_slot_def)

lemma demo_advances:
  "advance demo_sha 0 (demo_call_at demo_config Idle) = Some (demo_call_at demo_config (Snapped demo_cell demo_sni demo_id), [])"
  "advance demo_sha 0 (demo_call_at demo_config (Snapped demo_cell demo_sni demo_id)) =
     Some (demo_call_at demo_config (Stale demo_cell demo_sni demo_id), [])"
  "advance demo_sha 0 (demo_call_at demo_config (Stale demo_cell demo_sni demo_id)) =
     Some (demo_call_at demo_rebuilt (Ready demo_sni demo_id), [])"
  "advance demo_sha 0 (demo_call_at demo_rebuilt (Ready demo_sni demo_id)) =
     Some (demo_call_at demo_rebuilt (Answered demo_sni demo_id True), [])"
proof -
  have cell: "pr_cell (demo_call_at cfg ph) = demo_cell" for cfg ph by (simp add: demo_call_at_def demo_process_def)
  have gen: "fst (cfg_cache demo_config) \<noteq> fst demo_cell" by (simp add: demo_config_def cell_of_def)
  show "advance demo_sha 0 (demo_call_at demo_config Idle) = Some (demo_call_at demo_config (Snapped demo_cell demo_sni demo_id), [])"
    by (subst demo_section) (auto simp: cell simp del: pool_of_sel(3))
  show "advance demo_sha 0 (demo_call_at demo_config (Snapped demo_cell demo_sni demo_id)) =
     Some (demo_call_at demo_config (Stale demo_cell demo_sni demo_id), [])"
    using gen by (subst demo_section) (auto simp del: pool_of_sel(3))
  show "advance demo_sha 0 (demo_call_at demo_config (Stale demo_cell demo_sni demo_id)) =
     Some (demo_call_at demo_rebuilt (Ready demo_sni demo_id), [])"
    by (subst demo_section) (auto simp: demo_rebuilt_def simp del: pool_of_sel(3))
  show "advance demo_sha 0 (demo_call_at demo_rebuilt (Ready demo_sni demo_id)) =
     Some (demo_call_at demo_rebuilt (Answered demo_sni demo_id True), [])"
    using demo_rebuilt_permits by (subst demo_section) (auto simp del: pool_of_sel(3))
qed

lemma demo_events_run: "demo_run demo_events = Some (demo_call_at demo_rebuilt (Answered demo_sni demo_id True), demo_replies)"
proof -
  let ?g = "new_auth_filter demo_ids"
  have "invoke demo_sha 0 (On_Accept demo_tls_envoy) (demo_process demo_config (demo_slot ?g False None Idle)) =
      Some (demo_call_at demo_config Idle, [])"
    using demo_begin
    by (simp add: invoke_def idx_def in_order_def set_slot_def demo_call_at_def demo_process_def demo_slot_def Let_def
        del: callback_begin.simps)
  then show ?thesis unfolding demo_events_def by (simp add: run_append demo_setup_run demo_advances)
qed

definition demo_end :: "unit process" where
  "demo_end = demo_process demo_rebuilt (demo_slot ((new_auth_filter demo_ids)\<lparr>af_settled := True\<rparr>) True None Idle)"

lemma demo_last_step:
  "step demo_sha demo_json (\<lambda>_. Inr demo_raw) demo_define (Advance 0) (demo_call_at demo_rebuilt (Answered demo_sni demo_id True)) =
    Some (demo_end, [(0, Continue, bump (Some 3))])"
proof -
  let ?p = "demo_call_at demo_rebuilt (Answered demo_sni demo_id True)"
  have "demo_answer True = (Continue, Auth_Filter ((new_auth_filter demo_ids)\<lparr>af_settled := True\<rparr>), bump (Some 3))"
    by (simp add: demo_answer_def as_filter_def Let_def)
  moreover have "exec demo_sha (next_section 0 demo_sni demo_id (Answered demo_sni demo_id True)) (pool_of 2 demo_rebuilt ?p) =
      Some (set_phase 0 Idle (pool_of 2 demo_rebuilt ?p))"
    by (simp add: phase_at_def demo_call_at_def demo_process_def demo_slot_def)
  ultimately show ?thesis
    by (simp add: advance_def idx_def config_at_def set_slot_def set_config_def demo_call_at_def demo_process_def
        demo_slot_def demo_end_def Let_def del: exec.simps next_section.simps)
qed

lemma history_Cons: "history tj (x # xs) = tables_of tj x @ history tj xs"
  by (simp add: history_def)

lemma demo_history [simp]: "history (\<lambda>_. Inr demo_raw) demo_setup = [demo_table]" "history (\<lambda>_. Inr demo_raw) demo_events = [demo_table]"
proof -
  have "parse_table (\<lambda>_. Inr demo_raw) src = Inr demo_table" for src
    using demo_parse_table by (simp add: parse_table_def)
  then show "history (\<lambda>_. Inr demo_raw) demo_setup = [demo_table]"
    by (simp add: demo_setup_def history_def tables_of_def demo_texts)
  then show "history (\<lambda>_. Inr demo_raw) demo_events = [demo_table]"
    by (simp add: demo_events_def) (simp add: history_def)
qed

lemma demo_slots [simp]:
  "config_at 2 (demo_call_at cfg ph) = Some cfg" "ob_filter (pr_slots (demo_call_at cfg ph) ! 0) = Auth_Filter (new_auth_filter demo_ids)"
  "ob_listener (pr_slots (demo_call_at cfg ph) ! 0) = 2"
  by (simp_all add: config_at_def idx_def demo_call_at_def demo_process_def demo_slot_def)

section \<open>Properties\<close>

text \<open>
  C9. Every config of a process, however its listeners, filters, callbacks and publications
  interleave, is in a state in which Sharing's callers and publications put the config it was
  loaded as; the tables are those of the accepted carriers, all well-formed, and the published
  cell is the last of them.
\<close>

theorem process_runs_pools:
  assumes "run sha rj tj d xs (fresh_process s) = Some (p, os)"
  shows "pr_cell p = cell_of (history tj xs) \<and> list_all table_ok (history tj xs) \<and>
    (config_at l p = None \<or> (\<exists>cfg cfg0 src. config_at l p = Some cfg \<and> parse_rules rj src = Inr cfg0 \<and> same_rules cfg cfg0 \<and>
      reached sha cfg0 (history tj xs) (pool_of l cfg p)))"
proof -
  have ok: "process_ok sha rj tj xs p" using process_ok_run [OF assms] .
  have "\<exists>cfg0 src. parse_rules rj src = Inr cfg0 \<and> same_rules cfg cfg0 \<and> reached sha cfg0 (history tj xs) (pool_of l cfg p)"
    if cfg: "config_at l p = Some cfg" for cfg
  proof -
    obtain cfg0 where cfg0: "loaded rj cfg0" "reached sha cfg0 (history tj xs) (pool_of l cfg p)"
      using ok cfg unfolding process_ok_def by blast
    moreover have "same_rules cfg cfg0"
      using reached_ok [OF cfg0(2) loaded_cache [OF cfg0(1)]] by (simp add: pool_ok_def)
    ultimately show ?thesis unfolding loaded_def by blast
  qed
  then show ?thesis using ok by (cases "config_at l p") (auto simp: process_ok_def cell_ok_def)
qed

theorem process_runs_pools_witness:
  "\<exists>cfg0. same_rules demo_rebuilt cfg0 \<and>
    reached demo_sha cfg0 [demo_table] (pool_of 2 demo_rebuilt (demo_call_at demo_rebuilt (Answered demo_sni demo_id True)))"
  using process_runs_pools [OF demo_events_run, of 2] by auto

text \<open>
  C2. Complete mediation. In any run of the process, a filter that had not given its verdict lets
  a connection or datagram pass only when it is justified: a labelling or enforcing TCP filter
  after a whole header, a table published when the callback began and an address the host took;
  an \<open>auth\<close> filter after an IPv6 peer address; a UDP filter after a header it strips; and each of
  them that enforces, when some published table's rules cover the identity. Carriers pass
  everything untouched, a rejected UDP config nothing.
\<close>

theorem passes_only_justified:
  assumes "run sha rj tj d xs (fresh_process s) = Some (p, os)" and "step sha rj tj d x p = Some (q, os')"
    and "(i, Continue, fx) \<in> set os'" and "length (history tj xs) < 2 ^ 64 - 1" and "sha256_ok sha"
    and "unsettled (ob_filter (pr_slots p ! i))"
  shows "\<exists>ys cb zs. xs @ [x] = ys @ Invoke i cb # zs \<and>
    justified sha (snd (cell_of (history tj ys))) (history tj xs) (config_at (ob_listener (pr_slots p ! i)) p)
      (ob_filter (pr_slots p ! i)) cb fx"
  by (rule reply_justified [OF assms])

theorem passes_only_justified_witness:
  "\<exists>cb hist. justified demo_sha (snd (cell_of hist)) [demo_table] (Some demo_rebuilt) (Auth_Filter (new_auth_filter demo_ids)) cb
    (bump (Some 3))"
  using passes_only_justified [OF demo_events_run demo_last_step, of 0 "bump (Some 3)"] demo_sha_ok by auto

text \<open>
  C12. Over a whole run no filter both lets its connection pass and closes it, whatever the host
  calls, in whatever order the callbacks of all filters and the publications are interleaved.
\<close>

theorem one_verdict_per_filter:
  assumes "run sha rj tj d xs (fresh_process s) = Some (p, os)"
  shows "\<not> ((\<exists>fx. (i, Continue, fx) \<in> set os) \<and> (\<exists>st fx. (i, st, fx) \<in> set os \<and> closes fx))"
proof -
  have "verdicts_ok p os" using run_verdicts [OF assms] .
  then have "\<not> (passes i os \<and> cuts i os)" unfolding verdicts_ok_def by (metis consistent_one)
  then show ?thesis unfolding passes_def cuts_def .
qed

theorem one_verdict_per_filter_witness:
  "(1, Continue, label_effects demo_sha demo_table (demo_header\<lparr>hdr_len := 38\<rparr>) @ bump (Some 3)) \<in> set demo_replies \<and>
   \<not> (\<exists>st fx. (1, st, fx) \<in> set demo_replies \<and> closes fx)"
  using one_verdict_per_filter [OF demo_events_run, of 1] by (auto simp: demo_replies_def)

text \<open>
  C13. No callback hangs or panics: in every reachable state a callback the host may make of an
  idle filter is answered once and alone, at once or after at most five critical sections of its
  own.
\<close>

theorem callbacks_are_answered:
  assumes "run sha rj tj d xs (fresh_process s) = Some (p, os)" and "i < length (pr_slots p)"
    and "ob_call (pr_slots p ! i) = None" and "in_order (pr_slots p ! i) cb" and "serves (ob_filter (pr_slots p ! i)) cb"
  shows "\<exists>n q st fx. n \<le> 5 \<and> run sha rj tj d (Invoke i cb # replicate n (Advance i)) p = Some (q, [(i, st, fx)])"
  by (rule callback_answered [OF process_ok_run [OF assms(1)] assms(2-5)])

theorem callbacks_are_answered_witness:
  "\<exists>n q st fx. n \<le> 5 \<and> run demo_sha demo_json (\<lambda>_. Inr demo_raw) demo_define (Invoke 0 (On_Accept demo_tls_envoy) # replicate n (Advance 0))
    (demo_process demo_config (demo_slot (new_auth_filter demo_ids) False None Idle)) = Some (q, [(0, st, fx)])"
  by (rule callbacks_are_answered [OF demo_setup_run]) (simp_all add: demo_process_def demo_slot_def in_order_def)

text \<open>
  C8. Between publications the caches do not matter: once the calls of a listener are over, and
  until the next carrier, every reply of its filters is that of filters without cache and
  concurrency, which judge by the rules against the table published last.
\<close>

theorem quiet_process_is_reference:
  assumes "run sha rj tj d xs (fresh_process s) = Some (p, os)" and "resting l p" and "config_at l p = Some cfg"
    and "run sha rj tj d ys p = Some (q, os1)" and "step sha rj tj d x q = Some (r, os2)" and "history tj (ys @ [x]) = []"
    and "(i, st, fx) \<in> set os2" and "ob_listener (pr_slots q ! i) = l"
    and "length (history tj xs) < 2 ^ 64 - 1" and "sha256_ok sha"
  shows "\<exists>cb. Invoke i cb \<in> set (ys @ [x]) \<and>
    reference_reply sha (history tj xs) (config_at l q) (ob_filter (pr_slots q ! i)) cb = Some (st, ob_filter (pr_slots r ! i), fx)"
proof -
  have ok: "process_ok sha rj tj xs p" using process_ok_run [OF assms(1)] .
  have none: "history tj ys = []" using assms(6) by simp
  have down: "settled_down sha (history tj xs) [] l p" using resting_settled_down [OF ok assms(2)] assms(3) by simp
  have "process_ok sha rj tj (xs @ ys) q" and "settled_down sha (history tj xs) ys l q"
    using run_settled_down [OF ok down assms(4) none assms(9)] by simp_all
  moreover have "published_ok (history tj xs)" using ok assms(9) by (simp add: published_ok_def process_ok_def cell_ok_def)
  ultimately show ?thesis using quiet_reply [OF _ _ assms(5) _ assms(10,7,8)] by blast
qed

theorem quiet_process_is_reference_witness:
  "reference_reply demo_sha [demo_table] (Some demo_rebuilt) (Auth_Filter (new_auth_filter demo_ids)) (On_Accept demo_tls_envoy) =
    Some (Continue, Auth_Filter ((new_auth_filter demo_ids)\<lparr>af_settled := True\<rparr>), bump (Some 3))"
proof -
  let ?ys = "[Invoke 0 (On_Accept demo_tls_envoy), Advance 0, Advance 0, Advance 0, Advance 0]"
  let ?p = "demo_process demo_config (demo_slot (new_auth_filter demo_ids) False None Idle)"
  have "run demo_sha demo_json (\<lambda>_. Inr demo_raw) demo_define ?ys ?p =
      Some (demo_call_at demo_rebuilt (Answered demo_sni demo_id True), [])"
    using demo_events_run demo_setup_run unfolding demo_events_def by (auto simp: run_append split: Option.bind_splits)
  moreover have "resting 2 ?p" "config_at 2 ?p = Some demo_config"
    by (auto simp: resting_def demo_process_def demo_slot_def config_at_def idx_def less_Suc_eq nth_Cons')
  ultimately have "\<exists>cb. Invoke 0 cb \<in> set (?ys @ [Advance 0]) \<and>
      reference_reply demo_sha [demo_table] (Some demo_rebuilt) (Auth_Filter (new_auth_filter demo_ids)) cb =
        Some (Continue, ob_filter (pr_slots demo_end ! 0), bump (Some 3))"
    using quiet_process_is_reference [where l = 2 and cfg = demo_config and ys = ?ys and i = 0 and st = Continue and fx = "bump (Some 3)",
        OF demo_setup_run _ _ _ demo_last_step] demo_sha_ok by (simp add: history_Cons)
  then show ?thesis by (auto simp: demo_end_def demo_process_def demo_slot_def)
qed

text \<open>
  C7. The TLS chain in a process. When an \<open>auth\<close> filter lets a connection pass, and the host told
  it the address some \<open>ppv2\<close> filter set when it let the same connection pass, then that filter
  was shown a whole header, and the scope claiming the server name covers, under one published
  table, the identity the header has under another or the same one.
\<close>

theorem chain_rests_on_header:
  assumes "run sha rj tj d xs (fresh_process s) = Some (p, os)" and "step sha rj tj d x p = Some (q, os')"
    and "(j, Continue, gx) \<in> set os'" and "ob_filter (pr_slots p ! j) = Auth_Filter g"
    and "length (history tj xs) < 2 ^ 64 - 1" and "sha256_ok sha"
    and "\<And>e. Invoke j (On_Accept e) \<in> set (xs @ [x]) \<Longrightarrow>
      \<exists>fx label port b peer port'. (i, Continue, fx) \<in> set os \<and> Set_Remote_Address label port b \<in> set fx \<and>
        get_remote_address e = Some (peer, port') \<and> parse_ipv6 peer = parse_ipv6 label"
  shows "\<exists>e h e' t1 t2 cfg. Invoke i (On_Data e) \<in> set xs \<and> parse (chunk e) = Some (Inr h) \<and>
    Invoke j (On_Accept e') \<in> set (xs @ [x]) \<and> t1 \<in> set (history tj xs) \<and> t2 \<in> set (history tj xs) \<and>
    config_at (ob_listener (pr_slots p ! j)) p = Some cfg \<and> rules_cover sha t2 cfg (sni_of e') (identity_of sha t1 h)"
proof -
  have "unsettled (ob_filter (pr_slots p ! j))" by (simp add: assms(4))
  from reply_justified [OF assms(1-3,5,6) this] obtain ys cb zs where at: "xs @ [x] = ys @ Invoke j cb # zs"
    and just: "justified sha (snd (cell_of (history tj ys))) (history tj xs) (config_at (ob_listener (pr_slots p ! j)) p) (Auth_Filter g) cb gx"
    unfolding assms(4) by blast
  from just obtain e' a where e': "cb = On_Accept e'" "labelled_identity e' = Some a"
    and "covered sha (history tj xs) (config_at (ob_listener (pr_slots p ! j)) p) (sni_of e') a"
    by (cases cb) auto
  then obtain cfg t2 where t2: "config_at (ob_listener (pr_slots p ! j)) p = Some cfg" "t2 \<in> set (history tj xs)"
    "rules_cover sha t2 cfg (sni_of e') a" by (auto simp: covered_def)
  have call: "Invoke j (On_Accept e') \<in> set (xs @ [x])" using at e'(1) by simp
  from assms(7) [OF this] obtain fx label port b peer port' where host: "(i, Continue, fx) \<in> set os"
    "Set_Remote_Address label port b \<in> set fx" "get_remote_address e' = Some (peer, port')" "parse_ipv6 peer = parse_ipv6 label"
    by blast
  from label_provenance [OF assms(1) host(1,2) assms(5,6)] obtain e h t1 where h: "Invoke i (On_Data e) \<in> set xs"
    "parse (chunk e) = Some (Inr h)" "t1 \<in> set (history tj xs)" "table_ok t1"
    "label = show_ipv6 (synthesize sha (tbl_scheme t1) h)" by blast
  have "length (synthesize sha (tbl_scheme t1) h) = 16"
    using h(4) parsed_header_ok [OF h(2)] by (intro synthesize_length assms(6)) (simp_all add: table_ok_def)
  then have "a = identity_of sha t1 h"
    using e'(2) host(3,4) h(5) v6_text.read_print by (simp add: labelled_identity_def identity_of_def)
  then show ?thesis using h call t2 by blast
qed

theorem chain_rests_on_header_witness:
  "\<exists>e h e' t1. Invoke 1 (On_Data e) \<in> set demo_events \<and> parse (chunk e) = Some (Inr h) \<and>
    Invoke 0 (On_Accept e') \<in> set (demo_events @ [Advance 0]) \<and> t1 = demo_table \<and>
    rules_cover demo_sha demo_table demo_rebuilt (sni_of e') (identity_of demo_sha t1 h)"
proof -
  have told: "\<exists>fx label port b peer port'. (1, Continue, fx) \<in> set demo_replies \<and> Set_Remote_Address label port b \<in> set fx \<and>
      get_remote_address e = Some (peer, port') \<and> parse_ipv6 peer = parse_ipv6 label"
    if "Invoke 0 (On_Accept e) \<in> set (demo_events @ [Advance 0])" for e
  proof -
    have e: "e = demo_tls_envoy" using that by (auto simp: demo_events_def demo_setup_def)
    let ?fx = "label_effects demo_sha demo_table (demo_header\<lparr>hdr_len := 38\<rparr>) @ bump (Some 3)"
    have "(1, Continue, ?fx) \<in> set demo_replies" by (simp add: demo_replies_def)
    moreover have "Set_Remote_Address demo_label (ucast (hdr_port (demo_header\<lparr>hdr_len := 38\<rparr>))) True \<in> set ?fx"
      by (simp add: label_effects_def demo_label_def)
    moreover have "get_remote_address e = Some (demo_label, 1)" by (simp add: e demo_tls_envoy_def)
    ultimately show ?thesis by blast
  qed
  have "ob_filter (pr_slots (demo_call_at demo_rebuilt (Answered demo_sni demo_id True)) ! 0) = Auth_Filter (new_auth_filter demo_ids)"
    by simp
  from chain_rests_on_header [OF demo_events_run demo_last_step _ this, of "bump (Some 3)" 1, OF _ _ demo_sha_ok told]
  show ?thesis by auto
qed

end
