(* ===== verification/Bench.thy ===== *)
theory Bench
  imports Table
begin

text \<open>
  examples/bench.rs: the benchmark program. It builds a PrivateLink header of 112 bytes and an
  allowlist of 10,000 entries, checks its worst case and its deny case, and runs the parser, the
  encoding and the lookup in loops whose results are added up so that they are not optimised
  away. Times and printing are left out; an \<open>unwrap\<close>, an \<open>assert\<close> or an underflow that would panic
  is \<open>None\<close>. Shown is that none of them does, that the two lookups are the cases the comments say
  they are, and what the sums are.
\<close>

section \<open>The code\<close>





text \<open>\<open>bench\<close>: three rounds of \<open>f(iters)\<close>, whose wrapping sum goes to \<open>black_box\<close>.\<close>

fun rounds :: "nat \<Rightarrow> (u64 \<Rightarrow> u64 option) \<Rightarrow> u64 \<Rightarrow> u64 \<Rightarrow> u64 option" where
  "rounds 0 f iters sink = Some sink"
| "rounds (Suc n) f iters sink = do { x \<leftarrow> f iters; rounds n f iters (sink + x) }"

definition bench :: "u64 \<Rightarrow> (u64 \<Rightarrow> u64 option) \<Rightarrow> u64 option" where
  "bench iters f = rounds 3 f iters 0"

text \<open>The loop of each closure, \<open>for _ in 0..n { s = s.wrapping_add(..) }\<close>.\<close>

fun add_up :: "nat \<Rightarrow> u64 option \<Rightarrow> u64 \<Rightarrow> u64 option" where
  "add_up 0 x s = Some s"
| "add_up (Suc n) x s = do { v \<leftarrow> x; add_up n x (s + v) }"

definition looped :: "u64 option \<Rightarrow> u64 \<Rightarrow> u64 option" where
  "looped x n = add_up (unat n) x 0"








section \<open>Loops\<close>

lemma add_up_eq: "add_up n (Some v) s = Some (s + of_nat n * v)"
  by (induction n arbitrary: s) (simp_all add: algebra_simps)

lemma looped_eq [simp]: "looped (Some v) n = Some (n * v)"
  by (simp add: looped_def add_up_eq)

lemma bench_eq [simp]: "bench iters (looped (Some v)) = Some (3 * iters * v)"
  by (simp add: bench_def numeral_3_eq_3 algebra_simps)

section \<open>The allowlist\<close>

definition entry_groups :: "u32 \<Rightarrow> u16 list" where
  "entry_groups i = [0xfd00, 0xdead, 0xbeef, 1, 0, 0, ucast (drop_bit 16 i), ucast i]"

definition entry_ip :: "u32 \<Rightarrow> bytes" where
  "entry_ip i = octets_of_segments (entry_groups i)"











definition entry_key :: "nat \<Rightarrow> u128" where
  "entry_key n = to_u128 (entry_ip (of_nat n))"





definition entry_ranges :: "nat \<Rightarrow> cidr_range list" where
  "entry_ranges n = map (\<lambda>i. \<lparr>range_start = entry_key i, range_end = entry_key i\<rparr>) [0..<n]"






section \<open>The header\<close>










lemma length_entry_ranges [simp]: "length (entry_ranges n) = n"
  by (simp add: entry_ranges_def)





section \<open>Properties\<close>



end
