(* ===== verification/Spec2Isabelle.thy ===== *)
theory Spec2Isabelle
  imports Guarantees Bench
begin

text \<open>
  This library models ppv2-auth, an Envoy dynamic module (Rust, src/src/*.rs) that reads the
  PROXY protocol v2 header an AWS load balancer puts in front of a connection or datagram, turns
  what it attests (a PrivateLink endpoint id, a source address) into one IPv6 address, the
  identity, and admits or denies by allowlists over such addresses. The \<open>table\<close> filter carries the
  identity table (a /48, sites, groups) and publishes it process-wide; \<open>ppv2\<close> labels the socket with
  the identity, \<open>ppv2_auth\<close> labels and judges, \<open>auth\<close> judges a label per server name, and UDP has
  one filter that does everything.

  Parts and theories, in the order they build on each other:

  \<^item> Prelude, Std_Str, Std_Net, Range_Index: what the code uses of the language and its standard
    library. Results are sums, a read that would panic is \<open>None\<close>; a \<open>str\<close> is the list of its UTF-8
    bytes; \<open>Ipv4Addr\<close> and \<open>Ipv6Addr\<close> parsing and printing follow the standard library
    (interface \<open>text_codec\<close>: what is printed reads back). \<open>sorted_ranges\<close> is the contract of a sorted
    table of disjoint ranges under binary search, with the two clients below.
  \<^item> Cidr (cidr.rs): allowlists. A set built from text holds exactly the addresses its entries
    denote, and building fails exactly on a malformed entry.
  \<^item> Ppv2 (ppv2.rs): the parser, against the wire format as an encoder: parsing is its inverse,
    never panics, and its verdicts do not depend on segmentation.
  \<^item> Graph (graph.rs): the walk that expands \<open>@group\<close> references. It terminates on every graph and
    returns the reachable literals.
  \<^item> Scheme, Identity (identity.rs): sites with their label and address indices (a sweep over range
    ends that finds the owner of every address, contested ones going to site 0), the identity of
    a header and the encoding of a rule member. They meet: the encoded member covers the
    identity exactly when the member admits the header.
  \<^item> Table, Rules, Sharing (config.rs): the table and its parsing, the publication cell with its
    generation, rules, server name patterns and scopes, the cache of the expanded rules. Table and
    Rules treat one undisturbed caller (state passing); Sharing treats any number of callers and
    publications, each critical section of \<open>Config::permits\<close> being one action of a step function
    and \<open>reached\<close> the states that sequences of actions lead to.
  \<^item> Envoy: the host as a record of answers and a list of effects; stats.rs; the contract
    \<open>final_verdict\<close> of a filter that answers once, interpreted for the three TCP filters.
  \<^item> Tcp (tcp.rs), Udp (udp.rs): the filters, callback by callback. Chain: two filters on the same
    connection. Entry (lib.rs): factories, loading, validation, publication.
  \<^item> Process, Guarantees: the module as one running system. The state is the published cell, the
    listeners with their configs and the filters with their objects; the events load a listener,
    create a filter, call one back, and run the next critical section of a call that waits in
    \<open>permits\<close>. \<open>ppv2_begin\<close>, \<open>auth_begin\<close> and \<open>udp_begin\<close> are the callbacks up to the question they
    put to \<open>permits\<close>; with the question answered at once they are those of Tcp and Udp
    (\<open>ppv2_resolves\<close>, \<open>auth_resolves\<close>, \<open>udp_resolves\<close>). \<open>process_ok\<close> is the invariant of a run, under
    which each config is in a state of Sharing; Guarantees has what follows for whole runs.
  \<^item> Bench (examples/bench.rs): the benchmark program, with its inputs and what its loops add up.

  This theory holds the properties that run through several parts: from an accepted config and a
  published table to the verdict on a connection, the TLS chain, and the agreement of TCP and UDP.

  Correspondence. Definitions keep the names of the code where these are free (\<open>parse\<close>,
  \<open>synthesize\<close>, \<open>encode_member\<close>, \<open>match_scopes\<close>, \<open>permits\<close>, \<open>inspect\<close>, \<open>load\<close>); methods of the same name
  carry their type as a prefix (\<open>ppv2_on_data\<close>, \<open>auth_on_data\<close>, \<open>udp_on_data\<close>). Structs are records,
  enums datatypes, integers words of their width where they are stored or compared and naturals
  where they are lengths bounded far below the width. A \<open>RwLock\<close> or an \<open>Arc\<close> is its content, passed
  and returned.

  Parameters and hypotheses. SHA-256 is any function with 32 bytes of output (\<open>sha256_ok\<close>); the
  statements about labels compare digests, so no collision freedom is assumed. serde_json is any
  function from text to the raw shapes, so its refusal of unknown fields is outside the model.
  Envoy's answers are arbitrary; only the TLS chain assumes something of them, that the peer
  address a filter set is the one later filters are told; a process assumes the order of its calls
  (\<open>on_accept\<close> once, before data; one callback of a filter at a time). \<open>published_ok\<close> bounds the number of publications
  by the range of the 64-bit generation below its reserved value, and \<open>genuine\<close> sets aside the
  verbatim IPv6 clients whose own address lies inside the module's /48. Every recursion is shown total,
  so no fuel is used anywhere.

  Not modelled: messages on stderr and the quoted parts of error texts; the registration macro
  and \<open>init\<close> of the SDK; the times the benchmark takes and prints. Blocking on locks is not modelled
  either; an action of Sharing happens when its lock is free. A process never drops a listener or a
  filter: an \<open>Arc\<close> keeps a config alive as long as a filter of it, and one that is gone is one the
  host no longer calls.
\<close>

section \<open>Properties\<close>

text \<open>
  C1. From config to verdict. A \<open>ppv2_auth\<close> listener whose config the factory accepted denies by
  default: under any published table, whatever calls came before, a connection whose bytes start
  with a whole header goes on exactly when an entry of the configured \<open>allow\<close> reaches, through
  the table's groups, a literal that admits the header; otherwise it is closed.
\<close>

theorem ppv2_auth_from_config_to_verdict:
  assumes "new_listener_filter_config rj tj d ''ppv2_auth'' bs w = (Some (Ppv2_Listener pc cfg), w')"
    and "data_calls sha es (new_ppv2_filter pc) = (rs, f)" and "waiting f"
    and "published_ok (hist @ [t])" and "sha256_ok sha"
    and "parse (chunk e) = Some (Inr h)" and "remote_set sha e t h" and "genuine (tbl_scheme t) h"
  shows "\<exists>src raw. from_utf8 bs = Some src \<and> rj src = Inr raw \<and>
    fst (data_call sha ((cell_of (hist @ [t]), cell_of (hist @ [t])), e, cfg) f) =
      (if entries_admit sha t (raw_rules_allow raw) h then Continue else Stop_Iteration)"
proof -
  have loaded: "load rj bs validate_ppv2_auth = Some cfg" and pc: "pc_enforce pc"
    using assms(1) by (cases w; auto simp: new_listener_filter_config_def enforcing_def split: option.splits prod.splits)+
  obtain src where src: "from_utf8 bs = Some src" "parse_rules rj src = Inr cfg" "cfg_scopes cfg = None"
    using loaded by (auto simp: load_Some validated text_of_Inr)
  then obtain raw where raw: "rj src = Inr raw" "cfg_allow cfg = raw_rules_allow raw"
    by (auto simp: parse_rules_def Let_def)
  have cache: "cache_ok sha (hist @ [t]) cfg" using parse_rules_cache [OF src(2)] .
  have t: "table_ok t" using assms(4) by (simp add: published_ok_def)
  have "pf_enforce f" using data_calls_enforce [OF assms(2)] pc by (simp add: new_ppv2_filter_def)
  from enforcing_call [OF assms(3) this assms(6,7) cache assms(4,5) src(3)]
  have "fst (data_call sha ((cell_of (hist @ [t]), cell_of (hist @ [t])), e, cfg) f) = Continue \<longleftrightarrow>
      entries_admit sha t (raw_rules_allow raw) h"
    using entries_cover_identity [OF t assms(5) parsed_header_ok [OF assms(6)] assms(8)] raw(2) by simp
  then have "fst (data_call sha ((cell_of (hist @ [t]), cell_of (hist @ [t])), e, cfg) f) =
      (if entries_admit sha t (raw_rules_allow raw) h then Continue else Stop_Iteration)"
    by (cases "fst (data_call sha ((cell_of (hist @ [t]), cell_of (hist @ [t])), e, cfg) f)") auto
  then show ?thesis using src(1) raw(1) by blast
qed

theorem ppv2_auth_from_config_to_verdict_witness:
  "fst (data_call demo_sha ((demo_cell, demo_cell), demo_envoy (encode_wire demo_wire), demo_flat)
     (new_ppv2_filter (enforcing demo_ids))) = Continue"
proof -
  let ?h = "demo_header\<lparr>hdr_len := 38\<rparr>"
  have "\<exists>src raw. from_utf8 (as_bytes ''{}'') = Some src \<and> demo_rules src = Inr raw \<and>
      fst (data_call demo_sha ((cell_of ([] @ [demo_table]), cell_of ([] @ [demo_table])),
        demo_envoy (encode_wire demo_wire), demo_flat) (new_ppv2_filter (enforcing demo_ids))) =
        (if entries_admit demo_sha demo_table (raw_rules_allow raw) ?h then Continue else Stop_Iteration)"
    using demo_parse [of "[]"]
    by (intro ppv2_auth_from_config_to_verdict [OF demo_listener, where es = "[]" and rs = "[]"])
      (simp_all add: demo_sha_ok new_filter_ok)
  then show ?thesis using demo_entries_admit_len by (auto simp: demo_rules_def)
qed

text \<open>
  C16. TCP and UDP agree: the same bytes, judged by the same rules under the same table, pass an
  enforcing TCP filter exactly when they pass the UDP filter, for hosts that accept the address
  and the new content.
\<close>

theorem tcp_udp_agree:
  assumes "waiting f" and "pf_enforce f" and "set_remote_address e = (\<lambda>_ _ _. True)"
    and "set_datagram_data u = (\<lambda>_. True)" and "payload_of u = chunk e"
    and "cache_ok sha (hist @ [t]) cfg" and "cache_ok sha (hist @ [t]) cfg'" and "same_rules cfg cfg'"
    and "cfg_scopes cfg = None" and "published_ok (hist @ [t])" and "sha256_ok sha"
  shows "fst (data_call sha ((cell_of (hist @ [t]), cell_of (hist @ [t])), e, cfg) f) = Continue \<longleftrightarrow>
    (\<exists>g' fx cfg''. udp_on_data sha (cell_of (hist @ [t]), cell_of (hist @ [t])) u cfg' g = Some ((Continue, g', fx), cfg''))"
proof -
  have table: "snd (fst (cell_of (hist @ [t]), cell_of (hist @ [t]))) = Some t" by (simp add: cell_of_def)
  have scopes: "cfg_scopes cfg' = None" and allow: "cfg_allow cfg' = cfg_allow cfg"
    using assms(8,9) by (simp_all add: same_rules_def)
  have remote: "remote_set sha e t h" for h by (simp add: remote_set_def assms(3))
  obtain r where r: "parse (chunk e) = Some r" using parse_total by blast
  have "fst (data_call sha ((cell_of (hist @ [t]), cell_of (hist @ [t])), e, cfg) f) = Continue \<longleftrightarrow>
      (\<exists>h. parse (chunk e) = Some (Inr h) \<and> entries_cover sha t (cfg_allow cfg) (identity_of sha t h))"
  proof (cases r)
    case (Inl err)
    then show ?thesis using data_call_no_header [OF assms(1) table] r by simp
  next
    case (Inr h)
    then show ?thesis
      using enforcing_call [OF assms(1,2) _ remote assms(6,10,11,9), of h] r by simp
  qed
  then show ?thesis
    using udp_call [OF assms(7,10,11) scopes assms(4), of g] by (auto simp: assms(5) allow)
qed

theorem tcp_udp_agree_witness:
  "\<exists>g' fx cfg''. udp_on_data demo_sha (demo_cell, demo_cell) demo_datagram demo_flat (new_udp_filter demo_counters) =
     Some ((Continue, g', fx), cfg'')"
proof -
  let ?buf = "encode_wire demo_wire @ [1, 2, 3]"
  have "payload_of demo_datagram = ?buf" by (simp add: payload_of_def demo_datagram_def)
  moreover have "fst (data_call demo_sha ((demo_cell, demo_cell), demo_envoy ?buf, demo_flat) demo_filter) = Continue"
    by (simp add: demo_data_call)
  ultimately show ?thesis
    using tcp_udp_agree [of demo_filter "demo_envoy ?buf" demo_datagram demo_sha "[]" demo_table demo_flat demo_flat
        "new_udp_filter demo_counters"]
    by (simp add: demo_sha_ok same_rules_def) (simp add: demo_envoy_def demo_datagram_def demo_flat_def)
qed

text \<open>
  C6. The TLS chain. Let a \<open>ppv2\<close> filter admit a connection, and let the host tell the \<open>auth\<close>
  filter behind it the address the first one set. Then \<open>auth\<close> goes on exactly when the scope
  that claims the server name has an entry that reaches a literal admitting the header; in every
  other case, no server name and no claiming scope included, it closes the connection.
\<close>

theorem tls_chain_admits:
  assumes "waiting f" and "data_call sha ((cell_of (hist @ [t]), c), e, cfg0) f = (Continue, f', fx)"
    and "parse (chunk e) = Some (Inr h)" and "genuine (tbl_scheme t) h"
    and "Set_Remote_Address label port b \<in> set fx"
    and "get_remote_address e' = Some (peer, port')" and "parse_ipv6 peer = parse_ipv6 label"
    and "cache_ok sha (hist @ [t]) cfg" and "published_ok (hist @ [t])" and "sha256_ok sha"
    and "cfg_scopes cfg = Some list"
  shows "(case fst (auth_on_accept sha (cell_of (hist @ [t])) e' cfg g) of (st, g', gx) \<Rightarrow>
    if \<exists>i p. best_claim (map fst list) (sni_of e') i p \<and> entries_admit sha t (snd (list ! i)) h
    then st = Continue \<and> \<not> closes gx else st = Stop_Iteration \<and> closes gx)"
proof -
  have t: "table_ok t" using assms(9) by (simp add: published_ok_def)
  have table: "snd (fst (cell_of (hist @ [t]), c)) = Some t" by (simp add: cell_of_def)
  have label: "labelled_identity e' = Some (identity_of sha t h)"
    by (rule label_read_back [OF assms(1,2) table t assms(10,3,5,6,7)])
  have "fst (permits sha (cell_of (hist @ [t])) (sni_of e') (identity_of sha t h) cfg) \<longleftrightarrow>
      (\<exists>i p. best_claim (map fst list) (sni_of e') i p \<and> entries_admit sha t (snd (list ! i)) h)"
    using permits_current(1) [OF assms(8,9,10)] entries_cover_identity [OF t assms(10) parsed_header_ok [OF assms(3)] assms(4)]
    by (simp add: rules_cover_def assms(11))
  then show ?thesis by (simp add: auth_call(1) [OF label] auth_refuse_def)
qed

theorem tls_chain_admits_witness:
  "\<exists>e'. sni_of e' = as_bytes ''A.Example.com'' \<and>
    fst (fst (auth_on_accept demo_sha demo_cell e' demo_config (new_auth_filter demo_counters))) = Continue"
proof -
  let ?h = "demo_header\<lparr>hdr_len := 38\<rparr>"
  let ?label = "show_ipv6 (synthesize demo_sha (tbl_scheme demo_table) demo_header)"
  let ?e' = "(demo_envoy [])\<lparr>get_remote_address := Some (?label, 1), get_requested_server_name := Some (as_bytes ''A.Example.com'')\<rparr>"
  let ?scopes = "[([Suffix ''example.com''], [''@seven''])]"
  have sni: "sni_of ?e' = as_bytes ''A.Example.com''" by (simp add: sni_of_def)
  have call: "data_call demo_sha ((cell_of ([] @ [demo_table]), demo_cell), demo_envoy (encode_wire demo_wire), demo_flat) demo_filter =
      (Continue, demo_filter\<lparr>pf_done := True\<rparr>, label_effects demo_sha demo_table ?h @ [Increment_Counter 0 1])"
    using demo_data_call [of "[]"] by simp
  have parsed: "parse (chunk (demo_envoy (encode_wire demo_wire))) = Some (Inr ?h)"
    using demo_parse [of "[]"] by simp
  have "\<exists>i p. best_claim (map fst ?scopes) (sni_of ?e') i p \<and> entries_admit demo_sha demo_table (snd (?scopes ! i)) ?h"
    using demo_best_claim demo_entries_admit_len by (intro exI [of _ 0]) (auto simp: sni)
  moreover have "case fst (auth_on_accept demo_sha (cell_of ([] @ [demo_table])) ?e' demo_config (new_auth_filter demo_counters)) of
      (st, g', gx) \<Rightarrow> if \<exists>i p. best_claim (map fst ?scopes) (sni_of ?e') i p \<and>
          entries_admit demo_sha demo_table (snd (?scopes ! i)) ?h
        then st = Continue \<and> \<not> closes gx else st = Stop_Iteration \<and> closes gx"
    by (rule tls_chain_admits [OF demo_call_simps(3) call parsed, where label = ?label and peer = ?label
          and port' = 1 and port = 1 and b = True])
      (simp_all add: demo_sha_ok demo_config_def label_effects_def demo_ports demo_cache_ok(1) [unfolded demo_config_def])
  ultimately show ?thesis using sni by (intro exI [of _ ?e']) (simp add: split_beta)
qed

text \<open>
  C20. \<open>auth\<close> takes whatever IPv6 address the host reports for the peer as the identity, whether
  or not a \<open>ppv2\<close> filter wrote it there. It goes on exactly when a table is published and the
  scope claiming the server name covers that address; with no peer address, one that is no IPv6
  text, or no table it closes, and no later call on its data lets the connection pass.
\<close>

theorem auth_verdict_of_peer:
  assumes "cache_ok sha hist cfg" and "published_ok hist" and "sha256_ok sha"
  shows "(case fst (auth_on_accept sha (cell_of hist) e cfg g) of (st, g', gx) \<Rightarrow>
    (if \<exists>peer p os. get_remote_address e = Some (peer, p) \<and> parse_ipv6 peer = Some os \<and> hist \<noteq> [] \<and>
        rules_cover sha (last hist) cfg (sni_of e) (to_u128 os)
     then st = Continue \<and> \<not> closes gx else st = Stop_Iteration \<and> closes gx) \<and>
    auth_on_data g' = (Stop_Iteration, g', []))"
proof (cases "labelled_identity e")
  case None
  then have "\<not> (\<exists>peer p os. get_remote_address e = Some (peer, p) \<and> parse_ipv6 peer = Some os)"
    by (auto simp: labelled_identity_def)
  then show ?thesis using None by (auto simp: auth_call(2) auth_refuse_def auth_on_data_def)
next
  case (Some i)
  then obtain peer p os where "get_remote_address e = Some (peer, p)" "parse_ipv6 peer = Some os" "i = to_u128 os"
    by (auto simp: labelled_identity_def split: option.splits)
  then show ?thesis
    using permits_current(1) [OF assms, of "sni_of e" i] Some
    by (auto simp: auth_call(1) auth_refuse_def auth_on_data_def)
qed

theorem auth_verdict_of_peer_witness:
  "fst (fst (auth_on_accept demo_sha demo_cell (demo_envoy []) demo_config (new_auth_filter demo_counters))) = Stop_Iteration \<and>
   (\<exists>g' gx. fst (auth_on_accept demo_sha demo_cell
       ((demo_envoy [])\<lparr>get_remote_address := Some (show_ipv6 (synthesize demo_sha (tbl_scheme demo_table) demo_header), 9)\<rparr>)
       demo_flat (new_auth_filter demo_counters)) = (Continue, g', gx))"
proof -
  let ?os = "synthesize demo_sha (tbl_scheme demo_table) demo_header"
  let ?e = "(demo_envoy [])\<lparr>get_remote_address := Some (show_ipv6 ?os, 9)\<rparr>"
  have "length ?os = 16"
    using demo_table_ok by (intro synthesize_length demo_sha_ok demo_header_ok) (simp add: table_ok_def)
  then have "parse_ipv6 (show_ipv6 ?os) = Some ?os" by (rule v6_text.read_print)
  moreover have "rules_cover demo_sha demo_table demo_flat (sni_of ?e) (to_u128 ?os)"
    using demo_covered by (simp add: demo_id_def identity_of_def)
  moreover note auth_verdict_of_peer [OF demo_cache_ok(2) demo_published demo_sha_ok, of ?e "new_auth_filter demo_counters"]
  ultimately have "\<exists>g' gx. fst (auth_on_accept demo_sha demo_cell ?e demo_flat (new_auth_filter demo_counters)) = (Continue, g', gx)"
    by (auto simp: split_beta prod_eq_iff)
  moreover have "get_remote_address (demo_envoy []) = None" by (simp add: demo_envoy_def)
  then have "fst (fst (auth_on_accept demo_sha demo_cell (demo_envoy []) demo_config (new_auth_filter demo_counters))) = Stop_Iteration"
    using auth_verdict_of_peer [OF demo_cache_ok(1) demo_published demo_sha_ok, of "demo_envoy []" "new_auth_filter demo_counters"]
    by (simp add: split_beta)
  ultimately show ?thesis by blast
qed

text \<open>
  C21. An enforcing filter reads the published cell twice, to make the identity and to judge it.
  When a table is published in between, the identity made under the old one is judged by the
  rules expanded under the new one; so a peer can be admitted that neither table admits.
\<close>

theorem verdict_across_publication:
  assumes "waiting f" and "pf_enforce f" and "parse (chunk e) = Some (Inr h)" and "remote_set sha e t1 h"
    and "cache_ok sha (hist @ [t1, t2]) cfg" and "published_ok (hist @ [t1, t2])" and "sha256_ok sha"
    and "cfg_scopes cfg = None"
  shows "fst (data_call sha ((cell_of (hist @ [t1]), cell_of (hist @ [t1, t2])), e, cfg) f) = Continue \<longleftrightarrow>
    entries_cover sha t2 (cfg_allow cfg) (identity_of sha t1 h)"
proof -
  have t1: "table_ok t1" using assms(6) by (simp add: published_ok_def)
  have "snd (fst (cell_of (hist @ [t1]), cell_of (hist @ [t1, t2]))) = Some t1" by (simp add: cell_of_def)
  from data_call_label [OF assms(1) this assms(3) t1 assms(7)] show ?thesis
    using assms(2,4) permits_current(1) [OF assms(5-7)] assms(8)
    by (simp add: judged_ok_def refuse_def permits_unscoped_def rules_cover_def)
qed

theorem verdict_across_publication_witness:
  "fst (data_call demo_sha ((cell_of [demo_before], cell_of [demo_before, demo_after]),
      demo_envoy (encode_wire demo_wire), demo_flat) demo_filter) = Continue \<and>
   \<not> entries_admit demo_sha demo_before [''@seven''] demo_header \<and>
   \<not> entries_admit demo_sha demo_after [''@seven''] demo_header"
proof -
  let ?h = "demo_header\<lparr>hdr_len := 38\<rparr>"
  have "parse (chunk (demo_envoy (encode_wire demo_wire))) = Some (Inr ?h)" using demo_parse [of "[]"] by simp
  then have "fst (data_call demo_sha ((cell_of ([] @ [demo_before]), cell_of ([] @ [demo_before, demo_after])),
      demo_envoy (encode_wire demo_wire), demo_flat) demo_filter) = Continue"
    using demo_cover_across by (subst verdict_across_publication [where h = ?h]) (simp_all add: demo_sha_ok demo_across_ok demo_flat_def demo_cache_ok(2) [unfolded demo_flat_def])
  then show ?thesis using demo_before_denies demo_after_denies by simp
qed

end
